(* ===== verification/Rtc_Prelude.thy ===== *)
theory Rtc_Prelude
  imports Main "HOL-Library.Word" "HOL-Library.Multiset"
begin

unbundle bit_operations_syntax

text \<open>
  The prelude of the development: the machine integer types of the Rust sources, the result
  type with its error values, the cursor operations of the \<^verbatim>\<open>bytes\<close> crate that the codecs use
  (big-endian \<^verbatim>\<open>put_u16\<close>, \<^verbatim>\<open>get_u16\<close> and their kin, with the panic of a cursor that runs
  out), Rust's stable \<^verbatim>\<open>sort_by\<close>, and the generic lemmas on lists and words the components
  share.

  Conventions. A \<^verbatim>\<open>u8\<close>, \<^verbatim>\<open>u16\<close>, \<^verbatim>\<open>u32\<close>, \<^verbatim>\<open>u64\<close> is a word of that width and its
  arithmetic wraps, as it does in a release build. A \<^verbatim>\<open>usize\<close> that counts bytes or elements
  in memory is a \<^typ>\<open>nat\<close>. A \<^verbatim>\<open>Vec\<close>, a slice, \<^verbatim>\<open>Bytes\<close> and \<^verbatim>\<open>BytesMut\<close> are lists. A
  fallible operation returns \<open>error + 'a\<close>, \<open>Inl\<close> being the error; a panic (a slice out of
  range, a cursor past its end, a failed assertion) is the error value \<open>Panic\<close>.
\<close>

named_theorems codec \<open>rewrite rules that run an encoder or a decoder one field further\<close>
named_theorems inv_intro \<open>an operation keeps the invariant of its component\<close>

section \<open>Types\<close>

type_synonym u8 = "8 word"
type_synonym u16 = "16 word"
type_synonym u32 = "32 word"
type_synonym u64 = "64 word"
type_synonym bytes = "u8 list"

text \<open>
  An error is a Rust panic, a loop that does not end, or a variant of
  \<^verbatim>\<open>shared::error::Error\<close>, named as the source names it. Payloads that only feed a message text are
  left out.
\<close>

datatype error =
    Panic
  | Hang
  | Err string

type_synonym 'a result = "error + 'a"

definition rbind :: "'a result \<Rightarrow> ('a \<Rightarrow> 'b result) \<Rightarrow> 'b result" where
  "rbind r f = (case r of Inl e \<Rightarrow> Inl e | Inr x \<Rightarrow> f x)"

definition is_panic :: "'a result \<Rightarrow> bool" where
  "is_panic r \<longleftrightarrow> (case r of Inl e \<Rightarrow> e = Panic | Inr x \<Rightarrow> False)"

lemma rbind_simps [simp, codec]:
  "rbind (Inl e) f = Inl e"
  "rbind (Inr x) f = f x"
  by (simp_all add: rbind_def)

lemma rbind_eq_Inr: "rbind r f = Inr y \<longleftrightarrow> (\<exists>x. r = Inr x \<and> f x = Inr y)"
  by (cases r) auto

lemma rbind_eq_Inl: "rbind r f = Inl e \<longleftrightarrow> r = Inl e \<or> (\<exists>x. r = Inr x \<and> f x = Inl e)"
  by (cases r) auto

lemma is_panic_simps [simp]:
  "is_panic (Inr x) \<longleftrightarrow> False"
  "is_panic (Inl e) \<longleftrightarrow> e = Panic"
  by (simp_all add: is_panic_def)

section \<open>Cursors\<close>

text \<open>
  \<^verbatim>\<open>BufMut::put_u8\<close>, \<^verbatim>\<open>put_u16\<close>, \<^verbatim>\<open>put_u32\<close>, \<^verbatim>\<open>put_u64\<close> append the big-endian bytes;
  \<^verbatim>\<open>Buf::get_*\<close> take them off the front and panic when too few bytes remain, as does
  \<^verbatim>\<open>copy_to_bytes\<close> and a slice \<^verbatim>\<open>raw[a..b]\<close> out of range.
\<close>

definition be16 :: "u8 \<Rightarrow> u8 \<Rightarrow> u16" where
  "be16 a b = push_bit 8 (ucast a) OR ucast b"

definition be32 :: "u8 \<Rightarrow> u8 \<Rightarrow> u8 \<Rightarrow> u8 \<Rightarrow> u32" where
  "be32 a b c d =
     push_bit 24 (ucast a) OR push_bit 16 (ucast b) OR push_bit 8 (ucast c) OR ucast d"

definition put_u8 :: "u8 \<Rightarrow> bytes" where
  "put_u8 w = [w]"

definition put_u16 :: "u16 \<Rightarrow> bytes" where
  "put_u16 w = [ucast (drop_bit 8 w), ucast w]"

definition put_u32 :: "u32 \<Rightarrow> bytes" where
  "put_u32 w = [ucast (drop_bit 24 w), ucast (drop_bit 16 w), ucast (drop_bit 8 w), ucast w]"

definition put_u32_le :: "u32 \<Rightarrow> bytes" where
  "put_u32_le w = rev (put_u32 w)"

fun get_u32_le :: "bytes \<Rightarrow> (u32 \<times> bytes) result" where
  "get_u32_le (a # b # c # d # bs) = Inr (be32 d c b a, bs)"
| "get_u32_le _ = Inl Panic"

fun get_u8 :: "bytes \<Rightarrow> (u8 \<times> bytes) result" where
  "get_u8 (a # bs) = Inr (a, bs)"
| "get_u8 _ = Inl Panic"

fun get_u16 :: "bytes \<Rightarrow> (u16 \<times> bytes) result" where
  "get_u16 (a # b # bs) = Inr (be16 a b, bs)"
| "get_u16 _ = Inl Panic"

fun get_u32 :: "bytes \<Rightarrow> (u32 \<times> bytes) result" where
  "get_u32 (a # b # c # d # bs) = Inr (be32 a b c d, bs)"
| "get_u32 _ = Inl Panic"

definition copy_to_bytes :: "nat \<Rightarrow> bytes \<Rightarrow> (bytes \<times> bytes) result" where
  "copy_to_bytes n bs = (if n \<le> length bs then Inr (take n bs, drop n bs) else Inl Panic)"

definition slice :: "nat \<Rightarrow> nat \<Rightarrow> bytes \<Rightarrow> bytes result" where
  "slice a b bs = (if a \<le> b \<and> b \<le> length bs then Inr (take (b - a) (drop a bs)) else Inl Panic)"

text \<open>Reading \<open>n\<close> items with the same reader, the shape of every counted loop over a cursor.\<close>

fun get_many :: "(bytes \<Rightarrow> ('a \<times> bytes) result) \<Rightarrow> nat \<Rightarrow> bytes \<Rightarrow> ('a list \<times> bytes) result" where
  "get_many g 0 bs = Inr ([], bs)"
| "get_many g (Suc n) bs =
     rbind (g bs) (\<lambda>(x, bs'). rbind (get_many g n bs') (\<lambda>(xs, bs''). Inr (x # xs, bs'')))"

lemma be16_put: "be16 (ucast (drop_bit 8 w)) (ucast (w :: u16)) = w"
  unfolding be16_def
  by (rule bit_word_eqI) (auto simp: bit_simps)

lemma be32_put:
  "be32 (ucast (drop_bit 24 w)) (ucast (drop_bit 16 w)) (ucast (drop_bit 8 w)) (ucast (w :: u32)) = w"
proof (rule bit_word_eqI)
  fix n
  assume "n < LENGTH(32)"
  then consider "n < 8" | "8 \<le> n" "n < 16" | "16 \<le> n" "n < 24" | "24 \<le> n" "n < 32"
    by fastforce
  then show "bit (be32 (ucast (drop_bit 24 w)) (ucast (drop_bit 16 w)) (ucast (drop_bit 8 w))
      (ucast w)) n = bit w n"
    by cases (auto simp: be32_def bit_simps)
qed

lemma length_put [simp]:
  "length (put_u8 a) = 1" "length (put_u16 b) = 2" "length (put_u32 c) = 4"
  by (simp_all add: put_u8_def put_u16_def put_u32_def)

lemma get_put [simp, codec]:
  "get_u8 (put_u8 a @ bs) = Inr (a, bs)"
  "get_u16 (put_u16 b @ bs) = Inr (b, bs)"
  "get_u32 (put_u32 c @ bs) = Inr (c, bs)"
  by (simp_all add: put_u8_def put_u16_def put_u32_def be16_put be32_put)

lemma get_rest:
  "get_u8 bs = Inr (a, r) \<Longrightarrow> r = drop 1 bs \<and> 1 \<le> length bs"
  "get_u16 bs = Inr (b, r) \<Longrightarrow> r = drop 2 bs \<and> 2 \<le> length bs"
  "get_u32 bs = Inr (c, r) \<Longrightarrow> r = drop 4 bs \<and> 4 \<le> length bs"
  "get_u32_le bs = Inr (c, r) \<Longrightarrow> r = drop 4 bs \<and> 4 \<le> length bs"
  subgoal by (cases bs rule: get_u8.cases) auto
  subgoal by (cases bs rule: get_u16.cases) auto
  subgoal by (cases bs rule: get_u32.cases) auto
  subgoal by (cases bs rule: get_u32_le.cases) auto
  done

lemma get_enough:
  "1 \<le> length bs \<Longrightarrow> \<exists>a. get_u8 bs = Inr (a, drop 1 bs)"
  "2 \<le> length bs \<Longrightarrow> \<exists>b. get_u16 bs = Inr (b, drop 2 bs)"
  "4 \<le> length bs \<Longrightarrow> \<exists>c. get_u32 bs = Inr (c, drop 4 bs)"
  subgoal by (cases bs rule: get_u8.cases) auto
  subgoal by (cases bs rule: get_u16.cases) auto
  subgoal by (cases bs rule: get_u32.cases) auto
  done

lemma get_put_le [simp, codec]:
  "length (put_u32_le c) = 4" "get_u32_le (put_u32_le c @ bs) = Inr (c, bs)"
  by (simp_all add: put_u32_le_def put_u32_def be32_put)

lemma get_put_end [simp, codec]:
  "get_u8 (put_u8 a) = Inr (a, [])"
  "get_u16 (put_u16 b) = Inr (b, [])"
  "get_u32 (put_u32 c) = Inr (c, [])"
  using get_put [where bs = "[]"] by simp_all

lemma slice_append [codec]: "length xs = a \<Longrightarrow> b = a + length ys \<Longrightarrow> slice a b (xs @ ys @ t) = Inr ys"
  by (simp add: slice_def)

lemma get_many_put [codec]:
  "(\<And>x bs. x \<in> set xs \<Longrightarrow> g (p x @ bs) = Inr (x, bs)) \<Longrightarrow>
     get_many g (length xs) (concat (map p xs) @ bs) = Inr (xs, bs)"
  by (induction xs) simp_all

lemma length_concat_map: "(\<And>x. length (f x) = k) \<Longrightarrow> length (concat (map f xs)) = k * length xs"
  by (induction xs) simp_all

section \<open>Sorting\<close>

text \<open>
  Rust's \<^verbatim>\<open>slice::sort_by\<close> is a stable sort that only asks whether one element is less than
  another. \<open>sort_by lt\<close> is the insertion sort it runs on short slices: each element moves left
  past the elements it is less than. Where the comparison orders the elements by a rank, every
  stable sort gives the same list, \<^const>\<open>sort_key\<close> by that rank.
\<close>

definition insert_by :: "('a \<Rightarrow> 'a \<Rightarrow> bool) \<Rightarrow> 'a \<Rightarrow> 'a list \<Rightarrow> 'a list" where
  "insert_by lt x ys = rev (takeWhile (lt x) (rev ys) @ x # dropWhile (lt x) (rev ys))"

definition sort_by :: "('a \<Rightarrow> 'a \<Rightarrow> bool) \<Rightarrow> 'a list \<Rightarrow> 'a list" where
  "sort_by lt xs = foldl (\<lambda>ys x. insert_by lt x ys) [] xs"

definition ranked :: "('a \<Rightarrow> 'a \<Rightarrow> bool) \<Rightarrow> ('a \<Rightarrow> nat) \<Rightarrow> 'a set \<Rightarrow> bool" where
  "ranked lt f A \<longleftrightarrow> (\<forall>a \<in> A. \<forall>b \<in> A. lt a b \<longleftrightarrow> f a < f b)"

lemma rankedD: "ranked lt f A \<Longrightarrow> a \<in> A \<Longrightarrow> b \<in> A \<Longrightarrow> lt a b \<longleftrightarrow> f a < f b"
  by (simp add: ranked_def)

lemma ranked_subset: "ranked lt f A \<Longrightarrow> B \<subseteq> A \<Longrightarrow> ranked lt f B"
  by (auto simp: ranked_def)

lemma sort_by_Nil [simp]: "sort_by lt [] = []"
  by (simp add: sort_by_def)

lemma sort_by_snoc [simp]: "sort_by lt (xs @ [x]) = insert_by lt x (sort_by lt xs)"
  by (simp add: sort_by_def)

lemma mset_insert_by [simp]: "mset (insert_by lt x ys) = add_mset x (mset ys)"
proof -
  have "mset (takeWhile (lt x) (rev ys)) + mset (dropWhile (lt x) (rev ys)) = mset ys"
    by (metis mset_append mset_rev takeWhile_dropWhile_id)
  then show ?thesis
    by (simp add: insert_by_def add.commute)
qed

lemma mset_sort_by [simp]: "mset (sort_by lt xs) = mset xs"
  by (induction xs rule: rev_induct) simp_all

lemma set_sort_by [simp]: "set (sort_by lt xs) = set xs"
  by (rule mset_eq_setD) simp

lemma length_sort_by [simp]: "length (sort_by lt xs) = length xs"
  by (rule mset_eq_length) simp

lemma distinct_sort_by [simp]: "distinct (sort_by lt xs) = distinct xs"
  by (rule mset_eq_imp_distinct_iff) simp

lemma insert_by_parts:
  "insert_by lt x ys = rev (dropWhile (lt x) (rev ys)) @ x # rev (takeWhile (lt x) (rev ys))"
  by (simp add: insert_by_def)

lemma insert_by_max: "\<forall>y \<in> set ys. \<not> lt x y \<Longrightarrow> insert_by lt x ys = ys @ [x]"
  by (cases ys rule: rev_cases) (auto simp: insert_by_def)

lemma insert_by_split:
  "\<exists>as bs. ys = as @ bs \<and> insert_by lt x ys = as @ x # bs \<and> (\<forall>b \<in> set bs. lt x b) \<and> (as = [] \<or> \<not> lt x (last as))"
proof (intro exI conjI)
  let ?a = "rev (dropWhile (lt x) (rev ys))" let ?b = "rev (takeWhile (lt x) (rev ys))"
  show "ys = ?a @ ?b" by (metis rev_append rev_rev_ident takeWhile_dropWhile_id)
  show "insert_by lt x ys = ?a @ x # ?b" by (rule insert_by_parts)
  show "\<forall>b \<in> set ?b. lt x b" by (auto dest: set_takeWhileD)
  show "?a = [] \<or> \<not> lt x (last ?a)"
    using hd_dropWhile [of "lt x" "rev ys"] by (auto simp: last_rev)
qed

lemma insert_by_ranked:
  assumes r: "ranked lt f (insert x (set ys))" and s: "sorted (map f ys)"
  shows "sorted (map f (insert_by lt x ys))"
    and "filter (\<lambda>y. k = f y) (insert_by lt x ys) = filter (\<lambda>y. k = f y) (ys @ [x])"
proof -
  obtain as bs where p: "ys = as @ bs" "insert_by lt x ys = as @ x # bs"
    "\<forall>b \<in> set bs. lt x b" "as = [] \<or> \<not> lt x (last as)"
    using insert_by_split by metis
  have b: "\<forall>b \<in> set bs. f x < f b"
    using p rankedD [OF r] by auto
  have "\<forall>a \<in> set as. f a \<le> f x"
  proof (cases as rule: rev_cases)
    case (snoc as' l)
    then have "\<forall>a \<in> set as. f a \<le> f l"
      using s p(1) by (auto simp: sorted_append)
    moreover have "f l \<le> f x"
      using p(1,4) snoc rankedD [OF r, of x l] by auto
    ultimately show ?thesis by fastforce
  qed simp
  with s b p(1,2) show "sorted (map f (insert_by lt x ys))"
    by (force simp: sorted_append intro: less_imp_le)
  have "k = f x \<Longrightarrow> filter (\<lambda>y. k = f y) bs = []"
    using b by (auto simp: filter_empty_conv)
  with p show "filter (\<lambda>y. k = f y) (insert_by lt x ys) = filter (\<lambda>y. k = f y) (ys @ [x])"
    by auto
qed

lemma sort_by_sort_key:
  assumes "ranked lt f (set xs)"
  shows "sort_by lt xs = sort_key f xs"
proof -
  have "sorted (map f (sort_by lt xs)) \<and>
        (\<forall>k. filter (\<lambda>y. k = f y) (sort_by lt xs) = filter (\<lambda>y. k = f y) xs)"
    using assms
  proof (induction xs rule: rev_induct)
    case (snoc x xs)
    have r: "ranked lt f (insert x (set (sort_by lt xs)))"
      using snoc.prems by simp
    have IH: "sorted (map f (sort_by lt xs))" "\<And>k. filter (\<lambda>y. k = f y) (sort_by lt xs) = filter (\<lambda>y. k = f y) xs"
      using snoc.IH ranked_subset [OF snoc.prems] by auto
    show ?case
      using insert_by_ranked [OF r IH(1)] IH(2) by simp
  qed simp
  then show ?thesis
    by (intro properties_for_sort_key [symmetric]) simp_all
qed

lemma sort_by_ranked_id: "ranked lt f (set xs) \<Longrightarrow> sorted (map f xs) \<Longrightarrow> sort_by lt xs = xs"
  by (simp add: sort_by_sort_key sort_key_id_if_sorted)

section \<open>Lists and words\<close>

lemma drop_upd: "i < length xs \<Longrightarrow> drop i (xs[i := v]) = v # drop (Suc i) xs"
  using Cons_nth_drop_Suc [of i "xs[i := v]"] by simp

lemmas unat_diff_wrap = unat_sub_if'

lemma unat_minus: "(x :: 'a::len word) \<noteq> 0 \<Longrightarrow> unat (- x) = 2 ^ LENGTH('a) - unat x"
  using unat_diff_wrap [of 0 x] by (simp add: unat_eq_zero)

lemma unat_of_nat16: "n < 65536 \<Longrightarrow> unat (of_nat n :: u16) = n"
  by (simp add: unat_of_nat take_bit_nat_eq_self)

lemma unat_of_nat32: "n < 4294967296 \<Longrightarrow> unat (of_nat n :: u32) = n"
  by (simp add: unat_of_nat take_bit_nat_eq_self)

lemma unat_of_nat16_add4: "n + 4 < 65536 \<Longrightarrow> unat (of_nat n + 4 :: u16) = n + 4"
  using unat_of_nat16 [of "n + 4"] by simp

section \<open>Fragmentation\<close>

text \<open>The pieces of a byte string of at most \<open>n\<close> bytes.\<close>

function pieces :: "nat \<Rightarrow> bytes \<Rightarrow> bytes list" where
  "pieces n raw = (if raw = [] \<or> n = 0 then [] else take n raw # pieces n (drop n raw))"
  by pat_completeness auto
termination by (relation "measure (\<lambda>(n, raw). length raw)") auto

declare pieces.simps [simp del]

lemma pieces_Nil [simp]: "pieces n [] = []"
  by (simp add: pieces.simps)

lemma concat_pieces: "0 < n \<Longrightarrow> concat (pieces n raw) = raw"
  by (induction n raw rule: pieces.induct) (subst pieces.simps, auto)

lemma pieces_length: "p \<in> set (pieces n raw) \<Longrightarrow> p \<noteq> [] \<and> length p \<le> n"
proof (induction n raw rule: pieces.induct)
  case (1 n raw)
  show ?case
  proof (cases "raw = [] \<or> n = 0")
    case True
    with 1(2) show ?thesis by (simp add: pieces.simps [of n raw])
  next
    case False
    with 1 show ?thesis by (auto simp: pieces.simps [of n raw])
  qed
qed

lemma pieces_eq_Nil: "0 < n \<Longrightarrow> pieces n xs = [] \<longleftrightarrow> xs = []"
  by (subst pieces.simps) simp

lemma length_pieces: "0 < n \<Longrightarrow> length (pieces n raw) \<le> length raw"
proof (induction n raw rule: pieces.induct)
  case (1 n raw)
  show ?case
  proof (cases "raw = []")
    case False
    then have "length (pieces n (drop n raw)) \<le> length (drop n raw)" using 1 by simp
    then show ?thesis using False 1(2) by (subst pieces.simps) (cases raw, auto)
  qed simp
qed

end
