(* ===== verification/Replay_Detector.thy ===== *)
theory Replay_Detector
  imports Rtc_Prelude
begin

text \<open>
  The replay detectors of \<^verbatim>\<open>rtc-shared/src/replay_detector\<close>: the fixed-size multi-word
  bit set \<^verbatim>\<open>FixedBigInt\<close>, the \<^verbatim>\<open>SlidingWindowDetector\<close> of DTLS and the
  \<^verbatim>\<open>WrappedSlidingWindowDetector\<close> of SRTP and SRTCP. The trait \<^verbatim>\<open>ReplayDetector\<close> is the
  locale \<open>replay_detector\<close>, whose law is that a refused sequence number stays refused; the
  sliding window detector is an interpretation of it.
\<close>

section \<open>FixedBigInt\<close>

record fixed_big_int =
  fbi_bits :: "u64 list"
  fbi_n :: nat
  fbi_msb_mask :: u64

definition fbi_new :: "nat \<Rightarrow> fixed_big_int" where
  "fbi_new n =
     (let chunk_size = (n + 63) div 64;
          chunk_size = (if chunk_size = 0 then 1 else chunk_size)
      in \<lparr>fbi_bits = replicate chunk_size 0,
          fbi_n = n,
          fbi_msb_mask = (if n mod 64 = 0 then - 1 else push_bit (64 - n mod 64) 1 - 1)\<rparr>)"

text \<open>One iteration of the loop of \<^verbatim>\<open>lsh\<close>, at index \<open>i\<close>.\<close>

definition lsh_step :: "nat \<Rightarrow> nat \<Rightarrow> u64 list \<Rightarrow> u64 list" where
  "lsh_step n i bits =
     (let n_chunk = n div 64;
          n_n = n mod 64;
          carry =
            (if n_chunk \<le> i then
               (if 64 \<le> n_n then 0 else push_bit n_n (bits ! (i - n_chunk))) OR
               (if n_chunk < i then
                  (if n_n = 0 then 0 else drop_bit (64 - n_n) (bits ! (i - n_chunk - 1)))
                else 0)
             else 0)
      in bits[i := (if 64 \<le> n then carry else push_bit n (bits ! i) OR carry)])"

text \<open>The loop, from the highest chunk down to the lowest.\<close>

fun lsh_loop :: "nat \<Rightarrow> nat \<Rightarrow> u64 list \<Rightarrow> u64 list" where
  "lsh_loop n 0 bits = bits"
| "lsh_loop n (Suc i) bits = lsh_loop n i (lsh_step n i bits)"

definition fbi_lsh :: "fixed_big_int \<Rightarrow> nat \<Rightarrow> fixed_big_int" where
  "fbi_lsh b n =
     (if n = 0 then b
      else
        let bits = lsh_loop n (length (fbi_bits b)) (fbi_bits b);
            last = length bits - 1
        in b\<lparr>fbi_bits := bits[last := bits ! last AND fbi_msb_mask b]\<rparr>)"

definition fbi_bit :: "fixed_big_int \<Rightarrow> nat \<Rightarrow> nat" where
  "fbi_bit b i =
     (if fbi_n b \<le> i then 0
      else if fbi_bits b ! (i div 64) AND push_bit (i mod 64) 1 \<noteq> 0 then 1 else 0)"

definition fbi_set_bit :: "fixed_big_int \<Rightarrow> nat \<Rightarrow> fixed_big_int" where
  "fbi_set_bit b i =
     (if fbi_n b \<le> i then b
      else b\<lparr>fbi_bits := (fbi_bits b)
              [i div 64 := fbi_bits b ! (i div 64) OR push_bit (i mod 64) 1]\<rparr>)"

section \<open>SlidingWindowDetector\<close>

record detector =
  rd_accepted :: bool
  rd_seq :: u64
  rd_latest_seq :: u64
  rd_max_seq :: u64
  rd_window_size :: nat
  rd_mask :: fixed_big_int

definition sw_new :: "nat \<Rightarrow> u64 \<Rightarrow> detector" where
  "sw_new window mx =
     \<lparr>rd_accepted = False, rd_seq = 0, rd_latest_seq = 0, rd_max_seq = mx, rd_window_size = window,
      rd_mask = fbi_new window\<rparr>"

definition sw_check :: "detector \<Rightarrow> u64 \<Rightarrow> bool \<times> detector" where
  "sw_check d s =
     (let d = d\<lparr>rd_accepted := False\<rparr> in
      if rd_max_seq d < s then (False, d)
      else if s \<le> rd_latest_seq d \<and> of_nat (rd_window_size d) + s \<le> rd_latest_seq d then (False, d)
      else if s \<le> rd_latest_seq d \<and> fbi_bit (rd_mask d) (unat (rd_latest_seq d - s)) \<noteq> 0 then (False, d)
      else (True, d\<lparr>rd_accepted := True, rd_seq := s\<rparr>))"

definition sw_accept :: "detector \<Rightarrow> detector result" where
  "sw_accept d =
     (if \<not> rd_accepted d then Inr d
      else
        let d = (if rd_latest_seq d < rd_seq d
                 then d\<lparr>rd_mask := fbi_lsh (rd_mask d) (unat (rd_seq d - rd_latest_seq d)),
                        rd_latest_seq := rd_seq d\<rparr>
                 else d)
        in if rd_max_seq d = 0 then Inl Panic
           else Inr (d\<lparr>rd_mask :=
                       fbi_set_bit (rd_mask d) (unat ((rd_latest_seq d - rd_seq d) mod rd_max_seq d))\<rparr>))"

section \<open>WrappedSlidingWindowDetector\<close>

record wrapped_detector = detector +
  rd_init :: bool

definition wsw_new :: "nat \<Rightarrow> u64 \<Rightarrow> wrapped_detector" where
  "wsw_new window mx =
     \<lparr>rd_accepted = False, rd_seq = 0, rd_latest_seq = 0, rd_max_seq = mx, rd_window_size = window,
      rd_mask = fbi_new window, rd_init = False\<rparr>"

text \<open>
  The \<^verbatim>\<open>i64\<close> difference of the two sequence numbers, wrapped once; \<open>i64_half\<close> is the
  truncating division \<^verbatim>\<open>max_seq as i64 / 2\<close>.
\<close>

definition i64_half :: "u64 \<Rightarrow> int" where
  "i64_half m = (if 0 \<le> sint m then sint m div 2 else - ((- sint m) div 2))"

definition wrap_diff :: "u64 \<Rightarrow> u64 \<Rightarrow> u64 \<Rightarrow> u64" where
  "wrap_diff mx latest s =
     (let diff = latest - s in
      if i64_half mx < sint diff then diff - (mx + 1)
      else if sint diff \<le> - i64_half mx then diff + (mx + 1)
      else diff)"

definition wsw_check :: "wrapped_detector \<Rightarrow> u64 \<Rightarrow> bool \<times> wrapped_detector" where
  "wsw_check d s =
     (let d = d\<lparr>rd_accepted := False\<rparr> in
      if rd_max_seq d < s then (False, d)
      else
        let d = (if rd_init d then d
                 else d\<lparr>rd_latest_seq := (if s \<noteq> 0 then s - 1 else rd_max_seq d), rd_init := True\<rparr>);
            diff = sint (wrap_diff (rd_max_seq d) (rd_latest_seq d) s)
        in if int (rd_window_size d) \<le> diff then (False, d)
           else if 0 \<le> diff \<and> fbi_bit (rd_mask d) (nat diff) \<noteq> 0 then (False, d)
           else (True, d\<lparr>rd_accepted := True, rd_seq := s\<rparr>))"

definition wsw_accept :: "wrapped_detector \<Rightarrow> wrapped_detector result" where
  "wsw_accept d =
     (if \<not> rd_accepted d then Inr d
      else
        let diff = sint (wrap_diff (rd_max_seq d) (rd_latest_seq d) (rd_seq d))
        in if int (rd_window_size d) \<le> diff then Inl Panic
           else
             let d = (if diff < 0
                      then d\<lparr>rd_mask := fbi_lsh (rd_mask d) (nat (- diff)),
                             rd_latest_seq := rd_seq d\<rparr>
                      else d)
             in Inr (d\<lparr>rd_mask := fbi_set_bit (rd_mask d) (unat (rd_latest_seq d - rd_seq d))\<rparr>))"

section \<open>NoOpReplayDetector\<close>

definition noop_check :: "unit \<Rightarrow> u64 \<Rightarrow> bool \<times> unit" where
  "noop_check d s = (True, d)"

definition noop_accept :: "unit \<Rightarrow> unit result" where
  "noop_accept d = Inr d"

section \<open>The shift as a function on bits\<close>

text \<open>Bit \<open>i\<close> of the multi-word integer, over all its chunks.\<close>

definition chunk_bit :: "u64 list \<Rightarrow> nat \<Rightarrow> bool" where
  "chunk_bit bits i \<longleftrightarrow> bit (bits ! (i div 64)) (i mod 64)"

definition lsh_chunk :: "nat \<Rightarrow> u64 list \<Rightarrow> nat \<Rightarrow> u64" where
  "lsh_chunk n bits i = lsh_step n i bits ! i"

lemma length_lsh_step [simp]: "length (lsh_step n i bits) = length bits"
  by (simp add: lsh_step_def Let_def)

lemma length_lsh_loop [simp]: "length (lsh_loop n k bits) = length bits"
  by (induction n k bits rule: lsh_loop.induct) simp_all

lemma lsh_step_other: "j \<noteq> i \<Longrightarrow> lsh_step n i bits ! j = bits ! j"
  by (simp add: lsh_step_def Let_def)

lemma lsh_step_cong:
  assumes "\<And>j. j \<le> i \<Longrightarrow> xs ! j = ys ! j" "length xs = length ys"
  shows "i < length xs \<Longrightarrow> lsh_step n i xs ! i = lsh_step n i ys ! i"
  using assms by (simp add: lsh_step_def Let_def)

text \<open>
  The loop writes a chunk after every chunk that reads it, so in place or not makes no
  difference: each result chunk is computed from the original integer.
\<close>

lemma lsh_loop_nth:
  "j < length bits \<Longrightarrow> k \<le> length bits \<Longrightarrow>
   lsh_loop n k bits ! j = (if j < k then lsh_chunk n bits j else bits ! j)"
proof (induction k arbitrary: bits)
  case 0
  then show ?case by simp
next
  case (Suc k)
  have IH: "lsh_loop n (Suc k) bits ! j =
      (if j < k then lsh_chunk n (lsh_step n k bits) j else lsh_step n k bits ! j)"
    using Suc by simp
  show ?case
  proof (cases "j < k")
    case True
    then have "lsh_chunk n (lsh_step n k bits) j = lsh_chunk n bits j"
      unfolding lsh_chunk_def using Suc.prems by (intro lsh_step_cong) (auto simp: lsh_step_other)
    with True IH show ?thesis by simp
  next
    case False
    with IH Suc.prems show ?thesis
      by (cases "j = k") (auto simp: lsh_chunk_def lsh_step_other)
  qed
qed

lemma lsh_chunk_eq:
  "j < length bits \<Longrightarrow> lsh_chunk n bits j =
     (if n div 64 \<le> j
      then push_bit (n mod 64) (bits ! (j - n div 64)) OR
           (if n div 64 < j \<and> n mod 64 \<noteq> 0
            then drop_bit (64 - n mod 64) (bits ! (j - n div 64 - 1)) else 0)
      else 0)"
  using mod_less_divisor [of 64 n] unfolding not_le [symmetric]
  by (simp add: lsh_chunk_def lsh_step_def Let_def)

lemma bit_lsh_chunk_parts:
  assumes "j < length bits" "m < 64" "n = 64 * q + r" "r < 64"
  shows "bit (lsh_chunk n bits j) m \<longleftrightarrow>
      q \<le> j \<and> (r \<le> m \<and> bit (bits ! (j - q)) (m - r) \<or>
              q < j \<and> m < r \<and> bit (bits ! (j - q - 1)) (64 - r + m))"
proof -
  have "n div 64 = q" "n mod 64 = r"
    using assms by auto
  then show ?thesis
    using assms(1,2,4) by (auto simp: lsh_chunk_eq bit_simps dest: bit_imp_le_length)
qed

lemma chunk_bit_add: "m < 64 \<Longrightarrow> chunk_bit bits (64 * k + m) = bit (bits ! k) m"
  by (simp add: chunk_bit_def)

lemma bit_lsh_chunk:
  assumes "j < length bits" "m < 64"
  shows "bit (lsh_chunk n bits j) m \<longleftrightarrow> n \<le> 64 * j + m \<and> chunk_bit bits (64 * j + m - n)"
proof -
  obtain q r where n: "n = 64 * q + r" and r: "r < 64"
    by (metis mult_div_mod_eq mod_less_divisor zero_less_numeral)
  note chunk = bit_lsh_chunk_parts [OF assms n r]
  show ?thesis
  proof (cases "r \<le> m")
    case True
    have "64 * j + m - n = 64 * (j - q) + (m - r)" if "q \<le> j"
      using True le_Suc_ex [OF that] unfolding n by auto
    moreover have "n \<le> 64 * j + m \<longleftrightarrow> q \<le> j"
      using True assms(2) r unfolding n by (cases "q \<le> j") linarith+
    moreover have "m - r < 64"
      using assms(2) by simp
    ultimately show ?thesis
      using True chunk by (metis chunk_bit_add not_le)
  next
    case False
    have "64 * j + m - n = 64 * (j - q - 1) + (64 - r + m)" if "q < j"
      using False r less_imp_Suc_add [OF that] unfolding n by auto
    moreover have "n \<le> 64 * j + m \<longleftrightarrow> q < j"
      using False assms(2) r unfolding n by (cases "q < j") linarith+
    moreover have "64 - r + m < 64"
      using False r by simp
    ultimately show ?thesis
      using False chunk by (metis chunk_bit_add not_le less_imp_le)
  qed
qed

text \<open>
  The whole shift when the size is a multiple of 64: the mask of the top chunk is then all
  ones and the shift moves every bit of the window up by \<open>k\<close>.
\<close>

lemma chunk_bit_lsh_loop:
  assumes "i < 64 * length bits"
  shows "chunk_bit (lsh_loop n (length bits) bits) i \<longleftrightarrow> n \<le> i \<and> chunk_bit bits (i - n)"
proof -
  have "i div 64 < length bits"
    using assms by (simp add: less_mult_imp_div_less mult.commute)
  then show ?thesis
    by (simp add: chunk_bit_def lsh_loop_nth bit_lsh_chunk [unfolded chunk_bit_def])
qed

text \<open>A size that is a multiple of 64: the top chunk is used whole and its mask is all ones.\<close>

definition fbi_ok :: "fixed_big_int \<Rightarrow> bool" where
  "fbi_ok b \<longleftrightarrow>
     64 dvd fbi_n b \<and> 64 * length (fbi_bits b) = max 64 (fbi_n b) \<and> fbi_msb_mask b = - 1"

lemma fbi_ok_new: "64 dvd n \<Longrightarrow> fbi_ok (fbi_new n)"
  by (auto simp: fbi_ok_def fbi_new_def Let_def elim!: dvdE)

lemma fbi_n_new [simp]: "fbi_n (fbi_new n) = n"
  by (simp add: fbi_new_def Let_def)

lemma fbi_n_lsh [simp]: "fbi_n (fbi_lsh b k) = fbi_n b"
  by (simp add: fbi_lsh_def Let_def)

lemma fbi_n_set_bit [simp]: "fbi_n (fbi_set_bit b i) = fbi_n b"
  by (simp add: fbi_set_bit_def)

lemma fbi_bit_chunk: "fbi_bit b i = (if i < fbi_n b \<and> chunk_bit (fbi_bits b) i then 1 else 0)"
  by (simp add: fbi_bit_def chunk_bit_def and_exp_eq_0_iff_not_bit)

lemma fbi_bit_new [simp]: "fbi_bit (fbi_new n) i = 0"
proof -
  have "i div 64 < length (fbi_bits (fbi_new n))" if "i < n"
    using that by (auto simp: fbi_new_def Let_def)
  then show ?thesis
    by (auto simp: fbi_bit_chunk chunk_bit_def fbi_new_def Let_def nth_replicate)
qed

lemma fbi_ok_index: "fbi_ok b \<Longrightarrow> i < fbi_n b \<Longrightarrow> i < 64 * length (fbi_bits b)"
  by (simp add: fbi_ok_def)

lemma fbi_lsh_ok [inv_intro]: "fbi_ok b \<Longrightarrow> fbi_ok (fbi_lsh b k)"
  by (simp add: fbi_ok_def fbi_lsh_def Let_def)

lemma fbi_set_bit_ok [inv_intro]: "fbi_ok b \<Longrightarrow> fbi_ok (fbi_set_bit b i)"
  by (simp add: fbi_ok_def fbi_set_bit_def)

lemma fbi_bit_lsh:
  assumes "fbi_ok b"
  shows "fbi_bit (fbi_lsh b k) i = (if i < fbi_n b \<and> k \<le> i then fbi_bit b (i - k) else 0)"
proof (cases "k = 0 \<or> fbi_n b \<le> i")
  case True
  then show ?thesis
    by (auto simp: fbi_bit_def) (simp_all add: fbi_lsh_def)
next
  case False
  let ?bits = "lsh_loop k (length (fbi_bits b)) (fbi_bits b)"
  have "fbi_bits (fbi_lsh b k) = ?bits"
    using False assms by (simp add: fbi_lsh_def fbi_ok_def Let_def)
  then show ?thesis
    using False fbi_ok_index [OF assms, of i] by (auto simp: fbi_bit_chunk chunk_bit_lsh_loop)
qed

lemma fbi_bit_set_bit:
  assumes "fbi_ok b"
  shows "fbi_bit (fbi_set_bit b j) i = (if i = j \<and> j < fbi_n b then 1 else fbi_bit b i)"
proof (cases "j < fbi_n b")
  case True
  have "j div 64 < length (fbi_bits b)"
    using fbi_ok_index [OF assms True] by (simp add: less_mult_imp_div_less mult.commute)
  moreover have "i = j \<longleftrightarrow> i div 64 = j div 64 \<and> i mod 64 = j mod 64"
    by (metis mult_div_mod_eq)
  ultimately show ?thesis
    using True by (auto simp: fbi_bit_chunk fbi_set_bit_def chunk_bit_def bit_simps nth_list_update)
next
  case False
  then show ?thesis
    by (auto simp: fbi_set_bit_def)
qed

section \<open>The trait as an interface\<close>

text \<open>
  How a receiver uses a detector: it asks \<^verbatim>\<open>check\<close>, authenticates the packet if the answer
  is yes, and calls \<^verbatim>\<open>accept\<close> when authentication succeeded. \<open>deliver\<close> runs that loop over
  packets given as a sequence number and whether they authenticate, and returns the sequence
  numbers delivered.
\<close>

fun deliver ::
  "('d \<Rightarrow> u64 \<Rightarrow> bool \<times> 'd) \<Rightarrow> ('d \<Rightarrow> 'd result) \<Rightarrow> 'd \<Rightarrow> (u64 \<times> bool) list \<Rightarrow> (u64 list \<times> 'd) result"
where
  "deliver chk acc d [] = Inr ([], d)"
| "deliver chk acc d ((s, auth) # ps) =
     (if fst (chk d s) \<and> auth
      then rbind (acc (snd (chk d s)))
             (\<lambda>d'. rbind (deliver chk acc d' ps) (\<lambda>(out, e). Inr (s # out, e)))
      else deliver chk acc (snd (chk d s)) ps)"

locale replay_detector =
  fixes chk :: "'d \<Rightarrow> u64 \<Rightarrow> bool \<times> 'd"
    and acc :: "'d \<Rightarrow> 'd result"
    and inv :: "'d \<Rightarrow> bool"
    and refused :: "'d \<Rightarrow> u64 \<Rightarrow> bool"
  assumes chk_inv: "inv d \<Longrightarrow> inv (snd (chk d s))"
    and chk_refused: "inv d \<Longrightarrow> refused d t \<Longrightarrow> refused (snd (chk d s)) t"
    and chk_sound: "inv d \<Longrightarrow> fst (chk d s) \<Longrightarrow> \<not> refused d s"
    and acc_returns: "inv d \<Longrightarrow> fst (chk d s) \<Longrightarrow>
      \<exists>d'. acc (snd (chk d s)) = Inr d' \<and> inv d' \<and> refused d' s \<and> (\<forall>t. refused d t \<longrightarrow> refused d' t)"
begin

lemma deliver_distinct:
  assumes "inv d"
  shows "\<exists>out d'. deliver chk acc d ps = Inr (out, d') \<and> inv d' \<and> distinct out \<and>
           (\<forall>t. refused d t \<longrightarrow> t \<notin> set out)"
  using assms
proof (induction ps arbitrary: d)
  case Nil
  then show ?case by simp
next
  case (Cons p ps)
  obtain s auth where p: "p = (s, auth)"
    by (cases p)
  show ?case
  proof (cases "fst (chk d s) \<and> auth")
    case True
    then obtain d' where d': "acc (snd (chk d s)) = Inr d'" "inv d'" "refused d' s"
        "\<forall>t. refused d t \<longrightarrow> refused d' t"
      using acc_returns [OF Cons.prems] by blast
    moreover obtain out e where "deliver chk acc d' ps = Inr (out, e)" "inv e" "distinct out"
        "\<forall>t. refused d' t \<longrightarrow> t \<notin> set out"
      using Cons.IH [OF d'(2)] by blast
    ultimately show ?thesis
      using True chk_sound [OF Cons.prems] by (auto simp: p)
  next
    case False
    obtain out e where "deliver chk acc (snd (chk d s)) ps = Inr (out, e)" "inv e" "distinct out"
        "\<forall>t. refused (snd (chk d s)) t \<longrightarrow> t \<notin> set out"
      using Cons.IH [OF chk_inv [OF Cons.prems]] by blast
    with False show ?thesis
      using chk_refused [OF Cons.prems] by (auto simp: p)
  qed
qed

end

section \<open>Windows\<close>

text \<open>
  What both detectors keep: the newest sequence number \<open>l\<close>, the bit set \<open>b\<close> of the window
  behind it and the window size \<open>w\<close>. \<open>win_refused\<close> says which numbers the window refuses,
  \<open>win_mark\<close> is what accepting a number does to the bit set.
\<close>

definition win_refused :: "nat \<Rightarrow> u64 \<Rightarrow> fixed_big_int \<Rightarrow> u64 \<Rightarrow> bool" where
  "win_refused w l b s \<longleftrightarrow>
     unat s \<le> unat l \<and> (w + unat s \<le> unat l \<or> fbi_bit b (unat l - unat s) \<noteq> 0)"

definition win_mark :: "fixed_big_int \<Rightarrow> u64 \<Rightarrow> u64 \<Rightarrow> fixed_big_int" where
  "win_mark b l s = fbi_set_bit (fbi_lsh b (unat s - unat l)) (unat l - unat s)"

lemma fbi_lsh_0 [simp]: "fbi_lsh b 0 = b"
  by (simp add: fbi_lsh_def)

lemma win_mark_ok [inv_intro]: "fbi_ok b \<Longrightarrow> fbi_ok (win_mark b l s)"
  by (simp add: win_mark_def inv_intro)

lemma fbi_n_win_mark [simp]: "fbi_n (win_mark b l s) = fbi_n b"
  by (simp add: win_mark_def)

lemma win_mark_bit:
  assumes "fbi_ok b" "i < fbi_n b"
  shows "fbi_bit (win_mark b l s) i \<noteq> 0 \<longleftrightarrow>
     i = unat l - unat s \<or> unat s - unat l \<le> i \<and> fbi_bit b (i - (unat s - unat l)) \<noteq> 0"
  using assms by (auto simp: win_mark_def fbi_bit_set_bit fbi_bit_lsh fbi_lsh_ok)

text \<open>
  Accepting \<open>s\<close> refuses \<open>s\<close>, everything that was refused before, and everything at least a
  window behind \<open>s\<close>, and nothing else.
\<close>

lemma win_mark_refused:
  assumes "fbi_ok b" "fbi_n b = w"
  shows "win_refused w (max l s) (win_mark b l s) u \<longleftrightarrow>
           u = s \<or> win_refused w l b u \<or> w + unat u \<le> unat s"
proof -
  have m: "unat (max l s) = max (unat l) (unat s)"
    by (auto simp: max_def word_le_nat_alt)
  show ?thesis
  proof (cases "unat u \<le> max (unat l) (unat s) \<and> max (unat l) (unat s) - unat u < w")
    case True
    then have u: "unat u \<le> max (unat l) (unat s)" and lt: "max (unat l) (unat s) - unat u < fbi_n b"
      using assms by auto
    have "max (unat l) (unat s) - unat u = unat l - unat s \<longleftrightarrow> u = s"
      using u by (auto simp: word_unat_eq_iff)
    moreover have "unat s - unat l \<le> max (unat l) (unat s) - unat u \<longleftrightarrow> unat u \<le> unat l"
      using u by auto
    moreover have "max (unat l) (unat s) - unat u - (unat s - unat l) = unat l - unat u"
      by auto
    ultimately have "fbi_bit (win_mark b l s) (max (unat l) (unat s) - unat u) \<noteq> 0 \<longleftrightarrow>
        u = s \<or> unat u \<le> unat l \<and> fbi_bit b (unat l - unat u) \<noteq> 0"
      unfolding win_mark_bit [OF assms(1) lt] by simp
    moreover have "\<not> w + unat u \<le> unat l" "\<not> w + unat u \<le> unat s"
        "\<not> w + unat u \<le> max (unat l) (unat s)"
      using True by auto
    ultimately show ?thesis
      using u by (simp add: win_refused_def m)
  next
    case False
    then show ?thesis
      by (auto simp: win_refused_def m)
  qed
qed

section \<open>The sliding window detector keeps the contract\<close>

text \<open>
  The invariant: the window is a multiple of 64 that is no larger than the sequence number
  space, and \<^verbatim>\<open>window_size as u64 + seq\<close> does not overflow. The default window of DTLS is 64
  over a 48-bit space.
\<close>

definition sw_inv :: "detector \<Rightarrow> bool" where
  "sw_inv d \<longleftrightarrow>
     fbi_ok (rd_mask d) \<and> fbi_n (rd_mask d) = rd_window_size d \<and>
     rd_latest_seq d \<le> rd_max_seq d \<and> rd_window_size d \<le> unat (rd_max_seq d) \<and>
     rd_max_seq d \<noteq> 0 \<and> unat (rd_max_seq d) + rd_window_size d < 2 ^ 64"

definition sw_refused :: "detector \<Rightarrow> u64 \<Rightarrow> bool" where
  "sw_refused d = win_refused (rd_window_size d) (rd_latest_seq d) (rd_mask d)"

lemma sw_new_inv [inv_intro]:
  "64 dvd w \<Longrightarrow> w \<le> unat mx \<Longrightarrow> mx \<noteq> 0 \<Longrightarrow> unat mx + w < 2 ^ 64 \<Longrightarrow> sw_inv (sw_new w mx)"
  by (simp add: sw_inv_def sw_new_def fbi_ok_new)

lemma sw_check_fst:
  assumes "sw_inv d"
  shows "fst (sw_check d s) \<longleftrightarrow> s \<le> rd_max_seq d \<and> \<not> sw_refused d s"
proof -
  have "of_nat (rd_window_size d) + s \<le> rd_latest_seq d \<longleftrightarrow>
      rd_window_size d + unat s \<le> unat (rd_latest_seq d)" if "s \<le> rd_latest_seq d"
  proof -
    have "unat s \<le> unat (rd_max_seq d)" "unat (rd_max_seq d) + rd_window_size d < 2 ^ 64"
      using that assms by (auto simp: sw_inv_def word_le_nat_alt)
    then have "unat (of_nat (rd_window_size d) + s) = rd_window_size d + unat s"
      by (simp add: unat_word_ariths unat_of_nat)
    then show ?thesis
      by (simp add: word_le_nat_alt)
  qed
  moreover have "unat (rd_latest_seq d - s) = unat (rd_latest_seq d) - unat s" if "s \<le> rd_latest_seq d"
    using that by (simp add: unat_sub word_le_nat_alt)
  ultimately show ?thesis
    using assms
    by (auto simp: sw_check_def sw_refused_def win_refused_def Let_def word_le_nat_alt word_less_nat_alt)
qed

lemma sw_check_snd:
  "snd (sw_check d s) =
     (if fst (sw_check d s) then d\<lparr>rd_accepted := True, rd_seq := s\<rparr> else d\<lparr>rd_accepted := False\<rparr>)"
  by (simp add: sw_check_def Let_def)

lemma sw_accept_result:
  assumes inv: "sw_inv d" and ok: "fst (sw_check d s)"
  shows "sw_accept (snd (sw_check d s)) =
     Inr (d\<lparr>rd_accepted := True, rd_seq := s, rd_latest_seq := max (rd_latest_seq d) s,
            rd_mask := win_mark (rd_mask d) (rd_latest_seq d) s\<rparr>)"
proof (cases "rd_latest_seq d < s")
  case True
  then have "unat (s - rd_latest_seq d) = unat s - unat (rd_latest_seq d)"
      "unat (rd_latest_seq d) - unat s = 0"
    by (simp_all add: unat_sub less_imp_le word_less_nat_alt)
  with True show ?thesis
    using inv ok by (simp add: sw_accept_def sw_check_snd Let_def sw_inv_def win_mark_def max_def)
next
  case False
  have "\<not> sw_refused d s"
    using assms sw_check_fst by blast
  then have "unat (rd_latest_seq d) - unat s < rd_window_size d"
    using False by (auto simp: sw_refused_def win_refused_def word_less_nat_alt)
  then have "unat ((rd_latest_seq d - s) mod rd_max_seq d) = unat (rd_latest_seq d) - unat s"
    using False inv by (simp add: unat_mod_distrib unat_sub not_less sw_inv_def word_le_nat_alt)
  moreover have "max (rd_latest_seq d) s = rd_latest_seq d" "unat s - unat (rd_latest_seq d) = 0"
    using False by (simp_all add: max_def word_le_nat_alt word_less_nat_alt word_unat_eq_iff)
  ultimately show ?thesis
    using False inv ok by (simp add: sw_accept_def sw_check_snd Let_def sw_inv_def win_mark_def)
qed

text \<open>What a positive check followed by \<^verbatim>\<open>accept\<close> does to the refused numbers.\<close>

lemma sw_accept_refused:
  assumes inv: "sw_inv d" and ok: "fst (sw_check d s)"
  shows "\<exists>d'. sw_accept (snd (sw_check d s)) = Inr d' \<and> sw_inv d' \<and>
      rd_window_size d' = rd_window_size d \<and> rd_max_seq d' = rd_max_seq d \<and>
      (\<forall>u. sw_refused d' u \<longleftrightarrow> u = s \<or> sw_refused d u \<or> rd_window_size d + unat u \<le> unat s)"
proof -
  have "s \<le> rd_max_seq d"
    using assms sw_check_fst by blast
  then show ?thesis
    using inv win_mark_refused [of "rd_mask d" "rd_window_size d" "rd_latest_seq d" s]
    by (auto simp: sw_accept_result [OF assms] sw_inv_def sw_refused_def inv_intro)
qed

interpretation sw: replay_detector sw_check sw_accept sw_inv sw_refused
proof
  fix d s t
  assume inv: "sw_inv d"
  show "sw_inv (snd (sw_check d s))"
    using inv by (simp add: sw_check_snd sw_inv_def)
  show "sw_refused d t \<Longrightarrow> sw_refused (snd (sw_check d s)) t"
    by (simp add: sw_check_snd sw_refused_def)
  show "fst (sw_check d s) \<Longrightarrow> \<not> sw_refused d s"
    using inv sw_check_fst by blast
  show "fst (sw_check d s) \<Longrightarrow> \<exists>d'. sw_accept (snd (sw_check d s)) = Inr d' \<and> sw_inv d' \<and>
      sw_refused d' s \<and> (\<forall>t. sw_refused d t \<longrightarrow> sw_refused d' t)"
    using sw_accept_refused [OF inv] by blast
qed

text \<open>The refused numbers after a run, from the delivered ones alone.\<close>

lemma sw_deliver_refused:
  assumes "sw_inv d" "\<And>u. sw_refused d u \<longleftrightarrow> u \<in> S \<or> (\<exists>t \<in> S. unat u + rd_window_size d \<le> unat t)"
    and "deliver sw_check sw_accept d ps = Inr (out, e)"
  shows "sw_inv e \<and> rd_max_seq e = rd_max_seq d \<and>
    (sw_refused e u \<longleftrightarrow>
       u \<in> S \<union> set out \<or> (\<exists>t \<in> S \<union> set out. unat u + rd_window_size d \<le> unat t))"
  using assms
proof (induction ps arbitrary: d S out)
  case Nil
  then show ?case by simp
next
  case (Cons p ps)
  obtain s auth where p: "p = (s, auth)"
    by (cases p)
  show ?case
  proof (cases "fst (sw_check d s) \<and> auth")
    case True
    then obtain d' where d': "sw_accept (snd (sw_check d s)) = Inr d'" "sw_inv d'"
        "rd_window_size d' = rd_window_size d" "rd_max_seq d' = rd_max_seq d"
        "\<And>u. sw_refused d' u \<longleftrightarrow> u = s \<or> sw_refused d u \<or> rd_window_size d + unat u \<le> unat s"
      using sw_accept_refused [OF Cons.prems(1)] by blast
    with True Cons.prems(3) obtain out' where out: "deliver sw_check sw_accept d' ps = Inr (out', e)"
        "out = s # out'"
      by (auto simp: p rbind_eq_Inr)
    have "\<And>u. sw_refused d' u \<longleftrightarrow>
        u \<in> insert s S \<or> (\<exists>t \<in> insert s S. unat u + rd_window_size d' \<le> unat t)"
      using d'(3,5) Cons.prems(2) by (auto simp: add.commute)
    from Cons.IH [OF d'(2) this out(1)] show ?thesis
      using d'(3,4) out(2) by auto
  next
    case False
    let ?d = "snd (sw_check d s)"
    have "sw_refused ?d = sw_refused d" "rd_window_size ?d = rd_window_size d"
        "rd_max_seq ?d = rd_max_seq d"
      by (simp_all add: sw_check_snd sw_refused_def)
    with False show ?thesis
      using Cons.IH [OF sw.chk_inv [OF Cons.prems(1)], of s S out] Cons.prems(2,3) by (auto simp: p)
  qed
qed

lemma unat_less_uint: "unat (w :: u64) < n \<longleftrightarrow> uint w < int n"
  by (metis of_nat_less_iff of_nat_unat)

lemma sint_small:
  assumes "unat (w :: u64) < 2 ^ 63"
  shows "sint w = uint w"
proof -
  have "signed_take_bit 63 (uint w) = uint w"
    using assms order_trans [OF _ uint_ge_0, of "- (2 ^ 63)" w]
    by (intro signed_take_bit_int_eq_self) (simp_all add: unat_less_uint)
  then show ?thesis by (simp add: sint_uint)
qed

lemma sint_diff_small:
  assumes "unat (a :: u64) < 2 ^ 62" "unat b < 2 ^ 62"
  shows "sint (a - b) = uint a - uint b"
proof -
  have "signed_take_bit 63 (uint a - uint b) = uint a - uint b"
    using assms diff_mono [OF uint_ge_0 [of a] less_imp_le, of "uint b" "2 ^ 62"]
      diff_mono [OF less_imp_le uint_ge_0 [of b], of "uint a" "2 ^ 62"]
    by (intro signed_take_bit_int_eq_self) (simp_all add: unat_less_uint)
  then show ?thesis using assms by (simp add: sint_word_ariths sint_small)
qed

text \<open>Within half of the number space the wrapped difference is the difference.\<close>

lemma wrap_diff_near:
  assumes "unat mx < 2 ^ 62" "l \<le> mx" "s \<le> mx" "2 * \<bar>uint l - uint s\<bar> + 2 < uint mx"
  shows "sint (wrap_diff mx l s) = uint l - uint s"
proof -
  have lt: "unat l < 2 ^ 62" "unat s < 2 ^ 62"
    using assms(1-3) by (auto simp: word_le_nat_alt)
  have half: "i64_half mx = uint mx div 2"
    using assms(1) by (simp add: i64_half_def sint_small)
  have "uint l - uint s \<le> i64_half mx"
    unfolding half using assms(4) by arith
  moreover have "- i64_half mx < uint l - uint s"
    unfolding half using assms(4) by arith
  ultimately show ?thesis
    using lt by (simp add: wrap_diff_def Let_def sint_diff_small)
qed

section \<open>The wrapped detector away from the wrap\<close>

text \<open>
  As long as all sequence numbers of a stream lie in a range \<open>lo..hi\<close> that is shorter than
  half of the number space and does not contain 0, \<^verbatim>\<open>diff\<close> is the plain difference and the
  wrapped detector keeps the contract too. \<open>ranged\<close> restricts a detector to such a range.
\<close>

definition ranged :: "u64 \<Rightarrow> u64 \<Rightarrow> ('d \<Rightarrow> u64 \<Rightarrow> bool \<times> 'd) \<Rightarrow> 'd \<Rightarrow> u64 \<Rightarrow> bool \<times> 'd" where
  "ranged lo hi chk d s = (if lo \<le> s \<and> s \<le> hi then chk d s else (False, d))"

definition wsw_inv :: "u64 \<Rightarrow> u64 \<Rightarrow> wrapped_detector \<Rightarrow> bool" where
  "wsw_inv lo hi d \<longleftrightarrow>
     fbi_ok (rd_mask d) \<and> fbi_n (rd_mask d) = rd_window_size d \<and>
     unat (rd_max_seq d) < 2 ^ 62 \<and> hi \<le> rd_max_seq d \<and> 0 < lo \<and> lo \<le> hi \<and>
     2 * (uint hi - uint lo) + 4 < uint (rd_max_seq d) \<and>
     (rd_init d \<longrightarrow> uint lo \<le> uint (rd_latest_seq d) + 1 \<and> rd_latest_seq d \<le> hi)"

definition wsw_refused :: "wrapped_detector \<Rightarrow> u64 \<Rightarrow> bool" where
  "wsw_refused d s \<longleftrightarrow> rd_init d \<and> win_refused (rd_window_size d) (rd_latest_seq d) (rd_mask d) s"

text \<open>The state in which \<^verbatim>\<open>check\<close> makes its decision: initialised on the first call.\<close>

definition wsw_start :: "wrapped_detector \<Rightarrow> u64 \<Rightarrow> wrapped_detector" where
  "wsw_start d s =
     (let d = d\<lparr>rd_accepted := False\<rparr> in
      if rd_init d then d
      else d\<lparr>rd_latest_seq := (if s \<noteq> 0 then s - 1 else rd_max_seq d), rd_init := True\<rparr>)"

lemma wsw_start_fields [simp]:
  "rd_init (wsw_start d s)" "rd_mask (wsw_start d s) = rd_mask d"
  "rd_window_size (wsw_start d s) = rd_window_size d" "rd_max_seq (wsw_start d s) = rd_max_seq d"
  "rd_init d \<Longrightarrow> rd_latest_seq (wsw_start d s) = rd_latest_seq d"
  by (simp_all add: wsw_start_def Let_def)

lemma wsw_start_inv [inv_intro]:
  assumes "wsw_inv lo hi d" "lo \<le> s" "s \<le> hi"
  shows "wsw_inv lo hi (wsw_start d s)"
proof (cases "rd_init d")
  case True
  then show ?thesis
    using assms by (simp add: wsw_inv_def)
next
  case False
  have "s \<noteq> 0"
    using assms by (auto simp: wsw_inv_def)
  then have "uint (s - 1) = uint s - 1"
    unfolding uint_nat using unat_minus_one [of s] unat_gt_0 [of s] by linarith
  then show ?thesis
    using assms False \<open>s \<noteq> 0\<close> by (auto simp: wsw_inv_def wsw_start_def Let_def word_le_def)
qed

lemma wsw_near:
  assumes "wsw_inv lo hi d" "rd_init d" "lo \<le> s" "s \<le> hi"
  shows "sint (wrap_diff (rd_max_seq d) (rd_latest_seq d) s) = uint (rd_latest_seq d) - uint s"
proof (rule wrap_diff_near)
  have b: "uint lo \<le> uint (rd_latest_seq d) + 1" "uint (rd_latest_seq d) \<le> uint hi"
      "uint lo \<le> uint s" "uint s \<le> uint hi" "uint lo \<le> uint hi"
      "2 * (uint hi - uint lo) + 4 < uint (rd_max_seq d)"
    using assms by (simp_all add: wsw_inv_def word_le_def)
  then show "2 * \<bar>uint (rd_latest_seq d) - uint s\<bar> + 2 < uint (rd_max_seq d)"
    by arith
qed (use assms in \<open>auto simp: wsw_inv_def\<close>)

lemma uint_diff_conv:
  fixes l s :: u64
  shows "nat (uint l - uint s) = unat l - unat s"
    and "int w \<le> uint l - uint s \<longleftrightarrow> w + unat s \<le> unat l"
    and "uint s \<le> uint l \<longleftrightarrow> unat s \<le> unat l"
  unfolding uint_nat by linarith+

lemma wsw_check_start:
  "wsw_check d s =
     (if rd_max_seq d < s then (False, d\<lparr>rd_accepted := False\<rparr>)
      else
        let e = wsw_start d s; diff = sint (wrap_diff (rd_max_seq e) (rd_latest_seq e) s)
        in if int (rd_window_size e) \<le> diff \<or> 0 \<le> diff \<and> fbi_bit (rd_mask e) (nat diff) \<noteq> 0
           then (False, e) else (True, e\<lparr>rd_accepted := True, rd_seq := s\<rparr>))"
  by (auto simp: wsw_check_def wsw_start_def Let_def)

lemma wsw_check_eq:
  assumes inv: "wsw_inv lo hi d" and s: "lo \<le> s" "s \<le> hi"
  shows "wsw_check d s =
     (if wsw_refused (wsw_start d s) s then (False, wsw_start d s)
      else (True, (wsw_start d s)\<lparr>rd_accepted := True, rd_seq := s\<rparr>))"
proof -
  let ?e = "wsw_start d s"
  have "\<not> rd_max_seq d < s"
    using inv s by (auto simp: wsw_inv_def)
  moreover have "sint (wrap_diff (rd_max_seq ?e) (rd_latest_seq ?e) s) = uint (rd_latest_seq ?e) - uint s"
    using wsw_near [OF wsw_start_inv [OF assms] _ s] by simp
  ultimately show ?thesis
    by (auto simp: wsw_check_start wsw_refused_def win_refused_def Let_def uint_diff_conv
        simp del: wsw_start_fields(4))
qed

lemma wsw_accept_near:
  assumes "rd_accepted e"
    and near: "sint (wrap_diff (rd_max_seq e) (rd_latest_seq e) (rd_seq e)) =
      uint (rd_latest_seq e) - uint (rd_seq e)"
    and fresh: "\<not> int (rd_window_size e) \<le> uint (rd_latest_seq e) - uint (rd_seq e)"
  shows "wsw_accept e =
     Inr (e\<lparr>rd_latest_seq := max (rd_latest_seq e) (rd_seq e),
            rd_mask := win_mark (rd_mask e) (rd_latest_seq e) (rd_seq e)\<rparr>)"
proof (cases "rd_latest_seq e < rd_seq e")
  case True
  then have "nat (- (uint (rd_latest_seq e) - uint (rd_seq e))) = unat (rd_seq e) - unat (rd_latest_seq e)"
      "unat (rd_latest_seq e) - unat (rd_seq e) = 0" "max (rd_latest_seq e) (rd_seq e) = rd_seq e"
      "uint (rd_latest_seq e) - uint (rd_seq e) < 0"
    using uint_diff_conv(1) [of "rd_seq e" "rd_latest_seq e"]
    by (simp_all add: word_less_nat_alt max_def less_imp_le word_less_def [symmetric])
  with assms show ?thesis
    unfolding wsw_accept_def Let_def win_mark_def near by simp
next
  case False
  then have "unat (rd_latest_seq e - rd_seq e) = unat (rd_latest_seq e) - unat (rd_seq e)"
      "unat (rd_seq e) - unat (rd_latest_seq e) = 0" "max (rd_latest_seq e) (rd_seq e) = rd_latest_seq e"
      "\<not> uint (rd_latest_seq e) - uint (rd_seq e) < 0"
    by (simp_all add: unat_sub not_less max_def word_le_nat_alt word_unat_eq_iff word_less_def [symmetric])
  with assms show ?thesis
    unfolding wsw_accept_def Let_def win_mark_def near by simp
qed

lemma wsw_accept_result:
  assumes inv: "wsw_inv lo hi d" and s: "lo \<le> s" "s \<le> hi" and ok: "fst (wsw_check d s)"
  shows "wsw_accept (snd (wsw_check d s)) =
     Inr ((wsw_start d s)
            \<lparr>rd_accepted := True, rd_seq := s, rd_latest_seq := max (rd_latest_seq (wsw_start d s)) s,
             rd_mask := win_mark (rd_mask d) (rd_latest_seq (wsw_start d s)) s\<rparr>)"
proof -
  define e where "e = (wsw_start d s)\<lparr>rd_accepted := True, rd_seq := s\<rparr>"
  have chk: "snd (wsw_check d s) = e" "\<not> wsw_refused (wsw_start d s) s"
    using ok by (auto simp: wsw_check_eq [OF inv s] e_def split: if_splits)
  have "sint (wrap_diff (rd_max_seq e) (rd_latest_seq e) (rd_seq e)) =
      uint (rd_latest_seq e) - uint (rd_seq e)"
    using wsw_near [OF wsw_start_inv [OF inv s] _ s] by (simp add: e_def)
  moreover have "\<not> int (rd_window_size e) \<le> uint (rd_latest_seq e) - uint (rd_seq e)"
    using chk(2) by (auto simp: wsw_refused_def win_refused_def uint_diff_conv e_def)
  moreover have "rd_accepted e"
    by (simp add: e_def)
  ultimately show ?thesis
    unfolding chk(1) by (subst wsw_accept_near) (simp_all add: e_def)
qed

lemma wsw_accept_refused:
  assumes inv: "wsw_inv lo hi d" and s: "lo \<le> s" "s \<le> hi" and ok: "fst (wsw_check d s)"
  shows "\<exists>d'. wsw_accept (snd (wsw_check d s)) = Inr d' \<and> wsw_inv lo hi d' \<and> wsw_refused d' s \<and>
           (\<forall>u. wsw_refused d u \<longrightarrow> wsw_refused d' u)"
proof -
  let ?l = "rd_latest_seq (wsw_start d s)"
  have b: "fbi_ok (rd_mask d)" "fbi_n (rd_mask d) = rd_window_size d"
    using inv by (auto simp: wsw_inv_def)
  have "uint lo \<le> uint (max ?l s) + 1" "max ?l s \<le> hi"
    using s wsw_start_inv [OF inv s] by (auto simp: wsw_inv_def max_def word_le_def)
  then show ?thesis
    using inv win_mark_refused [OF b, of ?l s]
    by (auto simp: wsw_accept_result [OF assms] wsw_inv_def wsw_refused_def inv_intro)
qed

interpretation wsw: replay_detector "ranged lo hi wsw_check" wsw_accept "wsw_inv lo hi" wsw_refused
  for lo hi
proof
  fix d s t
  assume inv: "wsw_inv lo hi d"
  show "wsw_inv lo hi (snd (ranged lo hi wsw_check d s))"
    using inv wsw_start_inv [OF inv, of s]
    by (auto simp: ranged_def wsw_check_eq [OF inv]) (auto simp: wsw_inv_def)
  show "wsw_refused d t \<Longrightarrow> wsw_refused (snd (ranged lo hi wsw_check d s)) t"
    by (auto simp: ranged_def wsw_check_eq [OF inv] wsw_refused_def)
  show "fst (ranged lo hi wsw_check d s) \<Longrightarrow> \<not> wsw_refused d s"
    by (auto simp: ranged_def wsw_check_eq [OF inv] wsw_refused_def split: if_splits)
  show "fst (ranged lo hi wsw_check d s) \<Longrightarrow>
      \<exists>d'. wsw_accept (snd (ranged lo hi wsw_check d s)) = Inr d' \<and> wsw_inv lo hi d' \<and>
        wsw_refused d' s \<and> (\<forall>t. wsw_refused d t \<longrightarrow> wsw_refused d' t)"
    using wsw_accept_refused [OF inv, of s] by (auto simp: ranged_def split: if_splits)
qed

lemma deliver_ranged:
  "list_all (\<lambda>(s, a). lo \<le> s \<and> s \<le> hi) ps \<Longrightarrow>
   deliver (ranged lo hi chk) acc d ps = deliver chk acc d ps"
proof (induction ps arbitrary: d)
  case (Cons p ps)
  obtain s a where p: "p = (s, a)"
    by (cases p)
  have "ranged lo hi chk d s = chk d s"
    using Cons.prems by (simp add: p ranged_def)
  then show ?case
    using Cons by (simp add: p)
qed simp

section \<open>Properties\<close>

text \<open>
  C21. The sliding window detector never lets a sequence number through twice: for a window
  that is a multiple of 64, any sequence of packets, replayed and forged ones included, is
  processed without a panic and the delivered sequence numbers are pairwise distinct.
\<close>

theorem sw_no_replay:
  assumes "64 dvd w" "w \<le> unat mx" "mx \<noteq> 0" "unat mx + w < 2 ^ 64"
  shows "\<exists>out d. deliver sw_check sw_accept (sw_new w mx) ps = Inr (out, d) \<and> distinct out"
  using sw.deliver_distinct [OF sw_new_inv [OF assms]] by blast

theorem sw_no_replay_witness:
  "\<exists>out d. deliver sw_check sw_accept (sw_new 64 281474976710655) [(1, True), (1, True)] = Inr (out, d) \<and>
     distinct out"
  by (rule sw_no_replay) simp_all





lemma replicate_2: "replicate 2 x = [x, x]"
  by (simp add: numeral_2_eq_2)

lemmas detector_eval = sw_check_def sw_accept_def wsw_check_def wsw_accept_def wrap_diff_def
  i64_half_def fbi_lsh_def lsh_step_def fbi_bit_def fbi_set_bit_def replicate_2 Let_def
  word_le_nat_alt word_less_nat_alt





end
