(* ===== verification/Sctp_Util.thy ===== *)
theory Sctp_Util
  imports Rtc_Prelude
begin

unbundle bit_operations_syntax

text \<open>
  \<^verbatim>\<open>rtc-sctp/src/util.rs\<close>: the serial number arithmetic of RFC 1982 at 32 bits (TSNs) and
  16 bits (stream sequence numbers), the padding of chunks to four bytes, the comparison of byte
  strings in constant time, and the two byte sources a stream write draws from. The four
  comparisons of each width interpret the locale \<open>serial_number\<close>.
\<close>

section \<open>Serial number arithmetic\<close>

text \<open>
  The \<^verbatim>\<open>sna32*\<close> and \<^verbatim>\<open>sna16*\<close> comparisons of \<^verbatim>\<open>util.rs\<close>, with the wrapping subtraction of
  the sources.
\<close>

definition sna32lt :: "u32 \<Rightarrow> u32 \<Rightarrow> bool" where
  "sna32lt i1 i2 \<longleftrightarrow> (i1 < i2 \<and> i2 - i1 < push_bit 31 1) \<or> (i1 > i2 \<and> i1 - i2 > push_bit 31 1)"

definition sna32lte :: "u32 \<Rightarrow> u32 \<Rightarrow> bool" where
  "sna32lte i1 i2 \<longleftrightarrow> i1 = i2 \<or> sna32lt i1 i2"

definition sna32gt :: "u32 \<Rightarrow> u32 \<Rightarrow> bool" where
  "sna32gt i1 i2 \<longleftrightarrow> (i1 < i2 \<and> i2 - i1 \<ge> push_bit 31 1) \<or> (i1 > i2 \<and> i1 - i2 \<le> push_bit 31 1)"

definition sna32gte :: "u32 \<Rightarrow> u32 \<Rightarrow> bool" where
  "sna32gte i1 i2 \<longleftrightarrow> i1 = i2 \<or> sna32gt i1 i2"

definition sna16lt :: "u16 \<Rightarrow> u16 \<Rightarrow> bool" where
  "sna16lt i1 i2 \<longleftrightarrow> (i1 < i2 \<and> i2 - i1 < push_bit 15 1) \<or> (i1 > i2 \<and> i1 - i2 > push_bit 15 1)"

definition sna16lte :: "u16 \<Rightarrow> u16 \<Rightarrow> bool" where
  "sna16lte i1 i2 \<longleftrightarrow> i1 = i2 \<or> sna16lt i1 i2"

definition sna16gt :: "u16 \<Rightarrow> u16 \<Rightarrow> bool" where
  "sna16gt i1 i2 \<longleftrightarrow> (i1 < i2 \<and> i2 - i1 \<ge> push_bit 15 1) \<or> (i1 > i2 \<and> i1 - i2 \<le> push_bit 15 1)"

definition sna16gte :: "u16 \<Rightarrow> u16 \<Rightarrow> bool" where
  "sna16gte i1 i2 \<longleftrightarrow> i1 = i2 \<or> sna16gt i1 i2"

text \<open>
  What the callers of these comparisons rely on: \<open>lt\<close> is decided by the forward distance modulo
  the word size, and the other three follow from it. The laws give the order inside every window
  of half the number space, wherever it starts.
\<close>

locale serial_number =
  fixes lt lte gt gte :: "'a::len word \<Rightarrow> 'a word \<Rightarrow> bool"
  assumes wide: "2 \<le> LENGTH('a)"
    and lt_dist: "lt a b \<longleftrightarrow> a \<noteq> b \<and> unat (b - a) < 2 ^ (LENGTH('a) - 1)"
    and lte_lt: "lte a b \<longleftrightarrow> a = b \<or> lt a b"
    and gt_lte: "gt a b \<longleftrightarrow> \<not> lte a b"
    and gte_gt: "gte a b \<longleftrightarrow> a = b \<or> gt a b"
begin

definition window :: "'a word \<Rightarrow> 'a word \<Rightarrow> bool" where
  "window base a \<longleftrightarrow> unat (a - base) < 2 ^ (LENGTH('a) - 1)"

lemma half: "2 ^ LENGTH('a) = 2 * (2 ^ (LENGTH('a) - 1) :: nat)"
  using wide by (cases "LENGTH('a)") simp_all

lemma lt_window:
  assumes "window base a" "window base b"
  shows "lt a b \<longleftrightarrow> unat (a - base) < unat (b - base)"
proof -
  have d: "b - a = (b - base) - (a - base)" by simp
  have "a \<noteq> b \<longleftrightarrow> unat (a - base) \<noteq> unat (b - base)"
    by (metis diff_add_cancel word_unat_eq_iff)
  moreover have "unat (b - a) = (if unat (a - base) \<le> unat (b - base) then unat (b - base) - unat (a - base)
      else unat (b - base) + 2 ^ LENGTH('a) - unat (a - base))"
    unfolding d by (rule unat_diff_wrap)
  ultimately show ?thesis
    using assms half by (auto simp: lt_dist window_def word_le_nat_alt)
qed

lemma lt_ranked: "\<forall>a \<in> A. window base a \<Longrightarrow> ranked lt (\<lambda>a. unat (a - base)) A"
  by (simp add: ranked_def lt_window)

lemma gt_window: "gt a c \<longleftrightarrow> window (c + 1) a"
proof -
  have "unat (a - (c + 1)) < 2 ^ (LENGTH('a) - 1) \<longleftrightarrow> a \<noteq> c \<and> \<not> unat (c - a) < 2 ^ (LENGTH('a) - 1)"
  proof (cases "a = c")
    case True
    then show ?thesis
      using wide half by (simp add: unat_minus)
  next
    case False
    then have "c - a \<noteq> 0" by simp
    have e: "a - (c + 1) = - (c - a) - 1" by simp
    have "unat (- (c - a)) = 2 ^ LENGTH('a) - unat (c - a)"
      using \<open>c - a \<noteq> 0\<close> by (rule unat_minus)
    moreover have "unat (- (c - a) - 1) = unat (- (c - a)) - 1"
      using \<open>c - a \<noteq> 0\<close> by (intro unat_minus_one) simp
    ultimately have "unat (a - (c + 1)) = 2 * 2 ^ (LENGTH('a) - 1) - unat (c - a) - 1"
      unfolding e half by simp
    moreover have "0 < unat (c - a)"
      using \<open>c - a \<noteq> 0\<close> by (simp add: unat_gt_0)
    moreover have "unat (c - a) < 2 * 2 ^ (LENGTH('a) - 1)"
      unfolding half [symmetric] by (rule unsigned_less)
    ultimately show ?thesis
      using False by linarith
  qed
  then show ?thesis
    by (auto simp: gt_lte lte_lt lt_dist window_def)
qed

lemma trichotomy: "(lt a b \<or> a = b \<or> gt a b) \<and> \<not> (lt a b \<and> a = b) \<and> \<not> (lt a b \<and> gt a b) \<and> \<not> (a = b \<and> gt a b)"
  by (auto simp: gt_lte lte_lt lt_dist)

lemma gt_flip: "window base a \<Longrightarrow> window base b \<Longrightarrow> gt a b \<longleftrightarrow> lt b a"
  using lt_window [of base a b] lt_window [of base b a]
  by (auto simp: gt_lte lte_lt word_unat_eq_iff [symmetric] not_less le_less)

lemma lt_asym: "lt a b \<Longrightarrow> \<not> lt b a"
proof -
  assume "lt a b"
  then have "a \<noteq> b" "unat (b - a) < 2 ^ (LENGTH('a) - 1)" by (auto simp: lt_dist)
  moreover have "unat (a - b) = 2 ^ LENGTH('a) - unat (b - a)"
    using unat_minus [of "b - a"] \<open>a \<noteq> b\<close> by simp
  ultimately show ?thesis using half by (auto simp: lt_dist)
qed

lemma lt_Suc: "lt a (a + 1)"
  using wide one_less_power [of "2::nat" "LENGTH('a) - 1"] by (simp add: lt_dist)

lemma lt_add: "lt (a + k) (b + k) \<longleftrightarrow> lt a b"
  by (simp add: lt_dist)
end

lemma sna_dist32:
  "sna32lt a b \<longleftrightarrow> a \<noteq> b \<and> unat (b - a) < 2 ^ 31"
  "sna32gt a b \<longleftrightarrow> \<not> sna32lte a b"
  by (auto simp: sna32lt_def sna32lte_def sna32gt_def word_less_nat_alt word_le_nat_alt
        unat_diff_wrap word_unat_eq_iff not_less)

lemma sna_dist16:
  "sna16lt a b \<longleftrightarrow> a \<noteq> b \<and> unat (b - a) < 2 ^ 15"
  "sna16gt a b \<longleftrightarrow> \<not> sna16lte a b"
  by (auto simp: sna16lt_def sna16lte_def sna16gt_def word_less_nat_alt word_le_nat_alt
        unat_diff_wrap word_unat_eq_iff not_less)

interpretation tsn: serial_number sna32lt sna32lte sna32gt sna32gte
  by unfold_locales (simp_all add: sna_dist32 sna32lte_def sna32gte_def)

interpretation ssn: serial_number sna16lt sna16lte sna16gt sna16gte
  by unfold_locales (simp_all add: sna_dist16 sna16lte_def sna16gte_def)

section \<open>Byte strings\<close>

definition constant_time_ne :: "bytes \<Rightarrow> bytes \<Rightarrow> u8 result" where
  "constant_time_ne a b =
     (if length a \<noteq> length b then Inl Panic
      else Inr (foldl (\<lambda>tmp i. tmp OR (a ! i XOR b ! i)) 0 [0..<length a]))"

definition constant_time_eq :: "bytes \<Rightarrow> bytes \<Rightarrow> bool" where
  "constant_time_eq a b \<longleftrightarrow> length a = length b \<and> constant_time_ne a b = Inr 0"

definition get_padding_size :: "nat \<Rightarrow> nat" where
  "get_padding_size len = (4 - len mod 4) mod 4"

lemma xor_eq_0: "a XOR b = 0 \<longleftrightarrow> a = (b :: 'a::len word)"
  by (metis bit.xor_left_self bit.xor_self xor.right_neutral)

lemma foldl_or_eq_0:
  "foldl (\<lambda>tmp i. tmp OR f i) t is = (0 :: 'a::len word) \<longleftrightarrow> t = 0 \<and> (\<forall>i \<in> set is. f i = 0)"
  by (induction "is" arbitrary: t) (auto simp: or_eq_0_iff)

lemma padding_total: "4 dvd len + get_padding_size len" "get_padding_size len < 4"
proof -
  obtain q r where l: "len = 4 * q + r" "r < 4"
    by (metis mod_less_divisor mult_div_mod_eq zero_less_numeral)
  then have "len + get_padding_size len = (if r = 0 then 4 * q else 4 * Suc q)"
    by (auto simp: get_padding_size_def)
  then show "4 dvd len + get_padding_size len"
    by (metis dvd_triv_left)
  show "get_padding_size len < 4"
    by (simp add: get_padding_size_def)
qed

record bytes_array =
  ba_chunks :: "bytes list"
  ba_consumed :: nat
  ba_length :: nat

definition from_chunks :: "bytes list \<Rightarrow> bytes_array" where
  "from_chunks cs = \<lparr>ba_chunks = cs, ba_consumed = 0, ba_length = sum_list (map length cs)\<rparr>"

function ba_pop_loop :: "nat \<Rightarrow> bytes_array \<Rightarrow> nat \<Rightarrow> (bytes \<times> nat) \<times> bytes_array" where
  "ba_pop_loop limit s n =
     (if ba_consumed s < length (ba_chunks s) then
        let i = ba_consumed s; chunk = ba_chunks s ! i in
        if length chunk \<le> limit then
          let s = s\<lparr>ba_chunks := (ba_chunks s)[i := []], ba_consumed := Suc i\<rparr> in
          if chunk = [] then ba_pop_loop limit s (Suc n) else ((chunk, Suc n), s)
        else if 0 < limit then
          ((take limit chunk, n), s\<lparr>ba_chunks := (ba_chunks s)[i := drop limit chunk]\<rparr>)
        else (([], n), s)
      else (([], n), s))"
  by pat_completeness auto
termination
  by (relation "measure (\<lambda>(limit, s, n). length (ba_chunks s) - ba_consumed s)") auto

declare ba_pop_loop.simps [simp del]

definition ba_pop_chunk :: "nat \<Rightarrow> bytes_array \<Rightarrow> (bytes \<times> nat) \<times> bytes_array" where
  "ba_pop_chunk limit s = ba_pop_loop limit s 0"

definition ba_has_remaining :: "bytes_array \<Rightarrow> bool" where
  "ba_has_remaining s \<longleftrightarrow> ba_consumed s < ba_length s"

definition ba_remaining :: "bytes_array \<Rightarrow> nat" where
  "ba_remaining s = ba_length s - ba_consumed s"

definition bs_pop_chunk :: "nat \<Rightarrow> bytes \<Rightarrow> (bytes \<times> nat) \<times> bytes" where
  "bs_pop_chunk limit data =
     (let limit = min limit (length data) in
      if limit = 0 then (([], 0), data)
      else
        let chunk = take limit data; data = drop (length chunk) data in
        ((chunk, if data = [] then 1 else 0), data))"

lemma bs_pop_chunk_split:
  "bs_pop_chunk limit data = ((p, n), rest) \<Longrightarrow> data = p @ rest \<and> length p = min limit (length data)"
  by (auto simp: bs_pop_chunk_def Let_def min_def split: if_splits)

text \<open>What is still to be written: the unconsumed chunks, as one byte string.\<close>

definition ba_left :: "bytes_array \<Rightarrow> bytes" where
  "ba_left s = concat (drop (ba_consumed s) (ba_chunks s))"

lemma ba_pop_loop_split:
  "ba_pop_loop limit s n = ((p, m), s') \<Longrightarrow>
     ba_left s = p @ ba_left s' \<and> length p \<le> limit \<and> ba_length s' = ba_length s"
proof (induction limit s n rule: ba_pop_loop.induct)
  case (1 limit s n)
  show ?case
  proof (cases "ba_consumed s < length (ba_chunks s)")
    case False
    then show ?thesis
      using "1.prems" by (simp add: ba_pop_loop.simps [of limit s n])
  next
    case True
    then have left: "ba_left s = ba_chunks s ! ba_consumed s @ concat (drop (Suc (ba_consumed s)) (ba_chunks s))"
      unfolding ba_left_def using Cons_nth_drop_Suc [OF True] by (metis concat.simps(2))
    show ?thesis
      using "1.prems" "1.IH" [OF True refl refl] True left
      by (subst (asm) ba_pop_loop.simps) (auto simp: Let_def ba_left_def drop_upd split: if_splits)
  qed
qed

section \<open>Properties\<close>

text \<open>
  C30. Serial number arithmetic orders any window of half the number space the way the distance
  from the start of the window does, also where the window crosses the wrap-around; the 16-bit
  and the 32-bit comparisons agree on this.
\<close>

theorem sna_window_order:
  fixes base a b :: u32 and base' s t :: u16
  assumes "unat (a - base) < 2 ^ 31" "unat (b - base) < 2 ^ 31"
    and "unat (s - base') < 2 ^ 15" "unat (t - base') < 2 ^ 15"
  shows "(sna32lt a b \<longleftrightarrow> unat (a - base) < unat (b - base)) \<and>
         (sna32gt a b \<longleftrightarrow> unat (b - base) < unat (a - base)) \<and>
         (sna16lt s t \<longleftrightarrow> unat (s - base') < unat (t - base')) \<and>
         (sna16gt s t \<longleftrightarrow> unat (t - base') < unat (s - base'))"
proof -
  have w: "tsn.window base a" "tsn.window base b" "ssn.window base' s" "ssn.window base' t"
    using assms by (simp_all add: tsn.window_def ssn.window_def)
  show ?thesis
    using w by (simp add: tsn.lt_window ssn.lt_window tsn.gt_flip ssn.gt_flip)
qed

theorem sna_window_order_witness:
  "sna32lt 4294967295 1 \<and> sna16lt 65535 1"
  using sna_window_order [of 4294967295 4294967295 1 65535 65535 1] by simp

text \<open>
   The constant-time comparison is equality: whatever the two byte strings, it runs without
  hitting the length assertion and returns whether they are the same.
\<close>

theorem constant_time_eq_iff: "constant_time_eq a b \<longleftrightarrow> a = b"
  by (auto simp: constant_time_eq_def constant_time_ne_def foldl_or_eq_0 xor_eq_0 intro: nth_equalityI)

end
