(* ===== verification/Sctp_Params.thy ===== *)
theory Sctp_Params
  imports Sctp_Util
begin

unbundle bit_operations_syntax

text \<open>
  \<^verbatim>\<open>rtc-sctp/src/param\<close>: the type-length-value parameters of INIT, INIT ACK, HEARTBEAT and
  RE-CONFIG chunks. The trait \<^verbatim>\<open>Param\<close> is the locale \<open>tlv_codec\<close>; the structs that implement
  it are the constructors of \<open>param\<close>, and \<^verbatim>\<open>build_param\<close> dispatches on the type.
\<close>

section \<open>The codec contract\<close>

text \<open>
  What the readers of a sequence of type-length-value items rely on: an item occupies a header
  of four bytes and \<^verbatim>\<open>value_length\<close> bytes, and the decoder recovers it from a buffer in which
  other bytes follow, as far as \<open>ok\<close> allows these bytes.
\<close>

locale tlv_codec =
  fixes marshal :: "'a \<Rightarrow> bytes result"
    and unmarshal :: "bytes \<Rightarrow> 'a result"
    and value_length :: "'a \<Rightarrow> nat"
    and ok :: "'a \<Rightarrow> bytes \<Rightarrow> bool"
  assumes marshal_ok: "ok x t \<Longrightarrow> \<exists>bs. marshal x = Inr bs \<and> length bs = 4 + value_length x"
    and round_trip: "ok x t \<Longrightarrow> marshal x = Inr bs \<Longrightarrow> unmarshal (bs @ t) = Inr x"
begin

lemma prefix_free:
  assumes "ok x s" "ok y t" "marshal x = Inr bs" "marshal y = Inr cs" "bs @ s = cs @ t"
  shows "x = y"
  using round_trip [OF assms(1,3)] round_trip [OF assms(2,4)] assms(5) by simp

end

section \<open>Parameter types and headers\<close>

datatype param_type =
    HeartbeatInfo | Ipv4Addr | Ipv6Addr | StateCookie | UnrecognizedParam | CookiePreservative
  | HostNameAddr | SupportedAddrTypes | OutSsnResetReq | IncSsnResetReq | SsnTsnResetReq
  | ReconfigResp | AddOutStreamsReq | AddIncStreamsReq | Random | ChunkList | ReqHmacAlgo
  | Padding | SupportedExt | ForwardTsnSupp | AddIpAddr | DelIpaddr | ErrClauseInd
  | SetPriAddr | SuccessInd | AdaptLayerInd
  | UnknownType u16

definition param_type_table :: "(u16 \<times> param_type) list" where
  "param_type_table =
     [(1, HeartbeatInfo), (5, Ipv4Addr), (6, Ipv6Addr), (7, StateCookie), (8, UnrecognizedParam),
      (9, CookiePreservative), (11, HostNameAddr), (12, SupportedAddrTypes), (13, OutSsnResetReq),
      (14, IncSsnResetReq), (15, SsnTsnResetReq), (16, ReconfigResp), (17, AddOutStreamsReq),
      (18, AddIncStreamsReq), (32770, Random), (32771, ChunkList), (32772, ReqHmacAlgo),
      (32773, Padding), (32776, SupportedExt), (49152, ForwardTsnSupp), (49153, AddIpAddr),
      (49154, DelIpaddr), (49155, ErrClauseInd), (49156, SetPriAddr), (49157, SuccessInd)]"

definition param_type_of_u16 :: "u16 \<Rightarrow> param_type" where
  "param_type_of_u16 v =
     (case map_of param_type_table v of Some t \<Rightarrow> t | None \<Rightarrow> UnknownType v)"

primrec u16_of_param_type :: "param_type \<Rightarrow> u16" where
  "u16_of_param_type HeartbeatInfo = 1"
| "u16_of_param_type Ipv4Addr = 5"
| "u16_of_param_type Ipv6Addr = 6"
| "u16_of_param_type StateCookie = 7"
| "u16_of_param_type UnrecognizedParam = 8"
| "u16_of_param_type CookiePreservative = 9"
| "u16_of_param_type HostNameAddr = 11"
| "u16_of_param_type SupportedAddrTypes = 12"
| "u16_of_param_type OutSsnResetReq = 13"
| "u16_of_param_type IncSsnResetReq = 14"
| "u16_of_param_type SsnTsnResetReq = 15"
| "u16_of_param_type ReconfigResp = 16"
| "u16_of_param_type AddOutStreamsReq = 17"
| "u16_of_param_type AddIncStreamsReq = 18"
| "u16_of_param_type Random = 32770"
| "u16_of_param_type ChunkList = 32771"
| "u16_of_param_type ReqHmacAlgo = 32772"
| "u16_of_param_type Padding = 32773"
| "u16_of_param_type SupportedExt = 32776"
| "u16_of_param_type ForwardTsnSupp = 49152"
| "u16_of_param_type AddIpAddr = 49153"
| "u16_of_param_type DelIpaddr = 49154"
| "u16_of_param_type ErrClauseInd = 49155"
| "u16_of_param_type SetPriAddr = 49156"
| "u16_of_param_type SuccessInd = 49157"
| "u16_of_param_type AdaptLayerInd = 49158"
| "u16_of_param_type (UnknownType v) = v"

record param_header =
  ph_typ :: param_type
  ph_value_length :: u16

definition param_header_unmarshal :: "bytes \<Rightarrow> param_header result" where
  "param_header_unmarshal raw =
     (if length raw < 4 then Inl (Err ''ErrParamHeaderTooShort'')
      else
        rbind (get_u16 raw) (\<lambda>(t, reader).
        rbind (get_u16 reader) (\<lambda>(l, reader).
          let len = unat l in
          if len < 4 \<or> length raw < len then Inl (Err ''ErrParamHeaderTooShort'')
          else Inr \<lparr>ph_typ = param_type_of_u16 t, ph_value_length = of_nat (len - 4)\<rparr>)))"

definition param_header_marshal :: "param_header \<Rightarrow> bytes" where
  "param_header_marshal h =
     put_u16 (u16_of_param_type (ph_typ h)) @ put_u16 (ph_value_length h + 4)"

section \<open>The parameters\<close>

datatype hmac_algorithm = HmacResv1 | HmacSha128 | HmacResv2 | HmacSha256 | HmacUnknown

definition hmac_algorithm_of_u16 :: "u16 \<Rightarrow> hmac_algorithm" where
  "hmac_algorithm_of_u16 v =
     (if v = 0 then HmacResv1 else if v = 1 then HmacSha128 else if v = 2 then HmacResv2
      else if v = 3 then HmacSha256 else HmacUnknown)"

primrec u16_of_hmac_algorithm :: "hmac_algorithm \<Rightarrow> u16" where
  "u16_of_hmac_algorithm HmacResv1 = 0"
| "u16_of_hmac_algorithm HmacSha128 = 1"
| "u16_of_hmac_algorithm HmacResv2 = 2"
| "u16_of_hmac_algorithm HmacSha256 = 3"
| "u16_of_hmac_algorithm HmacUnknown = 4"

datatype reconfig_result =
    SuccessNop | SuccessPerformed | Denied | ErrorWrongSsn | ErrorRequestAlreadyInProgress
  | ErrorBadSequenceNumber | InProgress | ResultUnknown

definition reconfig_result_of_u32 :: "u32 \<Rightarrow> reconfig_result" where
  "reconfig_result_of_u32 v =
     (if v = 0 then SuccessNop else if v = 1 then SuccessPerformed else if v = 2 then Denied
      else if v = 3 then ErrorWrongSsn else if v = 4 then ErrorRequestAlreadyInProgress
      else if v = 5 then ErrorBadSequenceNumber else if v = 6 then InProgress
      else ResultUnknown)"

primrec u32_of_reconfig_result :: "reconfig_result \<Rightarrow> u32" where
  "u32_of_reconfig_result SuccessNop = 0"
| "u32_of_reconfig_result SuccessPerformed = 1"
| "u32_of_reconfig_result Denied = 2"
| "u32_of_reconfig_result ErrorWrongSsn = 3"
| "u32_of_reconfig_result ErrorRequestAlreadyInProgress = 4"
| "u32_of_reconfig_result ErrorBadSequenceNumber = 5"
| "u32_of_reconfig_result InProgress = 6"
| "u32_of_reconfig_result ResultUnknown = 7"

text \<open>
  One constructor per struct that implements \<^verbatim>\<open>Param\<close>, with the fields of the struct in order.
\<close>

datatype param =
    ParamForwardTsnSupported
  | ParamSupportedExtensions "u8 list"
  | ParamRandom bytes
  | ParamRequestedHmacAlgorithm "hmac_algorithm list"
  | ParamChunkList "u8 list"
  | ParamStateCookie bytes
  | ParamHeartbeatInfo bytes
  | ParamOutgoingResetRequest u32 u32 u32 "u16 list"
  | ParamReconfigResponse u32 reconfig_result
  | ParamUnknown u16 bytes

primrec param_value_length :: "param \<Rightarrow> nat" where
  "param_value_length ParamForwardTsnSupported = 0"
| "param_value_length (ParamSupportedExtensions cts) = length cts"
| "param_value_length (ParamRandom d) = length d"
| "param_value_length (ParamRequestedHmacAlgorithm as) = 2 * length as"
| "param_value_length (ParamChunkList cts) = length cts"
| "param_value_length (ParamStateCookie c) = length c"
| "param_value_length (ParamHeartbeatInfo i) = length i"
| "param_value_length (ParamOutgoingResetRequest q r l sids) = 12 + length sids * 2"
| "param_value_length (ParamReconfigResponse r res) = 8"
| "param_value_length (ParamUnknown t v) = length v"

primrec param_typ :: "param \<Rightarrow> param_type" where
  "param_typ ParamForwardTsnSupported = ForwardTsnSupp"
| "param_typ (ParamSupportedExtensions cts) = SupportedExt"
| "param_typ (ParamRandom d) = Random"
| "param_typ (ParamRequestedHmacAlgorithm as) = ReqHmacAlgo"
| "param_typ (ParamChunkList cts) = ChunkList"
| "param_typ (ParamStateCookie c) = StateCookie"
| "param_typ (ParamHeartbeatInfo i) = HeartbeatInfo"
| "param_typ (ParamOutgoingResetRequest q r l sids) = OutSsnResetReq"
| "param_typ (ParamReconfigResponse r res) = ReconfigResp"
| "param_typ (ParamUnknown t v) = UnknownType t"

definition param_header_of :: "param \<Rightarrow> param_header" where
  "param_header_of p =
     \<lparr>ph_typ = param_typ p, ph_value_length = of_nat (param_value_length p)\<rparr>"

primrec param_value :: "param \<Rightarrow> bytes" where
  "param_value ParamForwardTsnSupported = []"
| "param_value (ParamSupportedExtensions cts) = concat (map put_u8 cts)"
| "param_value (ParamRandom d) = d"
| "param_value (ParamRequestedHmacAlgorithm as) = concat (map (\<lambda>a. put_u16 (u16_of_hmac_algorithm a)) as)"
| "param_value (ParamChunkList cts) = concat (map put_u8 cts)"
| "param_value (ParamStateCookie c) = c"
| "param_value (ParamHeartbeatInfo i) = i"
| "param_value (ParamOutgoingResetRequest q r l sids) =
     put_u32 q @ put_u32 r @ put_u32 l @ concat (map put_u16 sids)"
| "param_value (ParamReconfigResponse r res) = put_u32 r @ put_u32 (u32_of_reconfig_result res)"
| "param_value (ParamUnknown t v) = v"

definition param_marshal :: "param \<Rightarrow> bytes" where
  "param_marshal p = param_header_marshal (param_header_of p) @ param_value p"

text \<open>The value of a parameter, as every decoder cuts it out of the buffer.\<close>

definition param_reader :: "bytes \<Rightarrow> (param_header \<Rightarrow> bytes \<Rightarrow> 'a result) \<Rightarrow> 'a result" where
  "param_reader raw f =
     rbind (param_header_unmarshal raw) (\<lambda>h.
     rbind (slice 4 (4 + unat (ph_value_length h)) raw) (\<lambda>value. f h value))"

definition forward_tsn_supported_unmarshal :: "bytes \<Rightarrow> param result" where
  "forward_tsn_supported_unmarshal raw =
     rbind (param_header_unmarshal raw) (\<lambda>h. Inr ParamForwardTsnSupported)"

definition supported_extensions_unmarshal :: "bytes \<Rightarrow> param result" where
  "supported_extensions_unmarshal raw =
     param_reader raw (\<lambda>h reader.
       rbind (get_many get_u8 (length reader) reader) (\<lambda>(cts, _). Inr (ParamSupportedExtensions cts)))"

definition chunk_list_unmarshal :: "bytes \<Rightarrow> param result" where
  "chunk_list_unmarshal raw =
     rbind (param_header_unmarshal raw) (\<lambda>h.
       if ph_typ h \<noteq> ChunkList then Inl (Err ''ErrParamTypeUnexpected'')
       else
         rbind (slice 4 (4 + unat (ph_value_length h)) raw) (\<lambda>reader.
         rbind (get_many get_u8 (length reader) reader) (\<lambda>(cts, _). Inr (ParamChunkList cts))))"

definition random_unmarshal :: "bytes \<Rightarrow> param result" where
  "random_unmarshal raw = param_reader raw (\<lambda>h value. Inr (ParamRandom value))"

definition state_cookie_unmarshal :: "bytes \<Rightarrow> param result" where
  "state_cookie_unmarshal raw = param_reader raw (\<lambda>h value. Inr (ParamStateCookie value))"

definition heartbeat_info_unmarshal :: "bytes \<Rightarrow> param result" where
  "heartbeat_info_unmarshal raw = param_reader raw (\<lambda>h value. Inr (ParamHeartbeatInfo value))"

definition unknown_unmarshal :: "bytes \<Rightarrow> param result" where
  "unknown_unmarshal raw =
     param_reader raw (\<lambda>h value. Inr (ParamUnknown (u16_of_param_type (ph_typ h)) value))"

definition get_hmac_algorithm :: "bytes \<Rightarrow> (hmac_algorithm \<times> bytes) result" where
  "get_hmac_algorithm reader =
     rbind (get_u16 reader) (\<lambda>(v, reader).
       let a = hmac_algorithm_of_u16 v in
       if a = HmacSha128 \<or> a = HmacSha256 then Inr (a, reader)
       else Inl (Err ''ErrInvalidAlgorithmType''))"

definition requested_hmac_algorithm_unmarshal :: "bytes \<Rightarrow> param result" where
  "requested_hmac_algorithm_unmarshal raw =
     param_reader raw (\<lambda>h reader.
       rbind (get_many get_hmac_algorithm (unat (ph_value_length h) div 2) reader)
         (\<lambda>(as, _). Inr (ParamRequestedHmacAlgorithm as)))"

definition outgoing_reset_request_unmarshal :: "bytes \<Rightarrow> param result" where
  "outgoing_reset_request_unmarshal raw =
     rbind (param_header_unmarshal raw) (\<lambda>h.
       if length raw < 4 + 12 then Inl (Err ''ErrSsnResetRequestParamTooShort'')
       else
         rbind (slice 4 (4 + unat (ph_value_length h)) raw) (\<lambda>reader.
         rbind (get_u32 reader) (\<lambda>(q, reader).
         rbind (get_u32 reader) (\<lambda>(r, reader).
         rbind (get_u32 reader) (\<lambda>(l, reader).
         rbind (get_many get_u16 ((unat (ph_value_length h) - 12) div 2) reader) (\<lambda>(sids, _).
           Inr (ParamOutgoingResetRequest q r l sids)))))))"

definition reconfig_response_unmarshal :: "bytes \<Rightarrow> param result" where
  "reconfig_response_unmarshal raw =
     rbind (param_header_unmarshal raw) (\<lambda>h.
       if length raw < 8 + 4 then Inl (Err ''ErrReconfigRespParamTooShort'')
       else
         rbind (slice 4 (4 + unat (ph_value_length h)) raw) (\<lambda>reader.
         rbind (get_u32 reader) (\<lambda>(r, reader).
         rbind (get_u32 reader) (\<lambda>(res, reader).
           Inr (ParamReconfigResponse r (reconfig_result_of_u32 res))))))"

definition param_unmarshal :: "u16 \<Rightarrow> bytes \<Rightarrow> param result" where
  "param_unmarshal raw_type raw =
     (case param_type_of_u16 raw_type of
        ForwardTsnSupp \<Rightarrow> forward_tsn_supported_unmarshal raw
      | SupportedExt \<Rightarrow> supported_extensions_unmarshal raw
      | Random \<Rightarrow> random_unmarshal raw
      | ReqHmacAlgo \<Rightarrow> requested_hmac_algorithm_unmarshal raw
      | ChunkList \<Rightarrow> chunk_list_unmarshal raw
      | StateCookie \<Rightarrow> state_cookie_unmarshal raw
      | HeartbeatInfo \<Rightarrow> heartbeat_info_unmarshal raw
      | OutSsnResetReq \<Rightarrow> outgoing_reset_request_unmarshal raw
      | ReconfigResp \<Rightarrow> reconfig_response_unmarshal raw
      | _ \<Rightarrow> if drop_bit 15 raw_type AND 1 = 0 then Inl (Err ''ErrParamTypeUnhandled'')
            else unknown_unmarshal raw)"

definition build_param :: "bytes \<Rightarrow> param result" where
  "build_param raw =
     (if length raw < 4 then Inl (Err ''ErrParamHeaderTooShort'')
      else
        rbind (slice 0 2 raw) (\<lambda>reader.
        rbind (get_u16 reader) (\<lambda>(raw_type, _). param_unmarshal raw_type raw)))"

section \<open>Round trip\<close>

lemma u16_of_param_type_of_u16 [simp]: "u16_of_param_type (param_type_of_u16 v) = v"
  by (simp add: param_type_of_u16_def param_type_table_def)

lemma param_type_of_u16_of_param_type:
  "param_type_of_u16 (u16_of_param_type (param_typ p)) =
     (case p of ParamUnknown t v \<Rightarrow> param_type_of_u16 t | _ \<Rightarrow> param_typ p)"
  by (cases p) (simp_all add: param_type_of_u16_def param_type_table_def)

lemma length_param_value [simp]: "length (param_value p) = param_value_length p"
  by (cases p) (simp_all add: length_concat_map [where k = 1] length_concat_map [where k = 2])

lemma param_header_unmarshal_marshal:
  assumes "length v + 4 < 65536"
  shows "param_header_unmarshal (put_u16 t @ put_u16 (of_nat (length v) + 4) @ v @ rest) =
           Inr \<lparr>ph_typ = param_type_of_u16 t, ph_value_length = of_nat (length v)\<rparr>"
  using assms by (simp add: param_header_unmarshal_def unat_of_nat16_add4)

lemma param_reader_marshal:
  assumes "length v + 4 < 65536"
  shows "param_reader (put_u16 t @ put_u16 (of_nat (length v) + 4) @ v @ rest) f =
           f \<lparr>ph_typ = param_type_of_u16 t, ph_value_length = of_nat (length v)\<rparr> v"
proof -
  have "slice 4 (4 + length v) ((put_u16 t @ put_u16 (of_nat (length v) + 4)) @ v @ rest) = Inr v"
    by (rule slice_append) simp_all
  then show ?thesis
    using assms by (simp add: param_reader_def param_header_unmarshal_marshal unat_of_nat16)
qed

primrec param_wf :: "param \<Rightarrow> bool" where
  "param_wf ParamForwardTsnSupported \<longleftrightarrow> True"
| "param_wf (ParamSupportedExtensions cts) \<longleftrightarrow> length cts + 4 < 65536"
| "param_wf (ParamRandom d) \<longleftrightarrow> length d + 4 < 65536"
| "param_wf (ParamRequestedHmacAlgorithm as) \<longleftrightarrow>
     2 * length as + 4 < 65536 \<and> set as \<subseteq> {HmacSha128, HmacSha256}"
| "param_wf (ParamChunkList cts) \<longleftrightarrow> length cts + 4 < 65536"
| "param_wf (ParamStateCookie c) \<longleftrightarrow> length c + 4 < 65536"
| "param_wf (ParamHeartbeatInfo i) \<longleftrightarrow> length i + 4 < 65536"
| "param_wf (ParamOutgoingResetRequest q r l sids) \<longleftrightarrow> 12 + length sids * 2 + 4 < 65536"
| "param_wf (ParamReconfigResponse r res) \<longleftrightarrow> True"
| "param_wf (ParamUnknown t v) \<longleftrightarrow>
     length v + 4 < 65536 \<and> drop_bit 15 t AND 1 \<noteq> 0 \<and>
     param_type_of_u16 t \<notin> {ForwardTsnSupp, SupportedExt, Random, ReqHmacAlgo, ChunkList,
       StateCookie, HeartbeatInfo, OutSsnResetReq, ReconfigResp}"

lemma param_wf_length: "param_wf p \<Longrightarrow> param_value_length p + 4 < 65536"
  by (cases p) simp_all

lemma param_marshal_eq:
  "param_marshal p = put_u16 (u16_of_param_type (param_typ p)) @
     put_u16 (of_nat (length (param_value p)) + 4) @ param_value p"
  by (simp add: param_marshal_def param_header_marshal_def param_header_of_def)

lemma length_param_marshal [simp]: "length (param_marshal p) = 4 + param_value_length p"
  by (simp add: param_marshal_eq)

lemma build_param_dispatch:
  "build_param (put_u16 t @ put_u16 l @ v) = param_unmarshal t (put_u16 t @ put_u16 l @ v)"
proof -
  have "slice 0 2 (put_u16 t @ put_u16 l @ v) = Inr (put_u16 t)"
    using slice_append [of "[]" 0 2 "put_u16 t"] by simp
  moreover have "get_u16 (put_u16 t) = Inr (t, [])"
    using get_put(2) [of t "[]"] by simp
  ultimately show ?thesis
    by (simp add: build_param_def)
qed

lemma get_hmac_algorithm_put:
  "a \<in> {HmacSha128, HmacSha256} \<Longrightarrow> get_hmac_algorithm (put_u16 (u16_of_hmac_algorithm a) @ bs) = Inr (a, bs)"
  by (auto simp: get_hmac_algorithm_def hmac_algorithm_of_u16_def)

lemma reconfig_result_of_u32_of [simp]: "reconfig_result_of_u32 (u32_of_reconfig_result r) = r"
  by (cases r) (simp_all add: reconfig_result_of_u32_def)

lemmas param_decoders =
  forward_tsn_supported_unmarshal_def supported_extensions_unmarshal_def random_unmarshal_def
  requested_hmac_algorithm_unmarshal_def chunk_list_unmarshal_def state_cookie_unmarshal_def
  heartbeat_info_unmarshal_def outgoing_reset_request_unmarshal_def reconfig_response_unmarshal_def
  unknown_unmarshal_def

lemma get_many_u8: "get_many get_u8 (length bs) bs = Inr (bs, [])"
  by (induction bs) simp_all

lemma concat_map_put_u8 [simp]: "concat (map put_u8 bs) = bs"
  by (induction bs) (simp_all add: put_u8_def)

text \<open>How the encoding of a well-formed parameter reads back: its header, its value and the bytes between.\<close>

definition wire_header :: "param \<Rightarrow> param_header" where
  "wire_header p =
     \<lparr>ph_typ = (case p of ParamUnknown t v \<Rightarrow> param_type_of_u16 t | _ \<Rightarrow> param_typ p),
      ph_value_length = of_nat (param_value_length p)\<rparr>"

lemma param_frame:
  assumes "param_wf p"
  shows "param_header_unmarshal (param_marshal p @ rest) = Inr (wire_header p)"
    and "param_reader (param_marshal p @ rest) f = f (wire_header p) (param_value p)"
    and "slice 4 (4 + param_value_length p) (param_marshal p @ rest) = Inr (param_value p)"
    and "unat (ph_value_length (wire_header p)) = param_value_length p"
    and "build_param (param_marshal p @ rest) =
           param_unmarshal (u16_of_param_type (param_typ p)) (param_marshal p @ rest)"
proof -
  let ?t = "u16_of_param_type (param_typ p)" and ?v = "param_value p"
  have len: "length ?v + 4 < 65536"
    using param_wf_length [OF assms] by simp
  have h: "\<lparr>ph_typ = param_type_of_u16 ?t, ph_value_length = of_nat (length ?v)\<rparr> = wire_header p"
    by (simp add: wire_header_def param_type_of_u16_of_param_type)
  show "param_header_unmarshal (param_marshal p @ rest) = Inr (wire_header p)"
    using param_header_unmarshal_marshal [OF len, of ?t rest] unfolding h by (simp add: param_marshal_eq)
  show "param_reader (param_marshal p @ rest) f = f (wire_header p) (param_value p)"
    using param_reader_marshal [OF len, of ?t rest f] unfolding h by (simp add: param_marshal_eq)
  show "slice 4 (4 + param_value_length p) (param_marshal p @ rest) = Inr (param_value p)"
    using slice_append [of "put_u16 ?t @ put_u16 (of_nat (length ?v) + 4)" 4 _ ?v rest]
    by (simp add: param_marshal_eq)
  show "unat (ph_value_length (wire_header p)) = param_value_length p"
    using len by (simp add: wire_header_def unat_of_nat16)
  show "build_param (param_marshal p @ rest) =
      param_unmarshal (u16_of_param_type (param_typ p)) (param_marshal p @ rest)"
    by (simp add: param_marshal_eq build_param_dispatch)
qed

lemma build_param_marshal:
  assumes "param_wf p"
  shows "build_param (param_marshal p @ rest) = Inr p"
proof -
  note frame = param_frame [OF assms]
  note unfolds = param_unmarshal_def param_decoders frame rbind_simps
  have ty: "param_type_of_u16 (u16_of_param_type (param_typ p)) = ph_typ (wire_header p)"
    by (simp add: wire_header_def param_type_of_u16_of_param_type)
  show ?thesis
  proof (cases p)
    case (ParamUnknown t v)
    then show ?thesis
      using assms ty u16_of_param_type_of_u16 [of t] unfolding unfolds
      by (cases "param_type_of_u16 t") (simp_all add: wire_header_def)
  next
    case (ParamRequestedHmacAlgorithm as)
    then have "get_many get_hmac_algorithm (length as) (param_value p @ []) = Inr (as, [])"
      using assms by (simp only: param_value.simps) (rule get_many_put, auto intro: get_hmac_algorithm_put)
    then show ?thesis
      using ParamRequestedHmacAlgorithm ty unfolding unfolds by (simp add: wire_header_def)
  next
    case (ParamOutgoingResetRequest q r l sids)
    have "get_many get_u16 (length sids) (concat (map put_u16 sids) @ []) = Inr (sids, [])"
      by (rule get_many_put) simp
    then show ?thesis
      using ParamOutgoingResetRequest ty unfolding unfolds
      by (simp add: wire_header_def)
  qed (use ty in \<open>unfold unfolds, auto simp: wire_header_def get_many_u8\<close>)
qed

interpretation params: tlv_codec "\<lambda>p. Inr (param_marshal p)" build_param param_value_length "\<lambda>p t. param_wf p"
  by unfold_locales (auto simp: build_param_marshal)

section \<open>Properties\<close>

text \<open>
  Every parameter the crate can write is read back unchanged by the dispatching decoder,
  whatever bytes follow it in the chunk; no two parameters have encodings one of which is a prefix
  of the other.
\<close>

theorem param_round_trip:
  assumes "param_wf p"
  shows "build_param (param_marshal p @ rest) = Inr p \<and>
         (\<forall>q rest'. param_wf q \<and> param_marshal p @ rest = param_marshal q @ rest' \<longrightarrow> p = q)"
  using params.round_trip [OF assms] params.prefix_free [OF assms] by blast

theorem param_round_trip_witness:
  "build_param (param_marshal (ParamOutgoingResetRequest 1 2 3 [7]) @ [0, 0]) =
     Inr (ParamOutgoingResetRequest 1 2 3 [7])"
  using param_round_trip [of "ParamOutgoingResetRequest 1 2 3 [7]" "[0, 0]"] by simp

text \<open>
   The outgoing reset request decoder checks the length of the buffer, not of the parameter:
  a parameter whose length field says four bytes, inside a chunk that is long enough, makes the
  cursor run out and panics.
\<close>

theorem reset_request_panics:
  "build_param [0, 13, 0, 4, 0, 0, 0, 0, 0, 0, 0, 0, 0, 0, 0, 0] = Inl Panic"
  by (simp add: build_param_def slice_def be16_def param_unmarshal_def param_type_of_u16_def
      param_type_table_def outgoing_reset_request_unmarshal_def param_header_unmarshal_def)

end
