(* ===== verification/Sctp_Chunks.thy ===== *)
theory Sctp_Chunks
  imports Sctp_Params
begin

unbundle bit_operations_syntax

text \<open>
  \<^verbatim>\<open>rtc-sctp/src/chunk\<close>: the chunk header, every chunk type with its encoder and decoder, and the
  error causes of ABORT and ERROR. The structs that implement the trait \<^verbatim>\<open>Chunk\<close> are the
  constructors of \<open>chunk\<close>; \<open>unmarshal_chunk\<close> is the match on the chunk type that both packet
  decoders run. The decoders see the rest of the packet, not only their own chunk, as in the
  source; the round trip is the interpretation of \<open>tlv_codec\<close> on the whole sum, its \<open>ok\<close>
  recording which chunks tolerate another one behind them.
\<close>

section \<open>Chunk header\<close>

record chunk_header =
  ch_typ :: u8
  ch_flags :: u8
  ch_value_length :: u16

abbreviation (input) "CT_PAYLOAD_DATA \<equiv> (0 :: u8)"
abbreviation (input) "CT_INIT \<equiv> (1 :: u8)"
abbreviation (input) "CT_INIT_ACK \<equiv> (2 :: u8)"
abbreviation (input) "CT_SACK \<equiv> (3 :: u8)"
abbreviation (input) "CT_HEARTBEAT \<equiv> (4 :: u8)"
abbreviation (input) "CT_HEARTBEAT_ACK \<equiv> (5 :: u8)"
abbreviation (input) "CT_ABORT \<equiv> (6 :: u8)"
abbreviation (input) "CT_SHUTDOWN \<equiv> (7 :: u8)"
abbreviation (input) "CT_SHUTDOWN_ACK \<equiv> (8 :: u8)"
abbreviation (input) "CT_ERROR \<equiv> (9 :: u8)"
abbreviation (input) "CT_COOKIE_ECHO \<equiv> (10 :: u8)"
abbreviation (input) "CT_COOKIE_ACK \<equiv> (11 :: u8)"
abbreviation (input) "CT_SHUTDOWN_COMPLETE \<equiv> (14 :: u8)"
abbreviation (input) "CT_RECONFIG \<equiv> (130 :: u8)"
abbreviation (input) "CT_FORWARD_TSN \<equiv> (192 :: u8)"

definition chunk_header_unmarshal :: "bytes \<Rightarrow> chunk_header result" where
  "chunk_header_unmarshal raw =
     (if length raw < 4 then Inl (Err ''ErrChunkHeaderTooSmall'')
      else
        rbind (get_u8 raw) (\<lambda>(typ, reader).
        rbind (get_u8 reader) (\<lambda>(flags, reader).
        rbind (get_u16 reader) (\<lambda>(len, reader).
          if len < 4 then Inl (Err ''ErrChunkHeaderInvalidLength'')
          else
            let value_length = unat len - 4;
                length_after_value = int (length raw) - int (unat len) in
            if length_after_value < 0 then Inl (Err ''ErrChunkHeaderNotEnoughSpace'')
            else if length_after_value < 4 \<and>
                    list_ex (\<lambda>i. raw ! (4 + (value_length + i - 1)) \<noteq> 0)
                      (rev [1..<Suc (nat length_after_value)])
            then Inl (Err ''ErrChunkHeaderPaddingNonZero'')
            else Inr \<lparr>ch_typ = typ, ch_flags = flags, ch_value_length = len - 4\<rparr>))))"

definition chunk_header_marshal :: "chunk_header \<Rightarrow> bytes" where
  "chunk_header_marshal h =
     put_u8 (ch_typ h) @ put_u8 (ch_flags h) @ put_u16 (ch_value_length h + 4)"

text \<open>The value of a chunk: \<^verbatim>\<open>raw.slice(CHUNK_HEADER_SIZE..CHUNK_HEADER_SIZE + header.value_length())\<close>.\<close>

definition chunk_value :: "chunk_header \<Rightarrow> bytes \<Rightarrow> bytes result" where
  "chunk_value h raw = slice 4 (4 + unat (ch_value_length h)) raw"

section \<open>DATA\<close>

datatype payload_protocol_identifier =
    PPI_Dcep | PPI_String | PPI_Binary | PPI_StringEmpty | PPI_BinaryEmpty | PPI_Unknown

definition ppi_of_u32 :: "u32 \<Rightarrow> payload_protocol_identifier" where
  "ppi_of_u32 v =
     (if v = 50 then PPI_Dcep else if v = 51 then PPI_String else if v = 53 then PPI_Binary
      else if v = 56 then PPI_StringEmpty else if v = 57 then PPI_BinaryEmpty else PPI_Unknown)"

primrec u32_of_ppi :: "payload_protocol_identifier \<Rightarrow> u32" where
  "u32_of_ppi PPI_Dcep = 50"
| "u32_of_ppi PPI_String = 51"
| "u32_of_ppi PPI_Binary = 53"
| "u32_of_ppi PPI_StringEmpty = 56"
| "u32_of_ppi PPI_BinaryEmpty = 57"
| "u32_of_ppi PPI_Unknown = 58"

record chunk_payload_data =
  pd_unordered :: bool
  pd_beginning_fragment :: bool
  pd_ending_fragment :: bool
  pd_immediate_sack :: bool
  pd_tsn :: u32
  pd_stream_identifier :: u16
  pd_stream_sequence_number :: u16
  pd_payload_type :: payload_protocol_identifier
  pd_user_data :: bytes
  pd_acked :: bool
  pd_miss_indicator :: u32
  pd_since :: "nat option"
  pd_nsent :: u32
  pd_abandoned :: bool
  pd_all_inflight :: bool
  pd_retransmit :: bool

definition pd_default :: chunk_payload_data where
  "pd_default =
     \<lparr>pd_unordered = False, pd_beginning_fragment = False, pd_ending_fragment = False,
      pd_immediate_sack = False, pd_tsn = 0, pd_stream_identifier = 0,
      pd_stream_sequence_number = 0, pd_payload_type = PPI_Unknown, pd_user_data = [],
      pd_acked = False, pd_miss_indicator = 0, pd_since = None, pd_nsent = 0,
      pd_abandoned = False, pd_all_inflight = False, pd_retransmit = False\<rparr>"

definition payload_data_value_length :: "chunk_payload_data \<Rightarrow> nat" where
  "payload_data_value_length c = 12 + length (pd_user_data c)"

definition payload_data_header :: "chunk_payload_data \<Rightarrow> chunk_header" where
  "payload_data_header c =
     (let flags = (if pd_ending_fragment c then 1 else 0);
          flags = (if pd_beginning_fragment c then flags OR push_bit 1 1 else flags);
          flags = (if pd_unordered c then flags OR push_bit 2 1 else flags);
          flags = (if pd_immediate_sack c then flags OR push_bit 3 1 else flags)
      in \<lparr>ch_typ = CT_PAYLOAD_DATA, ch_flags = flags,
          ch_value_length = of_nat (payload_data_value_length c)\<rparr>)"

definition payload_data_unmarshal :: "bytes \<Rightarrow> chunk_payload_data result" where
  "payload_data_unmarshal raw =
     rbind (chunk_header_unmarshal raw) (\<lambda>h.
       if ch_typ h \<noteq> CT_PAYLOAD_DATA then Inl (Err ''ErrChunkTypeNotPayloadData'')
       else if length raw < 12 then Inl (Err ''ErrChunkPayloadSmall'')
       else
         rbind (chunk_value h raw) (\<lambda>reader.
         rbind (get_u32 reader) (\<lambda>(tsn, reader).
         rbind (get_u16 reader) (\<lambda>(sid, reader).
         rbind (get_u16 reader) (\<lambda>(ssn, reader).
         rbind (get_u32 reader) (\<lambda>(ppi, reader).
         rbind (slice (4 + 12) (4 + unat (ch_value_length h)) raw) (\<lambda>user_data.
           Inr \<lparr>pd_unordered = ch_flags h AND 4 \<noteq> 0,
                pd_beginning_fragment = ch_flags h AND 2 \<noteq> 0,
                pd_ending_fragment = ch_flags h AND 1 \<noteq> 0,
                pd_immediate_sack = ch_flags h AND 8 \<noteq> 0,
                pd_tsn = tsn, pd_stream_identifier = sid, pd_stream_sequence_number = ssn,
                pd_payload_type = ppi_of_u32 ppi, pd_user_data = user_data,
                pd_acked = False, pd_miss_indicator = 0, pd_since = None, pd_nsent = 0,
                pd_abandoned = False, pd_all_inflight = False, pd_retransmit = False\<rparr>)))))))"

definition payload_data_marshal :: "chunk_payload_data \<Rightarrow> bytes" where
  "payload_data_marshal c =
     chunk_header_marshal (payload_data_header c) @ put_u32 (pd_tsn c) @
     put_u16 (pd_stream_identifier c) @ put_u16 (pd_stream_sequence_number c) @
     put_u32 (u32_of_ppi (pd_payload_type c)) @ pd_user_data c"

text \<open>The method \<^verbatim>\<open>abandoned()\<close>; the field of that name is \<^const>\<open>pd_abandoned\<close>.\<close>

definition pd_is_abandoned :: "chunk_payload_data \<Rightarrow> bool" where
  "pd_is_abandoned c \<longleftrightarrow> pd_abandoned c \<and> pd_all_inflight c"

definition pd_set_abandoned :: "bool \<Rightarrow> chunk_payload_data \<Rightarrow> chunk_payload_data" where
  "pd_set_abandoned a c = c\<lparr>pd_abandoned := a\<rparr>"

definition pd_set_all_inflight :: "chunk_payload_data \<Rightarrow> chunk_payload_data" where
  "pd_set_all_inflight c = (if pd_ending_fragment c then c\<lparr>pd_all_inflight := True\<rparr> else c)"

section \<open>SACK\<close>

record gap_ack_block =
  gab_start :: u16
  gab_end :: u16

record chunk_selective_ack =
  sa_cumulative_tsn_ack :: u32
  sa_advertised_receiver_window_credit :: u32
  sa_gap_ack_blocks :: "gap_ack_block list"
  sa_duplicate_tsn :: "u32 list"

definition selective_ack_value_length :: "chunk_selective_ack \<Rightarrow> nat" where
  "selective_ack_value_length c =
     12 + length (sa_gap_ack_blocks c) * 4 + length (sa_duplicate_tsn c) * 4"

definition get_gap_ack_block :: "bytes \<Rightarrow> (gap_ack_block \<times> bytes) result" where
  "get_gap_ack_block reader =
     rbind (get_u16 reader) (\<lambda>(s, reader).
     rbind (get_u16 reader) (\<lambda>(e, reader). Inr (\<lparr>gab_start = s, gab_end = e\<rparr>, reader)))"

definition put_gap_ack_block :: "gap_ack_block \<Rightarrow> bytes" where
  "put_gap_ack_block g = put_u16 (gab_start g) @ put_u16 (gab_end g)"

definition selective_ack_unmarshal :: "bytes \<Rightarrow> chunk_selective_ack result" where
  "selective_ack_unmarshal raw =
     rbind (chunk_header_unmarshal raw) (\<lambda>h.
       if ch_typ h \<noteq> CT_SACK then Inl (Err ''ErrChunkTypeNotSack'')
       else if length raw < 4 + 12 then Inl (Err ''ErrSackSizeNotLargeEnoughInfo'')
       else
         rbind (chunk_value h raw) (\<lambda>reader.
         rbind (get_u32 reader) (\<lambda>(cum, reader).
         rbind (get_u32 reader) (\<lambda>(arwnd, reader).
         rbind (get_u16 reader) (\<lambda>(n, reader).
         rbind (get_u16 reader) (\<lambda>(m, reader).
           if length raw < 4 + 12 + (4 * unat n + 4 * unat m)
           then Inl (Err ''ErrSackSizeNotLargeEnoughInfo'')
           else
             rbind (get_many get_gap_ack_block (unat n) reader) (\<lambda>(gaps, reader).
             rbind (get_many get_u32 (unat m) reader) (\<lambda>(dups, reader).
               Inr \<lparr>sa_cumulative_tsn_ack = cum, sa_advertised_receiver_window_credit = arwnd,
                    sa_gap_ack_blocks = gaps, sa_duplicate_tsn = dups\<rparr>))))))))"

definition selective_ack_marshal :: "chunk_selective_ack \<Rightarrow> bytes" where
  "selective_ack_marshal c =
     chunk_header_marshal \<lparr>ch_typ = CT_SACK, ch_flags = 0,
       ch_value_length = of_nat (selective_ack_value_length c)\<rparr> @
     put_u32 (sa_cumulative_tsn_ack c) @ put_u32 (sa_advertised_receiver_window_credit c) @
     put_u16 (of_nat (length (sa_gap_ack_blocks c))) @ put_u16 (of_nat (length (sa_duplicate_tsn c))) @
     concat (map put_gap_ack_block (sa_gap_ack_blocks c)) @ concat (map put_u32 (sa_duplicate_tsn c))"

section \<open>INIT and INIT ACK\<close>

record chunk_init =
  ci_is_ack :: bool
  ci_initiate_tag :: u32
  ci_advertised_receiver_window_credit :: u32
  ci_num_outbound_streams :: u16
  ci_num_inbound_streams :: u16
  ci_initial_tsn :: u32
  ci_params :: "param list"

text \<open>The parameters of a chunk, each but the last padded to four bytes.\<close>

fun padded_params_length :: "param list \<Rightarrow> nat" where
  "padded_params_length [] = 0"
| "padded_params_length (p # ps) =
     (let p_len = 4 + param_value_length p in
      p_len + (if ps = [] then 0 else get_padding_size p_len) + padded_params_length ps)"

fun padded_params_marshal :: "param list \<Rightarrow> bytes" where
  "padded_params_marshal [] = []"
| "padded_params_marshal (p # ps) =
     (let pp = param_marshal p in
      pp @ (if ps = [] then [] else replicate (get_padding_size (length pp)) 0) @
      padded_params_marshal ps)"

definition init_value_length :: "chunk_init \<Rightarrow> nat" where
  "init_value_length c = 4 + 4 + 2 + 2 + 4 + padded_params_length (ci_params c)"

function init_params :: "bytes \<Rightarrow> nat \<Rightarrow> nat \<Rightarrow> int \<Rightarrow> param list result" where
  "init_params raw e offset remaining =
     (if remaining > 4 then
        rbind (slice offset e raw) (\<lambda>s.
        rbind (build_param s) (\<lambda>p.
          let p_len = 4 + param_value_length p;
              len_plus_padding = p_len + get_padding_size p_len in
          rbind (init_params raw e (offset + len_plus_padding) (remaining - int len_plus_padding))
            (\<lambda>ps. Inr (p # ps))))
      else Inr [])"
  by pat_completeness auto
termination
  by (relation "measure (\<lambda>(raw, e, offset, remaining). nat remaining)") auto

declare init_params.simps [simp del]

definition init_unmarshal :: "bytes \<Rightarrow> chunk_init result" where
  "init_unmarshal raw =
     rbind (chunk_header_unmarshal raw) (\<lambda>h.
       if \<not> (ch_typ h = CT_INIT \<or> ch_typ h = CT_INIT_ACK) then Inl (Err ''ErrChunkTypeNotTypeInit'')
       else if length raw < 4 + 16 then Inl (Err ''ErrChunkValueNotLongEnough'')
       else if ch_flags h \<noteq> 0 then Inl (Err ''ErrChunkTypeInitFlagZero'')
       else
         rbind (chunk_value h raw) (\<lambda>reader.
         rbind (get_u32 reader) (\<lambda>(tag, reader).
         rbind (get_u32 reader) (\<lambda>(arwnd, reader).
         rbind (get_u16 reader) (\<lambda>(os, reader).
         rbind (get_u16 reader) (\<lambda>(mis, reader).
         rbind (get_u32 reader) (\<lambda>(tsn, reader).
         rbind (init_params raw (4 + unat (ch_value_length h)) (4 + 16)
                  (int (length raw) - int (4 + 16))) (\<lambda>ps.
           Inr \<lparr>ci_is_ack = (ch_typ h = CT_INIT_ACK), ci_initiate_tag = tag,
                ci_advertised_receiver_window_credit = arwnd, ci_num_outbound_streams = os,
                ci_num_inbound_streams = mis, ci_initial_tsn = tsn, ci_params = ps\<rparr>))))))))"

definition init_marshal :: "chunk_init \<Rightarrow> bytes" where
  "init_marshal c =
     chunk_header_marshal \<lparr>ch_typ = (if ci_is_ack c then CT_INIT_ACK else CT_INIT), ch_flags = 0,
       ch_value_length = of_nat (init_value_length c)\<rparr> @
     put_u32 (ci_initiate_tag c) @ put_u32 (ci_advertised_receiver_window_credit c) @
     put_u16 (ci_num_outbound_streams c) @ put_u16 (ci_num_inbound_streams c) @
     put_u32 (ci_initial_tsn c) @ padded_params_marshal (ci_params c)"

definition init_check :: "chunk_init \<Rightarrow> unit result" where
  "init_check c =
     (if ci_initiate_tag c = 0 then Inl (Err ''ErrChunkTypeInitInitiateTagZero'')
      else if ci_num_inbound_streams c = 0 then Inl (Err ''ErrInitInboundStreamRequestZero'')
      else if ci_num_outbound_streams c = 0 then Inl (Err ''ErrInitOutboundStreamRequestZero'')
      else if ci_advertised_receiver_window_credit c < 1500
      then Inl (Err ''ErrInitAdvertisedReceiver1500'')
      else Inr ())"

definition set_supported_extensions :: "chunk_init \<Rightarrow> chunk_init" where
  "set_supported_extensions c =
     c\<lparr>ci_params := ci_params c @ [ParamSupportedExtensions [CT_RECONFIG, CT_FORWARD_TSN]]\<rparr>"

section \<open>FORWARD TSN\<close>

record forward_tsn_stream =
  fts_identifier :: u16
  fts_sequence :: u16

record chunk_forward_tsn =
  ft_new_cumulative_tsn :: u32
  ft_streams :: "forward_tsn_stream list"

definition forward_tsn_stream_unmarshal :: "bytes \<Rightarrow> forward_tsn_stream result" where
  "forward_tsn_stream_unmarshal buf =
     (if length buf < 4 then Inl (Err ''ErrChunkTooShort'')
      else
        rbind (get_u16 buf) (\<lambda>(i, reader).
        rbind (get_u16 reader) (\<lambda>(s, reader).
          Inr \<lparr>fts_identifier = i, fts_sequence = s\<rparr>)))"

definition forward_tsn_stream_marshal :: "forward_tsn_stream \<Rightarrow> bytes" where
  "forward_tsn_stream_marshal s = put_u16 (fts_identifier s) @ put_u16 (fts_sequence s)"

definition forward_tsn_value_length :: "chunk_forward_tsn \<Rightarrow> nat" where
  "forward_tsn_value_length c = 4 + 4 * length (ft_streams c)"

function forward_tsn_streams :: "bytes \<Rightarrow> nat \<Rightarrow> nat \<Rightarrow> nat \<Rightarrow> forward_tsn_stream list result" where
  "forward_tsn_streams buf e offset remaining =
     (if remaining > 0 then
        rbind (slice offset e buf) (\<lambda>s.
        rbind (forward_tsn_stream_unmarshal s) (\<lambda>st.
        rbind (forward_tsn_streams buf e (offset + 4) (remaining - 4)) (\<lambda>sts. Inr (st # sts))))
      else Inr [])"
  by pat_completeness auto
termination
  by (relation "measure (\<lambda>(buf, e, offset, remaining). remaining)") auto

declare forward_tsn_streams.simps [simp del]

definition forward_tsn_unmarshal :: "bytes \<Rightarrow> chunk_forward_tsn result" where
  "forward_tsn_unmarshal buf =
     rbind (chunk_header_unmarshal buf) (\<lambda>h.
       if ch_typ h \<noteq> CT_FORWARD_TSN then Inl (Err ''ErrChunkTypeNotForwardTsn'')
       else if length buf < 4 + 4 then Inl (Err ''ErrChunkTooShort'')
       else
         rbind (chunk_value h buf) (\<lambda>reader.
         rbind (get_u32 reader) (\<lambda>(tsn, reader).
         rbind (forward_tsn_streams buf (4 + unat (ch_value_length h)) (4 + 4) (length buf - (4 + 4)))
           (\<lambda>sts. Inr \<lparr>ft_new_cumulative_tsn = tsn, ft_streams = sts\<rparr>))))"

definition forward_tsn_marshal :: "chunk_forward_tsn \<Rightarrow> bytes" where
  "forward_tsn_marshal c =
     chunk_header_marshal \<lparr>ch_typ = CT_FORWARD_TSN, ch_flags = 0,
       ch_value_length = of_nat (forward_tsn_value_length c)\<rparr> @
     put_u32 (ft_new_cumulative_tsn c) @ concat (map forward_tsn_stream_marshal (ft_streams c))"

section \<open>RE-CONFIG\<close>

record chunk_reconfig =
  rc_param_a :: "param option"
  rc_param_b :: "param option"

definition reconfig_value_length :: "chunk_reconfig \<Rightarrow> nat" where
  "reconfig_value_length c =
     (let a = (case rc_param_a c of Some p \<Rightarrow> param_value_length p | None \<Rightarrow> 0) in
      4 + a + (case rc_param_b c of
                 Some q \<Rightarrow> 4 + param_value_length q + get_padding_size (4 + a)
               | None \<Rightarrow> 0))"

definition reconfig_unmarshal :: "bytes \<Rightarrow> chunk_reconfig result" where
  "reconfig_unmarshal raw =
     rbind (chunk_header_unmarshal raw) (\<lambda>h.
       if ch_typ h \<noteq> CT_RECONFIG then Inl (Err ''ErrChunkTypeNotReconfig'')
       else
         rbind (chunk_value h raw) (\<lambda>v.
         rbind (build_param v) (\<lambda>a.
           let offset = 4 + 4 + param_value_length a + get_padding_size (4 + param_value_length a) in
           if 4 + unat (ch_value_length h) > offset then
             rbind (slice offset (4 + unat (ch_value_length h)) raw) (\<lambda>s.
             rbind (build_param s) (\<lambda>b. Inr \<lparr>rc_param_a = Some a, rc_param_b = Some b\<rparr>))
           else Inr \<lparr>rc_param_a = Some a, rc_param_b = None\<rparr>)))"

definition reconfig_marshal :: "chunk_reconfig \<Rightarrow> bytes result" where
  "reconfig_marshal c =
     (case rc_param_a c of
        None \<Rightarrow> Inl (Err ''ErrChunkReconfigInvalidParamA'')
      | Some a \<Rightarrow>
          Inr (chunk_header_marshal \<lparr>ch_typ = CT_RECONFIG, ch_flags = 0,
                 ch_value_length = of_nat (reconfig_value_length c)\<rparr> @
               param_marshal a @
               (case rc_param_b c of
                  Some b \<Rightarrow> replicate (get_padding_size (4 + param_value_length a)) 0 @ param_marshal b
                | None \<Rightarrow> [])))"

section \<open>HEARTBEAT and HEARTBEAT ACK\<close>

definition heartbeat_value_length :: "param list \<Rightarrow> nat" where
  "heartbeat_value_length ps = foldl (\<lambda>n p. n + 4 + param_value_length p) 0 ps"

definition heartbeat_unmarshal :: "bytes \<Rightarrow> param list result" where
  "heartbeat_unmarshal raw =
     rbind (chunk_header_unmarshal raw) (\<lambda>h.
       if ch_typ h \<noteq> CT_HEARTBEAT then Inl (Err ''ErrChunkTypeNotHeartbeat'')
       else if length raw \<le> 4 then Inl (Err ''ErrHeartbeatNotLongEnoughInfo'')
       else
         rbind (chunk_value h raw) (\<lambda>v.
         rbind (build_param v) (\<lambda>p.
           if param_typ p \<noteq> HeartbeatInfo then Inl (Err ''ErrHeartbeatParam'') else Inr [p])))"

definition heartbeat_marshal :: "param list \<Rightarrow> bytes" where
  "heartbeat_marshal ps =
     chunk_header_marshal \<lparr>ch_typ = CT_HEARTBEAT, ch_flags = 0,
       ch_value_length = of_nat (heartbeat_value_length ps)\<rparr> @ concat (map param_marshal ps)"

definition heartbeat_ack_value_length :: "param list \<Rightarrow> nat" where
  "heartbeat_ack_value_length ps = padded_params_length ps"

definition heartbeat_ack_unmarshal :: "bytes \<Rightarrow> param list result" where
  "heartbeat_ack_unmarshal raw =
     rbind (chunk_header_unmarshal raw) (\<lambda>h.
       if ch_typ h \<noteq> CT_HEARTBEAT_ACK then Inl (Err ''ErrChunkTypeNotHeartbeatAck'')
       else if length raw \<le> 4 then Inl (Err ''ErrHeartbeatNotLongEnoughInfo'')
       else
         rbind (chunk_value h raw) (\<lambda>v.
         rbind (build_param v) (\<lambda>p.
           if param_typ p \<noteq> HeartbeatInfo then Inl (Err ''ErrHeartbeatParam'') else Inr [p])))"

definition heartbeat_ack_marshal :: "param list \<Rightarrow> bytes result" where
  "heartbeat_ack_marshal ps =
     (if length ps \<noteq> 1 then Inl (Err ''ErrHeartbeatAckParams'')
      else if param_typ (hd ps) \<noteq> HeartbeatInfo then Inl (Err ''ErrHeartbeatAckNotHeartbeatInfo'')
      else Inr (chunk_header_marshal \<lparr>ch_typ = CT_HEARTBEAT_ACK, ch_flags = 0,
                  ch_value_length = of_nat (heartbeat_ack_value_length ps)\<rparr> @
                padded_params_marshal ps))"

section \<open>ABORT and ERROR\<close>

record error_cause =
  ec_code :: u16
  ec_raw :: bytes

definition error_cause_length :: "error_cause \<Rightarrow> nat" where
  "error_cause_length e = length (ec_raw e) + 4"

definition error_cause_unmarshal :: "bytes \<Rightarrow> error_cause result" where
  "error_cause_unmarshal buf =
     (if length buf < 4 then Inl (Err ''ErrErrorCauseTooSmall'')
      else
        rbind (get_u16 buf) (\<lambda>(code, reader).
        rbind (get_u16 reader) (\<lambda>(len, reader).
          if len < 4 then Inl (Err ''ErrErrorCauseTooSmall'')
          else
            rbind (slice 4 (4 + (unat len - 4)) buf) (\<lambda>v.
              Inr \<lparr>ec_code = code, ec_raw = v\<rparr>))))"

definition error_cause_marshal :: "error_cause \<Rightarrow> bytes" where
  "error_cause_marshal e =
     put_u16 (ec_code e) @ put_u16 (of_nat (error_cause_length e)) @ ec_raw e"

definition error_causes_value_length :: "error_cause list \<Rightarrow> nat" where
  "error_causes_value_length es = foldl (\<lambda>n e. n + error_cause_length e) 0 es"

function error_causes :: "bytes \<Rightarrow> nat \<Rightarrow> nat \<Rightarrow> error_cause list result" where
  "error_causes raw e offset =
     (if offset + 4 \<le> length raw then
        rbind (slice offset e raw) (\<lambda>s.
        rbind (error_cause_unmarshal s) (\<lambda>c.
        rbind (error_causes raw e (offset + error_cause_length c)) (\<lambda>cs. Inr (c # cs))))
      else Inr [])"
  by pat_completeness auto
termination
  by (relation "measure (\<lambda>(raw, e, offset). length raw - offset)") (auto simp: error_cause_length_def)

declare error_causes.simps [simp del]

definition abort_unmarshal :: "bytes \<Rightarrow> error_cause list result" where
  "abort_unmarshal raw =
     rbind (chunk_header_unmarshal raw) (\<lambda>h.
       if ch_typ h \<noteq> CT_ABORT then Inl (Err ''ErrChunkTypeNotAbort'')
       else error_causes raw (4 + unat (ch_value_length h)) 4)"

definition abort_marshal :: "error_cause list \<Rightarrow> bytes" where
  "abort_marshal es =
     chunk_header_marshal \<lparr>ch_typ = CT_ABORT, ch_flags = 0,
       ch_value_length = of_nat (error_causes_value_length es)\<rparr> @ concat (map error_cause_marshal es)"

definition error_unmarshal :: "bytes \<Rightarrow> error_cause list result" where
  "error_unmarshal raw =
     rbind (chunk_header_unmarshal raw) (\<lambda>h.
       if ch_typ h \<noteq> CT_ERROR then Inl (Err ''ErrChunkTypeNotCt'')
       else error_causes raw (4 + unat (ch_value_length h)) 4)"

definition error_marshal :: "error_cause list \<Rightarrow> bytes" where
  "error_marshal es =
     chunk_header_marshal \<lparr>ch_typ = CT_ERROR, ch_flags = 0,
       ch_value_length = of_nat (error_causes_value_length es)\<rparr> @ concat (map error_cause_marshal es)"

section \<open>COOKIE ECHO, COOKIE ACK and the shutdown chunks\<close>

definition cookie_echo_unmarshal :: "bytes \<Rightarrow> bytes result" where
  "cookie_echo_unmarshal raw =
     rbind (chunk_header_unmarshal raw) (\<lambda>h.
       if ch_typ h \<noteq> CT_COOKIE_ECHO then Inl (Err ''ErrChunkTypeNotCookieEcho'')
       else chunk_value h raw)"

definition cookie_echo_marshal :: "bytes \<Rightarrow> bytes" where
  "cookie_echo_marshal cookie =
     chunk_header_marshal \<lparr>ch_typ = CT_COOKIE_ECHO, ch_flags = 0,
       ch_value_length = of_nat (length cookie)\<rparr> @ cookie"

definition cookie_ack_unmarshal :: "bytes \<Rightarrow> unit result" where
  "cookie_ack_unmarshal raw =
     rbind (chunk_header_unmarshal raw) (\<lambda>h.
       if ch_typ h \<noteq> CT_COOKIE_ACK then Inl (Err ''ErrChunkTypeNotCookieAck'') else Inr ())"

definition cookie_ack_marshal :: bytes where
  "cookie_ack_marshal =
     chunk_header_marshal \<lparr>ch_typ = CT_COOKIE_ACK, ch_flags = 0, ch_value_length = 0\<rparr>"

definition shutdown_unmarshal :: "bytes \<Rightarrow> u32 result" where
  "shutdown_unmarshal raw =
     rbind (chunk_header_unmarshal raw) (\<lambda>h.
       if ch_typ h \<noteq> CT_SHUTDOWN then Inl (Err ''ErrChunkTypeNotShutdown'')
       else if length raw \<noteq> 4 + 4 then Inl (Err ''ErrInvalidChunkSize'')
       else rbind (chunk_value h raw) (\<lambda>reader. rbind (get_u32 reader) (\<lambda>(tsn, _). Inr tsn)))"

definition shutdown_marshal :: "u32 \<Rightarrow> bytes" where
  "shutdown_marshal tsn =
     chunk_header_marshal \<lparr>ch_typ = CT_SHUTDOWN, ch_flags = 0, ch_value_length = 4\<rparr> @ put_u32 tsn"

definition shutdown_ack_unmarshal :: "bytes \<Rightarrow> unit result" where
  "shutdown_ack_unmarshal raw =
     rbind (chunk_header_unmarshal raw) (\<lambda>h.
       if ch_typ h \<noteq> CT_SHUTDOWN_ACK then Inl (Err ''ErrChunkTypeNotShutdownAck'') else Inr ())"

definition shutdown_ack_marshal :: bytes where
  "shutdown_ack_marshal =
     chunk_header_marshal \<lparr>ch_typ = CT_SHUTDOWN_ACK, ch_flags = 0, ch_value_length = 0\<rparr>"

definition shutdown_complete_unmarshal :: "bytes \<Rightarrow> unit result" where
  "shutdown_complete_unmarshal raw =
     rbind (chunk_header_unmarshal raw) (\<lambda>h.
       if ch_typ h \<noteq> CT_SHUTDOWN_COMPLETE then Inl (Err ''ErrChunkTypeNotShutdownComplete'')
       else Inr ())"

definition shutdown_complete_marshal :: bytes where
  "shutdown_complete_marshal =
     chunk_header_marshal \<lparr>ch_typ = CT_SHUTDOWN_COMPLETE, ch_flags = 0, ch_value_length = 0\<rparr>"

section \<open>The chunk sum\<close>

datatype chunk =
    ChunkPayloadData chunk_payload_data
  | ChunkInit chunk_init
  | ChunkSelectiveAck chunk_selective_ack
  | ChunkHeartbeat "param list"
  | ChunkHeartbeatAck "param list"
  | ChunkAbort "error_cause list"
  | ChunkShutdown u32
  | ChunkShutdownAck
  | ChunkError "error_cause list"
  | ChunkCookieEcho bytes
  | ChunkCookieAck
  | ChunkShutdownComplete
  | ChunkReconfig chunk_reconfig
  | ChunkForwardTsn chunk_forward_tsn

primrec chunk_value_length :: "chunk \<Rightarrow> nat" where
  "chunk_value_length (ChunkPayloadData c) = payload_data_value_length c"
| "chunk_value_length (ChunkInit c) = init_value_length c"
| "chunk_value_length (ChunkSelectiveAck c) = selective_ack_value_length c"
| "chunk_value_length (ChunkHeartbeat ps) = heartbeat_value_length ps"
| "chunk_value_length (ChunkHeartbeatAck ps) = heartbeat_ack_value_length ps"
| "chunk_value_length (ChunkAbort es) = error_causes_value_length es"
| "chunk_value_length (ChunkShutdown tsn) = 4"
| "chunk_value_length ChunkShutdownAck = 0"
| "chunk_value_length (ChunkError es) = error_causes_value_length es"
| "chunk_value_length (ChunkCookieEcho cookie) = length cookie"
| "chunk_value_length ChunkCookieAck = 0"
| "chunk_value_length ChunkShutdownComplete = 0"
| "chunk_value_length (ChunkReconfig c) = reconfig_value_length c"
| "chunk_value_length (ChunkForwardTsn c) = forward_tsn_value_length c"

primrec chunk_typ :: "chunk \<Rightarrow> u8" where
  "chunk_typ (ChunkPayloadData c) = 0"
| "chunk_typ (ChunkInit c) = (if ci_is_ack c then 2 else 1)"
| "chunk_typ (ChunkSelectiveAck c) = 3"
| "chunk_typ (ChunkHeartbeat ps) = 4"
| "chunk_typ (ChunkHeartbeatAck ps) = 5"
| "chunk_typ (ChunkAbort es) = 6"
| "chunk_typ (ChunkShutdown tsn) = 7"
| "chunk_typ ChunkShutdownAck = 8"
| "chunk_typ (ChunkError es) = 9"
| "chunk_typ (ChunkCookieEcho c) = 10"
| "chunk_typ ChunkCookieAck = 11"
| "chunk_typ ChunkShutdownComplete = 14"
| "chunk_typ (ChunkReconfig c) = 130"
| "chunk_typ (ChunkForwardTsn c) = 192"

primrec chunk_marshal :: "chunk \<Rightarrow> bytes result" where
  "chunk_marshal (ChunkPayloadData c) = Inr (payload_data_marshal c)"
| "chunk_marshal (ChunkInit c) = Inr (init_marshal c)"
| "chunk_marshal (ChunkSelectiveAck c) = Inr (selective_ack_marshal c)"
| "chunk_marshal (ChunkHeartbeat ps) = Inr (heartbeat_marshal ps)"
| "chunk_marshal (ChunkHeartbeatAck ps) = heartbeat_ack_marshal ps"
| "chunk_marshal (ChunkAbort es) = Inr (abort_marshal es)"
| "chunk_marshal (ChunkShutdown tsn) = Inr (shutdown_marshal tsn)"
| "chunk_marshal ChunkShutdownAck = Inr shutdown_ack_marshal"
| "chunk_marshal (ChunkError es) = Inr (error_marshal es)"
| "chunk_marshal (ChunkCookieEcho cookie) = Inr (cookie_echo_marshal cookie)"
| "chunk_marshal ChunkCookieAck = Inr cookie_ack_marshal"
| "chunk_marshal ChunkShutdownComplete = Inr shutdown_complete_marshal"
| "chunk_marshal (ChunkReconfig c) = reconfig_marshal c"
| "chunk_marshal (ChunkForwardTsn c) = Inr (forward_tsn_marshal c)"

definition unmarshal_chunk :: "u8 \<Rightarrow> bytes \<Rightarrow> chunk result" where
  "unmarshal_chunk ct raw =
     (if ct = CT_INIT \<or> ct = CT_INIT_ACK then rbind (init_unmarshal raw) (\<lambda>c. Inr (ChunkInit c))
      else if ct = CT_ABORT then rbind (abort_unmarshal raw) (\<lambda>es. Inr (ChunkAbort es))
      else if ct = CT_COOKIE_ECHO then rbind (cookie_echo_unmarshal raw) (\<lambda>c. Inr (ChunkCookieEcho c))
      else if ct = CT_COOKIE_ACK then rbind (cookie_ack_unmarshal raw) (\<lambda>_. Inr ChunkCookieAck)
      else if ct = CT_HEARTBEAT then rbind (heartbeat_unmarshal raw) (\<lambda>ps. Inr (ChunkHeartbeat ps))
      else if ct = CT_PAYLOAD_DATA then rbind (payload_data_unmarshal raw) (\<lambda>c. Inr (ChunkPayloadData c))
      else if ct = CT_SACK then rbind (selective_ack_unmarshal raw) (\<lambda>c. Inr (ChunkSelectiveAck c))
      else if ct = CT_RECONFIG then rbind (reconfig_unmarshal raw) (\<lambda>c. Inr (ChunkReconfig c))
      else if ct = CT_FORWARD_TSN then rbind (forward_tsn_unmarshal raw) (\<lambda>c. Inr (ChunkForwardTsn c))
      else if ct = CT_ERROR then rbind (error_unmarshal raw) (\<lambda>es. Inr (ChunkError es))
      else if ct = CT_SHUTDOWN then rbind (shutdown_unmarshal raw) (\<lambda>tsn. Inr (ChunkShutdown tsn))
      else if ct = CT_SHUTDOWN_ACK then rbind (shutdown_ack_unmarshal raw) (\<lambda>_. Inr ChunkShutdownAck)
      else if ct = CT_SHUTDOWN_COMPLETE
      then rbind (shutdown_complete_unmarshal raw) (\<lambda>_. Inr ChunkShutdownComplete)
      else Inl (Err ''ErrUnmarshalUnknownChunkType''))"

section \<open>Round trips\<close>

text \<open>
  What may follow a chunk in the packet: another chunk, which has at least four bytes, or the
  zero padding of this one.
\<close>

definition tail_ok :: "bytes \<Rightarrow> bool" where
  "tail_ok t \<longleftrightarrow> 4 \<le> length t \<or> set t \<subseteq> {0}"

lemma chunk_frame:
  assumes "length v + 4 < 65536" "tail_ok t"
    and h: "h = \<lparr>ch_typ = typ, ch_flags = flags, ch_value_length = of_nat (length v)\<rparr>"
  shows "chunk_header_unmarshal (chunk_header_marshal h @ v @ t) = Inr h"
    and "chunk_value h (chunk_header_marshal h @ v @ t) = Inr v"
    and "unat (ch_value_length h) = length v"
proof -
  have len: "unat (of_nat (length v) + 4 :: u16) = length v + 4" "unat (of_nat (length v) :: u16) = length v"
    using assms(1) by (simp_all add: unat_of_nat16 unat_of_nat16_add4)
  have ge: "\<not> (of_nat (length v) + 4 :: u16) < 4"
    by (simp add: word_less_nat_alt len)
  let ?raw = "put_u8 typ @ put_u8 flags @ put_u16 (of_nat (length v) + 4) @ v @ t"
  have z: "?raw ! (4 + (length v + i - 1)) = 0" if "length t < 4" "1 \<le> i" "i \<le> length t" for i
  proof -
    have "set t \<subseteq> {0}"
      using assms(2) that(1) by (simp add: tail_ok_def)
    moreover have "?raw ! (4 + (length v + i - 1)) = t ! (i - 1)"
      using that nth_append_length_plus [of "put_u8 typ @ put_u8 flags @ put_u16 (of_nat (length v) + 4) @ v" t "i - 1"]
      by (simp add: numeral_3_eq_3)
    moreover have "t ! (i - 1) \<in> set t"
      using that by (intro nth_mem) simp
    ultimately show ?thesis by auto
  qed
  show "chunk_header_unmarshal (chunk_header_marshal h @ v @ t) = Inr h"
    using len ge z
    by (auto simp: h chunk_header_unmarshal_def chunk_header_marshal_def Let_def list_ex_iff)
  show "unat (ch_value_length h) = length v"
    by (simp add: h len)
  show "chunk_value h (chunk_header_marshal h @ v @ t) = Inr v"
    using slice_append [of "chunk_header_marshal h" 4 "4 + length v" v t]
    by (simp add: h chunk_value_def len) (simp add: chunk_header_marshal_def)
qed

lemma ppi_of_u32_of_ppi [simp]: "ppi_of_u32 (u32_of_ppi p) = p"
  by (cases p) (simp_all add: ppi_of_u32_def)

definition fresh_payload :: "chunk_payload_data \<Rightarrow> bool" where
  "fresh_payload c \<longleftrightarrow>
     \<not> pd_acked c \<and> pd_miss_indicator c = 0 \<and> pd_since c = None \<and> pd_nsent c = 0 \<and>
     \<not> pd_abandoned c \<and> \<not> pd_all_inflight c \<and> \<not> pd_retransmit c"

lemma payload_flags:
  "ch_flags (payload_data_header c) AND 1 \<noteq> 0 \<longleftrightarrow> pd_ending_fragment c"
  "ch_flags (payload_data_header c) AND 2 \<noteq> 0 \<longleftrightarrow> pd_beginning_fragment c"
  "ch_flags (payload_data_header c) AND 4 \<noteq> 0 \<longleftrightarrow> pd_unordered c"
  "ch_flags (payload_data_header c) AND 8 \<noteq> 0 \<longleftrightarrow> pd_immediate_sack c"
  by (simp_all add: payload_data_header_def)

lemma payload_data_round_trip:
  assumes "payload_data_value_length c + 4 < 65536" "fresh_payload c" "tail_ok t"
  shows "payload_data_unmarshal (payload_data_marshal c @ t) = Inr c"
proof -
  let ?h = "payload_data_header c"
  let ?v = "put_u32 (pd_tsn c) @ put_u16 (pd_stream_identifier c) @ put_u16 (pd_stream_sequence_number c) @
     put_u32 (u32_of_ppi (pd_payload_type c)) @ pd_user_data c"
  have h: "?h = \<lparr>ch_typ = 0, ch_flags = ch_flags ?h, ch_value_length = of_nat (length ?v)\<rparr>"
    by (simp add: payload_data_header_def Let_def payload_data_value_length_def)
  have m: "payload_data_marshal c @ t = chunk_header_marshal ?h @ ?v @ t"
    by (simp add: payload_data_marshal_def)
  have "length ?v + 4 < 65536"
    using assms(1) by (simp add: payload_data_value_length_def)
  note fr = chunk_frame [OF this assms(3) h]
  have s: "slice (4 + 12) (4 + length ?v) (chunk_header_marshal ?h @ ?v @ t) = Inr (pd_user_data c)"
    using slice_append [of "chunk_header_marshal ?h @ put_u32 (pd_tsn c) @ put_u16 (pd_stream_identifier c) @
       put_u16 (pd_stream_sequence_number c) @ put_u32 (u32_of_ppi (pd_payload_type c))" 16 _ "pd_user_data c" t]
    by (simp add: chunk_header_marshal_def)
  have ty: "ch_typ ?h = 0"
    by (subst h) simp
  show ?thesis
    using assms(2) unfolding payload_data_unmarshal_def m fr rbind_simps s ty
    by (simp add: fresh_payload_def payload_flags)
qed


lemma get_gap_put [simp]: "get_gap_ack_block (put_gap_ack_block g @ bs) = Inr (g, bs)"
  by (simp add: get_gap_ack_block_def put_gap_ack_block_def)

lemma length_put_gap [simp]: "length (put_gap_ack_block g) = 4"
  by (simp add: put_gap_ack_block_def)

lemma selective_ack_round_trip:
  assumes "selective_ack_value_length c + 4 < 65536" "tail_ok t"
  shows "selective_ack_unmarshal (selective_ack_marshal c @ t) = Inr c"
proof -
  let ?n = "length (sa_gap_ack_blocks c)" and ?m = "length (sa_duplicate_tsn c)"
  let ?v = "put_u32 (sa_cumulative_tsn_ack c) @ put_u32 (sa_advertised_receiver_window_credit c) @
     put_u16 (of_nat ?n) @ put_u16 (of_nat ?m) @
     concat (map put_gap_ack_block (sa_gap_ack_blocks c)) @ concat (map put_u32 (sa_duplicate_tsn c))"
  let ?h = "\<lparr>ch_typ = 3, ch_flags = 0, ch_value_length = of_nat (length ?v)\<rparr>"
  have len: "length ?v = selective_ack_value_length c"
    by (simp add: selective_ack_value_length_def length_concat_map [where k = 4])
  have m: "selective_ack_marshal c @ t = chunk_header_marshal ?h @ ?v @ t"
    unfolding len by (simp add: selective_ack_marshal_def)
  have "length ?v + 4 < 65536"
    using assms(1) len by simp
  note fr = chunk_frame [OF this assms(2) refl, of 3 0]
  have n: "unat (of_nat ?n :: u16) = ?n" "unat (of_nat ?m :: u16) = ?m"
    using assms(1) by (simp_all add: unat_of_nat16 selective_ack_value_length_def)
  have g: "get_many get_gap_ack_block ?n (concat (map put_gap_ack_block (sa_gap_ack_blocks c)) @ bs) =
      Inr (sa_gap_ack_blocks c, bs)" for bs
    by (rule get_many_put) simp
  have d: "get_many get_u32 ?m (concat (map put_u32 (sa_duplicate_tsn c)) @ []) = Inr (sa_duplicate_tsn c, [])"
    by (rule get_many_put) simp
  show ?thesis
    unfolding selective_ack_unmarshal_def m fr rbind_simps
    using n g d by (simp add: length_concat_map [where k = 4] chunk_header_marshal_def)
qed

lemma length_padded_params_marshal [simp]:
  "length (padded_params_marshal ps) = padded_params_length ps"
  by (induction ps) (simp_all add: Let_def)

lemma init_params_marshal:
  assumes "list_all param_wf ps" "ps = [] \<or> 0 < param_value_length (last ps)" "length t < 4"
    and "raw = pre @ padded_params_marshal ps @ t" "offset = length pre"
    and "e = offset + padded_params_length ps" "remaining = int (padded_params_length ps + length t)"
  shows "init_params raw e offset remaining = Inr ps"
  using assms
proof (induction ps arbitrary: pre offset remaining)
  case Nil
  then show ?case
    by (subst init_params.simps) simp
next
  case (Cons p ps)
  let ?pad = "if ps = [] then [] else replicate (get_padding_size (4 + param_value_length p)) (0 :: u8)"
  have pos: "ps \<noteq> [] \<Longrightarrow> 4 \<le> padded_params_length ps"
    by (cases ps) (simp_all add: Let_def)
  then have rem: "remaining > 4"
    using Cons.prems by (auto simp: Let_def split: if_splits)
  have s: "slice offset e raw = Inr (padded_params_marshal (p # ps))"
    unfolding Cons.prems(4,6) by (rule slice_append) (simp_all only: Cons.prems(5) length_padded_params_marshal)
  have b: "build_param (padded_params_marshal (p # ps)) = Inr p"
    using Cons.prems(1) by (simp add: build_param_marshal Let_def)
  let ?l = "4 + param_value_length p + get_padding_size (4 + param_value_length p)"
  have nxt: "init_params raw e (offset + ?l) (remaining - int ?l) = Inr ps"
  proof (cases "ps = []")
    case True
    then have "remaining - int ?l \<le> 4"
      using Cons.prems(3,7) by (simp add: Let_def)
    then show ?thesis
      using True by (subst init_params.simps) simp
  next
    case False
    show ?thesis
      using Cons.prems False
      by (intro Cons.IH [of "pre @ param_marshal p @ ?pad"]) (auto simp: Let_def)
  qed
  show ?case
    by (subst init_params.simps) (use rem s b nxt in \<open>simp add: Let_def\<close>)
qed

lemma init_round_trip:
  assumes "init_value_length c + 4 < 65536" "list_all param_wf (ci_params c)"
    and "ci_params c = [] \<or> 0 < param_value_length (last (ci_params c))" "length t < 4" "set t \<subseteq> {0}"
  shows "init_unmarshal (init_marshal c @ t) = Inr c"
proof -
  let ?fixed = "put_u32 (ci_initiate_tag c) @ put_u32 (ci_advertised_receiver_window_credit c) @
     put_u16 (ci_num_outbound_streams c) @ put_u16 (ci_num_inbound_streams c) @ put_u32 (ci_initial_tsn c)"
  let ?v = "?fixed @ padded_params_marshal (ci_params c)"
  let ?h = "\<lparr>ch_typ = (if ci_is_ack c then 2 else 1), ch_flags = 0, ch_value_length = of_nat (length ?v)\<rparr>"
  have len: "length ?v = init_value_length c"
    by (simp add: init_value_length_def)
  have m: "init_marshal c @ t = chunk_header_marshal ?h @ ?v @ t"
    unfolding len by (simp add: init_marshal_def)
  have "length ?v + 4 < 65536" "tail_ok t"
    using assms(1,5) len by (simp_all add: tail_ok_def)
  note fr = chunk_frame [OF this refl, of "if ci_is_ack c then 2 else 1" 0]
  have ps: "init_params (chunk_header_marshal ?h @ ?v @ t) (4 + length ?v) (4 + 16)
      (int (length (chunk_header_marshal ?h @ ?v @ t)) - int (4 + 16)) = Inr (ci_params c)"
    by (rule init_params_marshal [OF assms(2-4), where pre = "chunk_header_marshal ?h @ ?fixed"])
      (simp_all add: chunk_header_marshal_def)
  show ?thesis
    unfolding init_unmarshal_def m fr rbind_simps ps
    by (simp add: chunk_header_marshal_def)
qed

lemma length_fts [simp]: "length (forward_tsn_stream_marshal s) = 4"
  by (simp add: forward_tsn_stream_marshal_def)

lemma forward_tsn_streams_marshal:
  assumes "raw = pre @ concat (map forward_tsn_stream_marshal sts)" "offset = length pre"
    and "e = length raw" "remaining = 4 * length sts"
  shows "forward_tsn_streams raw e offset remaining = Inr sts"
  using assms
proof (induction sts arbitrary: pre offset remaining)
  case Nil
  then show ?case
    by (subst forward_tsn_streams.simps) simp
next
  case (Cons st sts)
  have s: "slice offset e raw = Inr (concat (map forward_tsn_stream_marshal (st # sts)))"
    using slice_append [of pre offset e "concat (map forward_tsn_stream_marshal (st # sts))" "[]"] Cons.prems
    by simp
  have b: "forward_tsn_stream_unmarshal (concat (map forward_tsn_stream_marshal (st # sts))) = Inr st"
    by (simp add: forward_tsn_stream_unmarshal_def forward_tsn_stream_marshal_def)
  have "forward_tsn_streams raw e (offset + 4) (remaining - 4) = Inr sts"
    using Cons.prems by (intro Cons.IH [of "pre @ forward_tsn_stream_marshal st"]) auto
  then show ?case
    by (subst forward_tsn_streams.simps) (use s b Cons.prems(4) in simp)
qed

lemma forward_tsn_round_trip:
  assumes "forward_tsn_value_length c + 4 < 65536"
  shows "forward_tsn_unmarshal (forward_tsn_marshal c) = Inr c"
proof -
  let ?v = "put_u32 (ft_new_cumulative_tsn c) @ concat (map forward_tsn_stream_marshal (ft_streams c))"
  let ?h = "\<lparr>ch_typ = 192, ch_flags = 0, ch_value_length = of_nat (length ?v)\<rparr>"
  have len: "length ?v = forward_tsn_value_length c"
    by (simp add: forward_tsn_value_length_def length_concat_map [where k = 4])
  have m: "forward_tsn_marshal c = chunk_header_marshal ?h @ ?v @ []"
    unfolding len by (simp add: forward_tsn_marshal_def)
  have "length ?v + 4 < 65536" "tail_ok []"
    using assms len by (simp_all add: tail_ok_def)
  note fr = chunk_frame [OF this refl, of 192 0]
  have "forward_tsn_streams (chunk_header_marshal ?h @ ?v @ []) (4 + length ?v) (4 + 4)
      (length (chunk_header_marshal ?h @ ?v @ []) - (4 + 4)) = Inr (ft_streams c)"
    by (rule forward_tsn_streams_marshal [where pre = "chunk_header_marshal ?h @ put_u32 (ft_new_cumulative_tsn c)"])
      (simp_all add: chunk_header_marshal_def length_concat_map [where k = 4])
  note ps = this
  show ?thesis
    unfolding forward_tsn_unmarshal_def m fr rbind_simps ps
    by (simp add: chunk_header_marshal_def)
qed

lemma forward_tsn_streams_trailing:
  assumes "raw = pre @ concat (map forward_tsn_stream_marshal sts) @ t" "offset = length pre"
    and "e = offset + 4 * length sts" "remaining = 4 * length sts + length t" "t \<noteq> []"
  shows "forward_tsn_streams raw e offset remaining = Inl (Err ''ErrChunkTooShort'')"
  using assms
proof (induction sts arbitrary: pre offset remaining)
  case Nil
  then have "slice offset e raw = Inr []"
    by (simp add: slice_def)
  then show ?case
    using Nil by (subst forward_tsn_streams.simps) (simp add: forward_tsn_stream_unmarshal_def)
next
  case (Cons st sts)
  have "slice offset e raw = Inr (concat (map forward_tsn_stream_marshal (st # sts)))"
    unfolding Cons.prems(1,3)
    by (rule slice_append) (simp_all add: Cons.prems(2) length_concat_map [where k = 4])
  moreover have "forward_tsn_stream_unmarshal (concat (map forward_tsn_stream_marshal (st # sts))) = Inr st"
    by (simp add: forward_tsn_stream_unmarshal_def forward_tsn_stream_marshal_def)
  moreover have "forward_tsn_streams raw e (offset + 4) (remaining - 4) = Inl (Err ''ErrChunkTooShort'')"
    using Cons.prems by (intro Cons.IH [of "pre @ forward_tsn_stream_marshal st"]) auto
  ultimately show ?case
    by (subst forward_tsn_streams.simps) (use Cons.prems(4) in simp)
qed

lemma forward_tsn_trailing:
  assumes "forward_tsn_value_length c + 4 < 65536" "4 \<le> length t"
  shows "forward_tsn_unmarshal (forward_tsn_marshal c @ t) = Inl (Err ''ErrChunkTooShort'')"
proof -
  let ?v = "put_u32 (ft_new_cumulative_tsn c) @ concat (map forward_tsn_stream_marshal (ft_streams c))"
  let ?h = "\<lparr>ch_typ = 192, ch_flags = 0, ch_value_length = of_nat (length ?v)\<rparr>"
  have len: "length ?v = forward_tsn_value_length c"
    by (simp add: forward_tsn_value_length_def length_concat_map [where k = 4])
  have m: "forward_tsn_marshal c @ t = chunk_header_marshal ?h @ ?v @ t"
    unfolding len by (simp add: forward_tsn_marshal_def)
  have "length ?v + 4 < 65536" "tail_ok t"
    using assms len by (simp_all add: tail_ok_def)
  note fr = chunk_frame [OF this refl, of 192 0]
  have "t \<noteq> []"
    using assms(2) by auto
  then have ps: "forward_tsn_streams (chunk_header_marshal ?h @ ?v @ t) (4 + length ?v) (4 + 4)
      (length (chunk_header_marshal ?h @ ?v @ t) - (4 + 4)) = Inl (Err ''ErrChunkTooShort'')"
    by (intro forward_tsn_streams_trailing [where pre = "chunk_header_marshal ?h @ put_u32 (ft_new_cumulative_tsn c)"])
      (simp_all add: chunk_header_marshal_def length_concat_map [where k = 4])
  show ?thesis
    unfolding forward_tsn_unmarshal_def m fr rbind_simps ps
    by (simp add: chunk_header_marshal_def)
qed

lemma foldl_add: "foldl (\<lambda>n x. n + f x) (k :: nat) xs = k + sum_list (map f xs)"
  by (induction xs arbitrary: k) simp_all

lemma error_causes_value_length_simps [simp]:
  "error_causes_value_length [] = 0"
  "error_causes_value_length (e # es) = error_cause_length e + error_causes_value_length es"
  by (simp_all add: error_causes_value_length_def foldl_add)

lemma length_error_cause_marshal [simp]: "length (error_cause_marshal e) = error_cause_length e"
  by (simp add: error_cause_marshal_def error_cause_length_def)

lemma length_error_causes_marshal [simp]:
  "length (concat (map error_cause_marshal es)) = error_causes_value_length es"
  by (induction es) simp_all

lemma error_cause_unmarshal_marshal:
  assumes "error_cause_length e < 65536"
  shows "error_cause_unmarshal (error_cause_marshal e @ t) = Inr e"
proof -
  let ?l = "of_nat (error_cause_length e) :: u16"
  have l: "unat ?l = error_cause_length e"
    using assms by (rule unat_of_nat16)
  then have "\<not> ?l < 4"
    by (simp add: word_less_nat_alt error_cause_length_def)
  moreover have "slice 4 (4 + length (ec_raw e)) (error_cause_marshal e @ t) = Inr (ec_raw e)"
    using slice_append [of "put_u16 (ec_code e) @ put_u16 ?l" 4 _ "ec_raw e" t]
    by (simp add: error_cause_marshal_def)
  ultimately show ?thesis
    using l by (simp add: error_cause_unmarshal_def error_cause_marshal_def)
      (simp add: error_cause_length_def)
qed

lemma error_causes_marshal:
  assumes "\<forall>c \<in> set es. error_cause_length c < 65536" "length t < 4"
    and "raw = pre @ concat (map error_cause_marshal es) @ t" "offset = length pre"
    and "e = offset + error_causes_value_length es"
  shows "error_causes raw e offset = Inr es"
  using assms
proof (induction es arbitrary: pre offset)
  case Nil
  then show ?case
    by (subst error_causes.simps) simp
next
  case (Cons c es)
  have s: "slice offset e raw = Inr (concat (map error_cause_marshal (c # es)))"
    unfolding Cons.prems(3,5)
    by (rule slice_append) (simp_all only: Cons.prems(4) length_error_causes_marshal)
  have b: "error_cause_unmarshal (concat (map error_cause_marshal (c # es))) = Inr c"
    using Cons.prems(1) by (simp add: error_cause_unmarshal_marshal)
  have "error_causes raw e (offset + error_cause_length c) = Inr es"
    using Cons.prems by (intro Cons.IH [of "pre @ error_cause_marshal c"]) auto
  moreover have "offset + 4 \<le> length raw"
    using Cons.prems(3,4) by (simp add: error_cause_length_def)
  ultimately show ?case
    by (subst error_causes.simps) (use s b in simp)
qed

lemma abort_error_round_trip:
  assumes "error_causes_value_length es + 4 < 65536" "length t < 4" "set t \<subseteq> {0}"
  shows "abort_unmarshal (abort_marshal es @ t) = Inr es" "error_unmarshal (error_marshal es @ t) = Inr es"
proof -
  let ?v = "concat (map error_cause_marshal es)"
  let ?h = "\<lambda>ty. \<lparr>ch_typ = ty, ch_flags = 0, ch_value_length = of_nat (length ?v)\<rparr>"
  have len: "length ?v + 4 < 65536" "tail_ok t"
    using assms by (simp_all add: tail_ok_def)
  have "error_cause_length c \<le> error_causes_value_length es" if "c \<in> set es" for c
    using that by (induction es) auto
  then have small: "\<forall>c \<in> set es. error_cause_length c < 65536"
    using assms(1) by fastforce
  have e: "error_causes (chunk_header_marshal (?h ty) @ ?v @ t) (4 + length ?v) 4 = Inr es" for ty
    by (rule error_causes_marshal [OF small assms(2), where pre = "chunk_header_marshal (?h ty)"])
      (simp_all add: chunk_header_marshal_def)
  have m: "abort_marshal es @ t = chunk_header_marshal (?h 6) @ ?v @ t"
    "error_marshal es @ t = chunk_header_marshal (?h 9) @ ?v @ t"
    by (simp_all add: abort_marshal_def error_marshal_def)
  show "abort_unmarshal (abort_marshal es @ t) = Inr es"
    unfolding abort_unmarshal_def m chunk_frame [OF len refl] rbind_simps e by simp
  show "error_unmarshal (error_marshal es @ t) = Inr es"
    unfolding error_unmarshal_def m chunk_frame [OF len refl] rbind_simps e by simp
qed

lemma reconfig_round_trip:
  assumes c: "c = \<lparr>rc_param_a = Some a, rc_param_b = b\<rparr>" and wf: "param_wf a" "pred_option param_wf b"
    and len: "reconfig_value_length c + 4 < 65536" "tail_ok t"
  shows "\<exists>bs. reconfig_marshal c = Inr bs \<and> length bs = 4 + reconfig_value_length c \<and>
           reconfig_unmarshal (bs @ t) = Inr c"
proof -
  let ?pad = "get_padding_size (4 + param_value_length a)"
  let ?tl = "case b of Some q \<Rightarrow> replicate ?pad 0 @ param_marshal q | None \<Rightarrow> []"
  let ?v = "param_marshal a @ ?tl"
  let ?h = "\<lparr>ch_typ = 130, ch_flags = 0, ch_value_length = of_nat (length ?v)\<rparr>"
  have v: "length ?v = reconfig_value_length c"
    by (simp add: c reconfig_value_length_def Let_def split: option.split)
  have "reconfig_marshal c = Inr (chunk_header_marshal ?h @ ?v)"
    unfolding v by (simp add: c reconfig_marshal_def)
  moreover have "length ?v + 4 < 65536"
    using len(1) v by simp
  note fr = chunk_frame [OF this len(2) refl, of 130 0]
  have a: "build_param ?v = Inr a"
    by (rule build_param_marshal [OF wf(1)])
  have "slice (4 + 4 + param_value_length a + ?pad) (4 + length ?v) (chunk_header_marshal ?h @ ?v @ t) =
      Inr (param_marshal q)" if "b = Some q" for q
  proof -
    have "slice (4 + 4 + param_value_length a + ?pad) (4 + length ?v)
        ((chunk_header_marshal ?h @ param_marshal a @ replicate ?pad 0) @ param_marshal q @ t) =
        Inr (param_marshal q)"
      by (rule slice_append) (simp_all add: chunk_header_marshal_def that)
    then show ?thesis
      by (simp add: that)
  qed
  then have "reconfig_unmarshal (chunk_header_marshal ?h @ ?v @ t) = Inr c"
    unfolding reconfig_unmarshal_def fr rbind_simps a
    using build_param_marshal [where rest = "[]"] wf(2) by (cases b) (auto simp: Let_def c)
  ultimately show ?thesis
    using v by (simp add: chunk_header_marshal_def)
qed

lemma heartbeat_round_trip:
  assumes "length i + 8 < 65536" "tail_ok t"
  shows "heartbeat_unmarshal (heartbeat_marshal [ParamHeartbeatInfo i] @ t) = Inr [ParamHeartbeatInfo i]"
proof -
  let ?v = "param_marshal (ParamHeartbeatInfo i)"
  let ?h = "\<lparr>ch_typ = 4, ch_flags = 0, ch_value_length = of_nat (length ?v)\<rparr>"
  have m: "heartbeat_marshal [ParamHeartbeatInfo i] @ t = chunk_header_marshal ?h @ ?v @ t"
    by (simp add: heartbeat_marshal_def heartbeat_value_length_def)
  have "length ?v + 4 < 65536"
    using assms(1) by simp
  note fr = chunk_frame [OF this assms(2) refl, of 4 0]
  have b: "build_param ?v = Inr (ParamHeartbeatInfo i)"
    using build_param_marshal [of "ParamHeartbeatInfo i" "[]"] assms(1) by simp
  show ?thesis
    unfolding heartbeat_unmarshal_def m fr rbind_simps b by (simp add: chunk_header_marshal_def)
qed

lemma cookie_echo_round_trip:
  "length c + 4 < 65536 \<Longrightarrow> tail_ok t \<Longrightarrow> cookie_echo_unmarshal (cookie_echo_marshal c @ t) = Inr c"
  using chunk_frame [of c t _ 10 0] by (simp add: cookie_echo_unmarshal_def cookie_echo_marshal_def)

lemma empty_chunks_round_trip:
  assumes "tail_ok t"
  shows "cookie_ack_unmarshal (cookie_ack_marshal @ t) = Inr ()"
    and "shutdown_ack_unmarshal (shutdown_ack_marshal @ t) = Inr ()"
    and "shutdown_complete_unmarshal (shutdown_complete_marshal @ t) = Inr ()"
  using chunk_frame [of "[]" t _ 11 0] chunk_frame [of "[]" t _ 8 0] chunk_frame [of "[]" t _ 14 0] assms
  by (simp_all add: cookie_ack_unmarshal_def cookie_ack_marshal_def shutdown_ack_unmarshal_def
      shutdown_ack_marshal_def shutdown_complete_unmarshal_def shutdown_complete_marshal_def)

lemma shutdown_round_trip: "shutdown_unmarshal (shutdown_marshal tsn) = Inr tsn"
  using chunk_frame [of "put_u32 tsn" "[]" _ 7 0]
  by (simp add: shutdown_unmarshal_def shutdown_marshal_def tail_ok_def chunk_header_marshal_def)

text \<open>
  Which chunks the packet decoders read back, and what may follow them. INIT, ABORT, ERROR,
  SHUTDOWN and FORWARD TSN measure the rest of the packet instead of their own length and have
  to be the last chunk; a HEARTBEAT ACK is not decoded at all; the last parameter of an INIT
  has a value.
\<close>

primrec chunk_ok :: "chunk \<Rightarrow> bytes \<Rightarrow> bool" where
  "chunk_ok (ChunkPayloadData c) t \<longleftrightarrow>
     payload_data_value_length c + 4 < 65536 \<and> fresh_payload c \<and> tail_ok t"
| "chunk_ok (ChunkInit c) t \<longleftrightarrow>
     init_value_length c + 4 < 65536 \<and> list_all param_wf (ci_params c) \<and>
     (ci_params c = [] \<or> 0 < param_value_length (last (ci_params c))) \<and> length t < 4 \<and> set t \<subseteq> {0}"
| "chunk_ok (ChunkSelectiveAck c) t \<longleftrightarrow> selective_ack_value_length c + 4 < 65536 \<and> tail_ok t"
| "chunk_ok (ChunkHeartbeat ps) t \<longleftrightarrow>
     (\<exists>i. ps = [ParamHeartbeatInfo i] \<and> length i + 8 < 65536) \<and> tail_ok t"
| "chunk_ok (ChunkHeartbeatAck ps) t \<longleftrightarrow> False"
| "chunk_ok (ChunkAbort es) t \<longleftrightarrow> error_causes_value_length es + 4 < 65536 \<and> length t < 4 \<and> set t \<subseteq> {0}"
| "chunk_ok (ChunkShutdown tsn) t \<longleftrightarrow> t = []"
| "chunk_ok ChunkShutdownAck t \<longleftrightarrow> tail_ok t"
| "chunk_ok (ChunkError es) t \<longleftrightarrow> error_causes_value_length es + 4 < 65536 \<and> length t < 4 \<and> set t \<subseteq> {0}"
| "chunk_ok (ChunkCookieEcho c) t \<longleftrightarrow> length c + 4 < 65536 \<and> tail_ok t"
| "chunk_ok ChunkCookieAck t \<longleftrightarrow> tail_ok t"
| "chunk_ok ChunkShutdownComplete t \<longleftrightarrow> tail_ok t"
| "chunk_ok (ChunkReconfig c) t \<longleftrightarrow>
     reconfig_value_length c + 4 < 65536 \<and>
     (case rc_param_a c of None \<Rightarrow> False | Some a \<Rightarrow> param_wf a) \<and> pred_option param_wf (rc_param_b c) \<and> tail_ok t"
| "chunk_ok (ChunkForwardTsn c) t \<longleftrightarrow> forward_tsn_value_length c + 4 < 65536 \<and> t = []"

lemma chunk_marshal_hd:
  "length (chunk_header_marshal h) = 4" "hd (chunk_header_marshal h @ bs) = ch_typ h"
  by (simp_all add: chunk_header_marshal_def put_u8_def)

lemmas chunk_marshal_defs =
  payload_data_marshal_def init_marshal_def selective_ack_marshal_def heartbeat_marshal_def
  abort_marshal_def shutdown_marshal_def shutdown_ack_marshal_def error_marshal_def
  cookie_echo_marshal_def cookie_ack_marshal_def shutdown_complete_marshal_def forward_tsn_marshal_def

lemma chunk_marshal_ok:
  assumes "chunk_ok x t"
  shows "\<exists>bs. chunk_marshal x = Inr bs \<and> length bs = 4 + chunk_value_length x"
proof (cases x)
  case (ChunkReconfig c)
  then obtain a where "c = \<lparr>rc_param_a = Some a, rc_param_b = rc_param_b c\<rparr>" "param_wf a"
    using assms by (cases c) (auto split: option.splits)
  with ChunkReconfig assms show ?thesis
    using reconfig_round_trip [of c a "rc_param_b c" t] by auto
qed (use assms in \<open>auto simp: chunk_marshal_defs chunk_marshal_hd payload_data_value_length_def
    init_value_length_def selective_ack_value_length_def heartbeat_value_length_def
    forward_tsn_value_length_def length_concat_map [where k = 4]\<close>)

lemma chunk_marshal_typ: "chunk_marshal x = Inr bs \<Longrightarrow> hd (bs @ t) = chunk_typ x"
  by (cases x)
    (auto simp: chunk_marshal_defs chunk_marshal_hd payload_data_header_def Let_def
      heartbeat_ack_marshal_def reconfig_marshal_def split: if_splits option.splits)

lemma chunk_round_trip:
  assumes "chunk_ok x t" "chunk_marshal x = Inr bs"
  shows "unmarshal_chunk (hd (bs @ t)) (bs @ t) = Inr x"
proof (cases x)
  case (ChunkReconfig c)
  then obtain a where c: "c = \<lparr>rc_param_a = Some a, rc_param_b = rc_param_b c\<rparr>" "param_wf a"
    using assms by (cases c) (auto split: option.splits)
  then have "reconfig_unmarshal (bs @ t) = Inr c"
    using reconfig_round_trip [OF c, of t] ChunkReconfig assms by auto
  then show ?thesis
    unfolding chunk_marshal_typ [OF assms(2)] by (simp add: unmarshal_chunk_def ChunkReconfig)
next
  case (ChunkHeartbeat ps)
  then show ?thesis
    unfolding chunk_marshal_typ [OF assms(2)]
    using assms heartbeat_round_trip [of _ t] by (auto simp: unmarshal_chunk_def)
qed (unfold chunk_marshal_typ [OF assms(2)],
     use assms payload_data_round_trip init_round_trip selective_ack_round_trip shutdown_round_trip
       empty_chunks_round_trip cookie_echo_round_trip forward_tsn_round_trip abort_error_round_trip
     in \<open>auto simp: unmarshal_chunk_def\<close>)

interpretation chunks: tlv_codec chunk_marshal "\<lambda>raw. unmarshal_chunk (hd raw) raw" chunk_value_length chunk_ok
  by unfold_locales (auto intro: chunk_marshal_ok chunk_round_trip)

section \<open>Properties\<close>

text \<open>
   A DATA chunk whose length field promises less than the twelve bytes of its fixed fields
  makes the decoder panic: the guard compares the length of the rest of the packet.
\<close>

theorem data_chunk_panics:
  "payload_data_unmarshal [0, 3, 0, 4, 0, 0, 0, 0, 0, 0, 0, 0] = Inl Panic"
  by (simp add: payload_data_unmarshal_def chunk_header_unmarshal_def be16_def chunk_value_def
      slice_def)

text \<open>
   A FORWARD TSN chunk can only end a packet: whatever chunk follows it, the decoder takes
  the following bytes for more stream entries and rejects the packet.
\<close>

theorem forward_tsn_not_bundled:
  assumes "forward_tsn_value_length c + 4 < 65536" "4 \<le> length t"
  shows "forward_tsn_unmarshal (forward_tsn_marshal c @ t) = Inl (Err ''ErrChunkTooShort'')"
  using forward_tsn_trailing [OF assms] .

theorem forward_tsn_not_bundled_witness:
  "forward_tsn_unmarshal (forward_tsn_marshal \<lparr>ft_new_cumulative_tsn = 7, ft_streams = []\<rparr> @ cookie_ack_marshal) =
     Inl (Err ''ErrChunkTooShort'')"
  by (rule forward_tsn_not_bundled)
    (simp_all add: forward_tsn_value_length_def cookie_ack_marshal_def chunk_header_marshal_def)

end
