(* ===== verification/Payload_Queue.thy ===== *)
theory Payload_Queue
  imports Sctp_Chunks
begin

unbundle bit_operations_syntax

text \<open>
  \<^verbatim>\<open>rtc-sctp/src/queue/payload_queue.rs\<close>: the queue of DATA chunks by TSN that the association
  keeps twice, for the chunks it has received beyond the cumulative TSN and for the chunks it has
  in flight. The hash map is a partial map; the byte count is a natural number, which the
  invariant \<open>pq_inv\<close> keeps from running below zero.
\<close>

section \<open>The queue\<close>

record payload_queue =
  pq_chunk_map :: "u32 \<rightharpoonup> chunk_payload_data"
  pq_sorted :: "u32 list"
  pq_dup_tsn :: "u32 list"
  pq_n_bytes :: nat

definition pq_new :: payload_queue where
  "pq_new = \<lparr>pq_chunk_map = Map.empty, pq_sorted = [], pq_dup_tsn = [], pq_n_bytes = 0\<rparr>"

definition pq_update_sorted_keys :: "payload_queue \<Rightarrow> payload_queue" where
  "pq_update_sorted_keys q = q\<lparr>pq_sorted := sort_by sna32lt (pq_sorted q)\<rparr>"

definition pq_can_push :: "payload_queue \<Rightarrow> chunk_payload_data \<Rightarrow> u32 \<Rightarrow> bool" where
  "pq_can_push q p cumulative_tsn \<longleftrightarrow>
     \<not> (pd_tsn p \<in> dom (pq_chunk_map q) \<or> sna32lte (pd_tsn p) cumulative_tsn)"

definition pq_push_no_check :: "payload_queue \<Rightarrow> chunk_payload_data \<Rightarrow> payload_queue" where
  "pq_push_no_check q p =
     pq_update_sorted_keys
       (q\<lparr>pq_n_bytes := pq_n_bytes q + length (pd_user_data p),
          pq_sorted := pq_sorted q @ [pd_tsn p],
          pq_chunk_map := (pq_chunk_map q)(pd_tsn p \<mapsto> p)\<rparr>)"

definition pq_push :: "payload_queue \<Rightarrow> chunk_payload_data \<Rightarrow> u32 \<Rightarrow> bool \<times> payload_queue" where
  "pq_push q p cumulative_tsn =
     (let ok = (pd_tsn p \<in> dom (pq_chunk_map q)) in
      if ok \<or> sna32lte (pd_tsn p) cumulative_tsn
      then (False, q\<lparr>pq_dup_tsn := pq_dup_tsn q @ [pd_tsn p]\<rparr>)
      else
        (True, pq_update_sorted_keys
           (q\<lparr>pq_n_bytes := pq_n_bytes q + length (pd_user_data p),
              pq_sorted := pq_sorted q @ [pd_tsn p],
              pq_chunk_map := (pq_chunk_map q)(pd_tsn p \<mapsto> p)\<rparr>)))"

definition pq_pop :: "payload_queue \<Rightarrow> u32 \<Rightarrow> chunk_payload_data option \<times> payload_queue" where
  "pq_pop q tsn =
     (if pq_sorted q \<noteq> [] \<and> tsn = hd (pq_sorted q) then
        let q = q\<lparr>pq_sorted := tl (pq_sorted q)\<rparr> in
        case pq_chunk_map q tsn of
          Some c \<Rightarrow> (Some c, q\<lparr>pq_chunk_map := (pq_chunk_map q)(tsn := None),
                            pq_n_bytes := pq_n_bytes q - length (pd_user_data c)\<rparr>)
        | None \<Rightarrow> (None, q)
      else (None, q))"

definition pq_get :: "payload_queue \<Rightarrow> u32 \<Rightarrow> chunk_payload_data option" where
  "pq_get q tsn = pq_chunk_map q tsn"

text \<open>A write through \<^verbatim>\<open>get_mut\<close>.\<close>

definition pq_get_mut :: "payload_queue \<Rightarrow> u32 \<Rightarrow> (chunk_payload_data \<Rightarrow> chunk_payload_data) \<Rightarrow> payload_queue" where
  "pq_get_mut q tsn f =
     (case pq_chunk_map q tsn of
        Some c \<Rightarrow> q\<lparr>pq_chunk_map := (pq_chunk_map q)(tsn \<mapsto> f c)\<rparr>
      | None \<Rightarrow> q)"

definition pq_pop_duplicates :: "payload_queue \<Rightarrow> u32 list \<times> payload_queue" where
  "pq_pop_duplicates q = (pq_dup_tsn q, q\<lparr>pq_dup_tsn := []\<rparr>)"

definition gap_diff :: "u32 \<Rightarrow> u32 \<Rightarrow> u16" where
  "gap_diff cumulative_tsn tsn =
     (if tsn \<ge> cumulative_tsn then ucast (tsn - cumulative_tsn) else 0)"

definition gap_step ::
    "u32 \<Rightarrow> gap_ack_block \<times> gap_ack_block list \<Rightarrow> nat \<times> u32 \<Rightarrow> gap_ack_block \<times> gap_ack_block list" where
  "gap_step cumulative_tsn = (\<lambda>(b, gap_ack_blocks) (i, tsn).
     let diff = gap_diff cumulative_tsn tsn in
     if i = 0 then (\<lparr>gab_start = diff, gab_end = diff\<rparr>, gap_ack_blocks)
     else if gab_end b + 1 = diff then (b\<lparr>gab_end := gab_end b + 1\<rparr>, gap_ack_blocks)
     else (\<lparr>gab_start = diff, gab_end = diff\<rparr>, gap_ack_blocks @ [b]))"

definition pq_get_gap_ack_blocks :: "payload_queue \<Rightarrow> u32 \<Rightarrow> gap_ack_block list" where
  "pq_get_gap_ack_blocks q cumulative_tsn =
     (if pq_chunk_map q = Map.empty then []
      else
        let (b, gap_ack_blocks) =
          foldl (gap_step cumulative_tsn) (\<lparr>gab_start = 0, gab_end = 0\<rparr>, []) (enumerate 0 (pq_sorted q))
        in gap_ack_blocks @ [b])"

definition pq_mark_as_acked :: "payload_queue \<Rightarrow> u32 \<Rightarrow> nat \<times> payload_queue" where
  "pq_mark_as_acked q tsn =
     (case pq_chunk_map q tsn of
        Some c \<Rightarrow>
          let n = length (pd_user_data c);
              c = c\<lparr>pd_acked := True, pd_retransmit := False, pd_user_data := []\<rparr> in
          (n, q\<lparr>pq_n_bytes := pq_n_bytes q - n, pq_chunk_map := (pq_chunk_map q)(tsn \<mapsto> c)\<rparr>)
      | None \<Rightarrow> (0, q))"

definition pq_get_last_tsn_received :: "payload_queue \<Rightarrow> u32 option" where
  "pq_get_last_tsn_received q = (if pq_sorted q = [] then None else Some (last (pq_sorted q)))"

definition pq_mark_all_to_retransmit :: "payload_queue \<Rightarrow> payload_queue" where
  "pq_mark_all_to_retransmit q =
     q\<lparr>pq_chunk_map := (\<lambda>tsn. map_option
         (\<lambda>c. if pd_acked c \<or> pd_is_abandoned c then c else c\<lparr>pd_retransmit := True\<rparr>)
         (pq_chunk_map q tsn))\<rparr>"

definition pq_get_num_bytes :: "payload_queue \<Rightarrow> nat" where
  "pq_get_num_bytes q = pq_n_bytes q"

definition pq_len :: "payload_queue \<Rightarrow> nat" where
  "pq_len q = card (dom (pq_chunk_map q))"

definition pq_is_empty :: "payload_queue \<Rightarrow> bool" where
  "pq_is_empty q \<longleftrightarrow> pq_len q = 0"

section \<open>The invariant\<close>

definition pq_bytes :: "payload_queue \<Rightarrow> nat" where
  "pq_bytes q = sum_list (map (\<lambda>t. length (pd_user_data (the (pq_chunk_map q t)))) (pq_sorted q))"

definition pq_inv :: "u32 \<Rightarrow> payload_queue \<Rightarrow> bool" where
  "pq_inv base q \<longleftrightarrow>
     distinct (pq_sorted q) \<and> set (pq_sorted q) = dom (pq_chunk_map q) \<and>
     (\<forall>t \<in> set (pq_sorted q). tsn.window base t) \<and>
     sorted (map (\<lambda>t. unat (t - base)) (pq_sorted q)) \<and>
     (\<forall>t c. pq_chunk_map q t = Some c \<longrightarrow> pd_tsn c = t) \<and>
     pq_n_bytes q = pq_bytes q"

lemma pq_new_inv [inv_intro]: "pq_inv base pq_new"
  by (simp add: pq_inv_def pq_new_def pq_bytes_def)

lemma sum_list_same_set:
  assumes "mset ys = add_mset x (mset xs)" "x \<notin> set xs" "\<And>t. t \<in> set xs \<Longrightarrow> f t = g t"
  shows "sum_list (map f ys) = f x + (sum_list (map g xs) :: nat)"
proof -
  have "sum_list (map f ys) = sum_mset (image_mset f (mset ys))"
    by (metis mset_map sum_mset_sum_list)
  also have "\<dots> = f x + sum_list (map f xs)"
    by (simp add: assms(1) sum_mset_sum_list flip: mset_map)
  also have "map f xs = map g xs"
    using assms(3) by simp
  finally show ?thesis .
qed

lemma pq_push_no_check_inv [inv_intro]:
  assumes "pq_inv base q" "pd_tsn p \<notin> dom (pq_chunk_map q)" "tsn.window base (pd_tsn p)"
  shows "pq_inv base (pq_push_no_check q p)"
proof -
  let ?xs = "pq_sorted q @ [pd_tsn p]"
  let ?q = "pq_push_no_check q p"
  have w: "\<forall>t \<in> set ?xs. tsn.window base t"
    using assms by (auto simp: pq_inv_def)
  then have s: "pq_sorted ?q = sort_key (\<lambda>t. unat (t - base)) ?xs"
    by (simp add: pq_push_no_check_def pq_update_sorted_keys_def del: sort_by_snoc)
       (rule sort_by_sort_key [OF tsn.lt_ranked], simp)
  have fresh: "pd_tsn p \<notin> set (pq_sorted q)"
    using assms(1,2) by (simp add: pq_inv_def)
  have "pq_bytes ?q = length (pd_user_data p) + pq_bytes q"
    unfolding pq_bytes_def
    by (subst sum_list_same_set [OF _ fresh, where g = "\<lambda>t. length (pd_user_data (the (pq_chunk_map q t)))"])
      (use fresh in \<open>auto simp: pq_push_no_check_def pq_update_sorted_keys_def s\<close>)
  then show ?thesis
    using assms fresh w s
    by (auto simp: pq_inv_def pq_push_no_check_def pq_update_sorted_keys_def)
qed

lemma pq_push_eq:
  "pq_push q p cum =
     (if pq_can_push q p cum then (True, pq_push_no_check q p)
      else (False, q\<lparr>pq_dup_tsn := pq_dup_tsn q @ [pd_tsn p]\<rparr>))"
  by (simp add: pq_push_def pq_can_push_def pq_push_no_check_def)

lemma pq_inv_dup [simp]: "pq_inv base (q\<lparr>pq_dup_tsn := d\<rparr>) = pq_inv base q"
  by (simp add: pq_inv_def pq_bytes_def)

lemma pq_push_inv [inv_intro]:
  assumes "pq_inv (cum + 1) q"
  shows "pq_inv (cum + 1) (snd (pq_push q p cum))"
  using assms pq_push_no_check_inv [of "cum + 1" q p]
  by (auto simp: pq_push_eq pq_can_push_def tsn.gt_window [symmetric] tsn.gt_lte)

lemma pq_pop_hit:
  assumes inv: "pq_inv base q" and s: "pq_sorted q = t # ts"
  obtains c where "pq_chunk_map q t = Some c"
    "pq_pop q t = (Some c, q\<lparr>pq_sorted := ts, pq_chunk_map := (pq_chunk_map q)(t := None),
                             pq_n_bytes := pq_n_bytes q - length (pd_user_data c)\<rparr>)"
proof -
  have "t \<in> dom (pq_chunk_map q)"
    using inv s by (auto simp: pq_inv_def)
  then obtain c where "pq_chunk_map q t = Some c" by blast
  then show ?thesis
    using that [of c] s by (simp add: pq_pop_def)
qed

lemma pq_pop_inv [inv_intro]:
  assumes inv: "pq_inv base q"
  shows "pq_inv base (snd (pq_pop q tsn))"
proof (cases "pq_sorted q \<noteq> [] \<and> tsn = hd (pq_sorted q)")
  case True
  then obtain ts where s: "pq_sorted q = tsn # ts"
    by (cases "pq_sorted q") auto
  obtain c where c: "pq_chunk_map q tsn = Some c"
    "pq_pop q tsn = (Some c, q\<lparr>pq_sorted := ts, pq_chunk_map := (pq_chunk_map q)(tsn := None),
                             pq_n_bytes := pq_n_bytes q - length (pd_user_data c)\<rparr>)"
    using pq_pop_hit [OF inv s] .
  have ts: "sum_list (map (\<lambda>t. length (pd_user_data (the (((pq_chunk_map q)(tsn := None)) t)))) ts) =
      sum_list (map (\<lambda>t. length (pd_user_data (the (pq_chunk_map q t)))) ts)"
    using inv s by (intro arg_cong [where f = sum_list] map_cong) (auto simp: pq_inv_def)
  have "dom ((pq_chunk_map q)(tsn := None)) = set ts"
    using inv s by (auto simp: pq_inv_def)
  then show ?thesis
    using inv s c ts by (auto simp: pq_inv_def pq_bytes_def)
qed (use inv in \<open>auto simp: pq_pop_def\<close>)

lemma pq_inv_slide:
  assumes inv: "pq_inv base q" and "base \<notin> set (pq_sorted q)"
  shows "pq_inv (base + 1) q"
proof -
  have r: "unat (t - (base + 1)) = unat (t - base) - 1" if "t \<in> set (pq_sorted q)" for t
  proof -
    have "t - base \<noteq> 0"
      using that assms(2) by auto
    then show ?thesis
      using unat_minus_one [of "t - base"] by (simp add: algebra_simps)
  qed
  have "map (\<lambda>t. unat (t - (base + 1))) (pq_sorted q) = map (\<lambda>n. n - 1) (map (\<lambda>t. unat (t - base)) (pq_sorted q))"
    using r by simp
  moreover have mono: "sorted (map (\<lambda>n. n - 1) xs)" if "sorted xs" for xs :: "nat list"
    using that by (induction xs) (auto intro: diff_le_mono)
  ultimately have "sorted (map (\<lambda>t. unat (t - (base + 1))) (pq_sorted q))"
    using mono inv unfolding pq_inv_def by presburger
  moreover have "\<forall>t \<in> set (pq_sorted q). tsn.window (base + 1) t"
    using inv r by (auto simp: pq_inv_def tsn.window_def intro: le_less_trans [OF diff_le_self])
  ultimately show ?thesis
    using inv by (simp add: pq_inv_def)
qed

lemma pq_pop_shorter: "pq_pop q t = (Some c, q') \<Longrightarrow> length (pq_sorted q') < length (pq_sorted q)"
  by (auto simp: pq_pop_def Let_def split: if_splits option.splits)

lemma pq_pop_missing:
  assumes "pq_inv base q" "pq_chunk_map q t = None"
  shows "pq_pop q t = (None, q)"
proof -
  have "t \<notin> set (pq_sorted q)" using assms by (auto simp: pq_inv_def)
  then show ?thesis by (cases "pq_sorted q") (auto simp: pq_pop_def)
qed

lemma pq_pop_base:
  assumes inv: "pq_inv base q"
  shows "fst (pq_pop q base) = pq_chunk_map q base"
    and "pq_inv (base + 1) (snd (pq_pop q base))"
    and "pq_chunk_map (snd (pq_pop q base)) = (pq_chunk_map q)(base := None)"
    and "pq_dup_tsn (snd (pq_pop q base)) = pq_dup_tsn q"
proof -
  have "fst (pq_pop q base) = pq_chunk_map q base \<and> base \<notin> set (pq_sorted (snd (pq_pop q base))) \<and>
    pq_chunk_map (snd (pq_pop q base)) = (pq_chunk_map q)(base := None)"
  proof (cases "base \<in> set (pq_sorted q)")
    case True
    then obtain t ts where s: "pq_sorted q = t # ts" by (cases "pq_sorted q") auto
    have "base = t \<or> base \<in> set ts" using True s by auto
    then have "unat (t - base) \<le> unat (base - base)"
      using inv s by (fastforce simp: pq_inv_def)
    then have "t = base" by (simp add: unat_eq_zero)
    moreover obtain c where "pq_chunk_map q t = Some c"
      "pq_pop q t = (Some c, q\<lparr>pq_sorted := ts, pq_chunk_map := (pq_chunk_map q)(t := None),
                               pq_n_bytes := pq_n_bytes q - length (pd_user_data c)\<rparr>)"
      using pq_pop_hit [OF inv s] .
    ultimately show ?thesis using inv s by (auto simp: pq_inv_def)
  next
    case False
    then have "pq_chunk_map q base = None" using inv by (auto simp: pq_inv_def)
    then show ?thesis using False pq_pop_missing [OF inv] by (auto simp: fun_upd_idem)
  qed
  then show "fst (pq_pop q base) = pq_chunk_map q base" "pq_inv (base + 1) (snd (pq_pop q base))"
    "pq_chunk_map (snd (pq_pop q base)) = (pq_chunk_map q)(base := None)"
    using pq_inv_slide [OF pq_pop_inv [OF inv]] by blast+
  show "pq_dup_tsn (snd (pq_pop q base)) = pq_dup_tsn q"
    by (auto simp: pq_pop_def Let_def split: option.splits)
qed

lemma pq_values_inv:
  assumes inv: "pq_inv base q" and "dom m = dom (pq_chunk_map q)"
    and "\<And>t c. m t = Some c \<Longrightarrow> pd_tsn c = t" "n = pq_bytes (q\<lparr>pq_chunk_map := m\<rparr>)"
  shows "pq_inv base (q\<lparr>pq_n_bytes := n, pq_chunk_map := m\<rparr>)"
  using assms by (simp add: pq_inv_def pq_bytes_def)

lemma sum_list_update:
  assumes "distinct xs" "t \<in> set xs" "\<And>x. x \<noteq> t \<Longrightarrow> f x = g x" "f t \<le> (g t :: nat)"
  shows "sum_list (map f xs) = sum_list (map g xs) - (g t - f t) \<and> g t - f t \<le> sum_list (map g xs)"
  using assms(1,2)
proof (induction xs)
  case (Cons x xs)
  show ?case
  proof (cases "x = t")
    case True
    then have "sum_list (map f xs) = sum_list (map g xs)"
      using Cons.prems(1) by (intro arg_cong [where f = sum_list] map_cong) (auto intro!: assms(3))
    then show ?thesis
      using True assms(4) by simp
  next
    case False
    then show ?thesis
      using Cons assms(3) [of x] by auto
  qed
qed simp

lemma pq_mark_as_acked_inv [inv_intro]:
  assumes inv: "pq_inv base q"
  shows "pq_inv base (snd (pq_mark_as_acked q tsn)) \<and>
         pq_n_bytes (snd (pq_mark_as_acked q tsn)) + fst (pq_mark_as_acked q tsn) = pq_n_bytes q"
proof (cases "pq_chunk_map q tsn")
  case (Some c)
  let ?m = "(pq_chunk_map q)(tsn \<mapsto> c\<lparr>pd_acked := True, pd_retransmit := False, pd_user_data := []\<rparr>)"
  let ?n = "length (pd_user_data c)"
  have "distinct (pq_sorted q)" "tsn \<in> set (pq_sorted q)"
    using inv Some by (auto simp: pq_inv_def)
  then have b: "pq_bytes (q\<lparr>pq_chunk_map := ?m\<rparr>) = pq_bytes q - ?n \<and> ?n \<le> pq_bytes q"
    using sum_list_update [of "pq_sorted q" tsn "\<lambda>t. length (pd_user_data (the (?m t)))"
        "\<lambda>t. length (pd_user_data (the (pq_chunk_map q t)))"] Some
    by (simp add: pq_bytes_def)
  have "pq_inv base (q\<lparr>pq_n_bytes := pq_n_bytes q - ?n, pq_chunk_map := ?m\<rparr>)"
    by (rule pq_values_inv [OF inv]) (use inv Some b in \<open>auto simp: pq_inv_def split: if_splits\<close>)
  then show ?thesis
    using Some b inv by (simp add: pq_mark_as_acked_def Let_def) (simp add: pq_inv_def)
qed (use inv in \<open>simp add: pq_mark_as_acked_def\<close>)

lemma pq_mark_all_to_retransmit_inv [inv_intro]:
  assumes inv: "pq_inv base q"
  shows "pq_inv base (pq_mark_all_to_retransmit q)"
proof -
  let ?f = "\<lambda>c. if pd_acked c \<or> pd_is_abandoned c then c else c\<lparr>pd_retransmit := True\<rparr>"
  let ?m = "\<lambda>t. map_option ?f (pq_chunk_map q t)"
  have "length (pd_user_data (the (?m t))) = length (pd_user_data (the (pq_chunk_map q t)))"
    if "t \<in> set (pq_sorted q)" for t
    using that inv by (auto simp: pq_inv_def)
  then have "pq_bytes (q\<lparr>pq_chunk_map := ?m\<rparr>) = pq_bytes q"
    unfolding pq_bytes_def by (intro arg_cong [where f = sum_list] map_cong) simp_all
  then have "pq_inv base (q\<lparr>pq_n_bytes := pq_n_bytes q, pq_chunk_map := ?m\<rparr>)"
    by (intro pq_values_inv [OF inv]) (use inv in \<open>auto simp: pq_inv_def dom_def split: if_splits\<close>)
  then show ?thesis
    by (simp add: pq_mark_all_to_retransmit_def)
qed

lemma pq_get_mut_inv [inv_intro]:
  assumes inv: "pq_inv base q"
    and "\<And>c. pd_tsn (f c) = pd_tsn c" "\<And>c. pd_user_data (f c) = pd_user_data c"
  shows "pq_inv base (pq_get_mut q tsn f)"
proof (cases "pq_chunk_map q tsn")
  case (Some c)
  let ?m = "(pq_chunk_map q)(tsn \<mapsto> f c)"
  have "pq_bytes (q\<lparr>pq_chunk_map := ?m\<rparr>) = pq_bytes q"
    unfolding pq_bytes_def using Some assms(3) by (intro arg_cong [where f = sum_list] map_cong) simp_all
  then have "pq_inv base (q\<lparr>pq_n_bytes := pq_n_bytes q, pq_chunk_map := ?m\<rparr>)"
    by (intro pq_values_inv [OF inv]) (use inv assms Some in \<open>auto simp: pq_inv_def split: if_splits\<close>)
  then show ?thesis
    using Some by (simp add: pq_get_mut_def)
qed (use inv in \<open>simp add: pq_get_mut_def\<close>)

section \<open>TSNs by their index\<close>

definition tsn_at :: "u32 \<Rightarrow> nat \<Rightarrow> u32" where
  "tsn_at t0 k = t0 + of_nat k"

lemma tsn_at_Suc: "tsn_at t0 k + 1 = tsn_at t0 (Suc k)"
  by (simp add: tsn_at_def)

lemma tsn_at_diff: "n \<le> k \<Longrightarrow> k < n + 4294967296 \<Longrightarrow> unat (tsn_at t0 k - tsn_at t0 n) = k - n"
proof -
  assume "n \<le> k" "k < n + 4294967296"
  then have "tsn_at t0 k - tsn_at t0 n = of_nat (k - n)" "k - n < 4294967296"
    by (auto simp: tsn_at_def of_nat_diff)
  then show ?thesis using unat_of_nat32 by (simp only:)
qed

lemma tsn_at_eq:
  assumes "j < 2147483648" "k < 2147483648"
  shows "tsn_at t0 j = tsn_at t0 k \<longleftrightarrow> j = k"
proof
  assume eq: "tsn_at t0 j = tsn_at t0 k"
  have "j - 0 = unat (tsn_at t0 j - tsn_at t0 0)" using assms(1) by (intro tsn_at_diff [symmetric]) simp_all
  also have "\<dots> = k - 0" unfolding eq using assms(2) by (intro tsn_at_diff) simp_all
  finally show "j = k" by simp
qed simp

lemma tsn_at_remove:
  assumes "\<forall>k \<in> A. k < 2147483648" "n < 2147483648"
  shows "tsn_at t0 ` (A - {n}) = tsn_at t0 ` A - {tsn_at t0 n}"
proof -
  have "tsn_at t0 k = tsn_at t0 n \<longleftrightarrow> k = n" if "k \<in> A" for k
    using assms(1) that by (intro tsn_at_eq assms(2)) simp
  then show ?thesis by auto
qed

section \<open>Gap ack blocks\<close>

text \<open>The loop of \<^verbatim>\<open>get_gap_ack_blocks\<close> past its first round, with the blocks in reading order.\<close>

fun gap_runs :: "gap_ack_block \<Rightarrow> u16 list \<Rightarrow> gap_ack_block list" where
  "gap_runs b [] = [b]"
| "gap_runs b (d # ds) =
     (if gab_end b + 1 = d then gap_runs (b\<lparr>gab_end := d\<rparr>) ds
      else b # gap_runs \<lparr>gab_start = d, gab_end = d\<rparr> ds)"

lemma foldl_gap_step:
  "0 < n \<Longrightarrow>
   (let (b', bs') = foldl (gap_step cum) (b, bs) (enumerate n ts) in bs' @ [b']) =
     bs @ gap_runs b (map (gap_diff cum) ts)"
proof (induction ts arbitrary: n b bs)
  case (Cons t ts)
  show ?case
    using Cons.IH [of "Suc n"] Cons.prems by (simp add: gap_step_def Let_def)
qed simp

lemma pq_get_gap_ack_blocks_runs:
  assumes "pq_inv base q"
  shows "pq_get_gap_ack_blocks q cum =
     (case map (gap_diff cum) (pq_sorted q) of
        [] \<Rightarrow> []
      | d # ds \<Rightarrow> gap_runs \<lparr>gab_start = d, gab_end = d\<rparr> ds)"
proof (cases "pq_sorted q")
  case Nil
  then show ?thesis
    using assms by (auto simp: pq_get_gap_ack_blocks_def pq_inv_def dom_eq_empty_conv [symmetric])
next
  case (Cons t ts)
  then have "pq_chunk_map q \<noteq> Map.empty"
    using assms by (auto simp: pq_inv_def)
  then show ?thesis
    using foldl_gap_step [of 1 cum "\<lparr>gab_start = gap_diff cum t, gab_end = gap_diff cum t\<rparr>" "[]" ts] Cons
    by (simp add: pq_get_gap_ack_blocks_def gap_step_def Let_def)
qed

definition gap_range :: "gap_ack_block \<Rightarrow> nat set" where
  "gap_range b = {unat (gab_start b)..unat (gab_end b)}"

lemma unat_add1:
  fixes a d :: "'a::len word"
  assumes "a < d"
  shows "unat (a + 1) = Suc (unat a)"
proof -
  have "unat d < 2 ^ LENGTH('a)"
    by (rule unsigned_less)
  then have "Suc (unat a) < 2 ^ LENGTH('a)"
    using assms unfolding word_less_nat_alt by linarith
  then show ?thesis
    using unat_word_ariths(1) [of a 1] by simp
qed

lemma gap_runs_spec:
  assumes "sorted_wrt (<) (gab_end b # ds)" "gab_start b \<le> gab_end b"
  shows "\<Union> (gap_range ` set (gap_runs b ds)) = gap_range b \<union> unat ` set ds \<and>
         sorted_wrt (\<lambda>x y. Suc (unat (gab_end x)) < unat (gab_start y)) (gap_runs b ds) \<and>
         (\<forall>x \<in> set (gap_runs b ds). gab_start b \<le> gab_start x \<and> gab_start x \<le> gab_end x)"
  using assms
proof (induction ds arbitrary: b)
  case (Cons d ds)
  have lt: "gab_end b < d"
    using Cons.prems(1) by simp
  have s: "unat (gab_end b + 1) = Suc (unat (gab_end b))"
    using unat_add1 [OF lt] .
  show ?case
  proof (cases "gab_end b + 1 = d")
    case True
    have "gap_range (b\<lparr>gab_end := d\<rparr>) = gap_range b \<union> {unat d}"
      using s True Cons.prems(2) by (auto simp: gap_range_def word_le_nat_alt)
    then show ?thesis
      using True Cons.IH [of "b\<lparr>gab_end := d\<rparr>"] Cons.prems lt by simp
  next
    case False
    have far: "Suc (unat (gab_end b)) < unat d"
      using False lt s by (metis Suc_lessI word_less_nat_alt word_unat_eq_iff)
    note IH = Cons.IH [of "\<lparr>gab_start = d, gab_end = d\<rparr>"]
    have "Suc (unat (gab_end b)) < unat (gab_start x) \<and> gab_start b \<le> gab_start x"
      if "d \<le> gab_start x" for x
      using that far Cons.prems(2) lt by (auto simp: word_le_nat_alt word_less_nat_alt)
    then show ?thesis
      using False IH Cons.prems by (auto simp: gap_range_def)
  qed
qed (simp add: gap_range_def)


lemma pq_inv_strict:
  assumes "pq_inv base q"
  shows "sorted_wrt (\<lambda>s t. unat (s - base) < unat (t - base)) (pq_sorted q)"
proof -
  let ?r = "\<lambda>t. unat (t - base)"
  have "inj ?r"
    by (rule injI) (metis diff_add_cancel word_unat_eq_iff)
  then have "sorted (map ?r (pq_sorted q))" "distinct (map ?r (pq_sorted q))"
    using assms by (auto simp: pq_inv_def distinct_map intro: inj_on_subset)
  then have "sorted_wrt (<) (map ?r (pq_sorted q))"
    by (simp add: strict_sorted_iff)
  then show ?thesis
    by (simp add: sorted_wrt_map)
qed

lemma gap_diffs_sorted:
  assumes inv: "pq_inv (cum + 1) q"
    and near: "\<forall>t \<in> dom (pq_chunk_map q). cum \<le> t \<and> unat (t - cum) < 65536"
  shows "sorted_wrt (<) (map (gap_diff cum) (pq_sorted q))"
    and "t \<in> set (pq_sorted q) \<Longrightarrow> unat (gap_diff cum t) = unat (t - cum)"
proof -
  have d: "unat (gap_diff cum t) = unat (t - cum)" if "t \<in> set (pq_sorted q)" for t
    using that near inv by (simp add: gap_diff_def pq_inv_def unsigned_ucast_eq unsigned_take_bit_eq take_bit_nat_eq_self)
  then show "t \<in> set (pq_sorted q) \<Longrightarrow> unat (gap_diff cum t) = unat (t - cum)" .
  have r: "unat (t - cum) = Suc (unat (t - (cum + 1)))" if "t \<in> set (pq_sorted q)" for t
  proof -
    have "t \<noteq> cum"
      using that inv tsn.gt_window [of t cum] by (auto simp: pq_inv_def tsn.gt_lte tsn.lte_lt)
    then show ?thesis
      using unat_minus_one [of "t - cum"] unat_gt_0 [of "t - cum"] by (simp add: algebra_simps)
  qed
  have "sorted_wrt (\<lambda>s t. gap_diff cum s < gap_diff cum t) (pq_sorted q)"
    by (rule sorted_wrt_mono_rel [OF _ pq_inv_strict [OF inv]]) (simp add: word_less_nat_alt d r)
  then show "sorted_wrt (<) (map (gap_diff cum) (pq_sorted q))"
    by (simp add: sorted_wrt_map)
qed

lemma gap_blocks_ranges:
  assumes inv: "pq_inv (cum + 1) q"
    and near: "\<forall>t \<in> dom (pq_chunk_map q). cum \<le> t \<and> unat (t - cum) < 65536"
  shows "\<Union> (gap_range ` set (pq_get_gap_ack_blocks q cum)) = (\<lambda>t. unat (t - cum)) ` dom (pq_chunk_map q) \<and>
         sorted_wrt (\<lambda>x y. Suc (unat (gab_end x)) < unat (gab_start y)) (pq_get_gap_ack_blocks q cum) \<and>
         (\<forall>x \<in> set (pq_get_gap_ack_blocks q cum). gab_start x \<le> gab_end x)"
proof (cases "pq_sorted q")
  case Nil
  then show ?thesis
    using inv by (simp add: pq_get_gap_ack_blocks_runs [OF inv] pq_inv_def)
next
  case (Cons t ts)
  let ?d = "gap_diff cum"
  have dom: "dom (pq_chunk_map q) = set (t # ts)"
    using inv Cons by (simp add: pq_inv_def)
  have s: "sorted_wrt (<) (?d t # map ?d ts)"
    using gap_diffs_sorted(1) [OF assms] Cons by simp
  have "\<And>u. u \<in> set (t # ts) \<Longrightarrow> unat (?d u) = unat (u - cum)"
    using gap_diffs_sorted(2) [OF assms] Cons by simp
  then have "(\<lambda>u. unat (u - cum)) ` set (t # ts) = insert (unat (?d t)) (unat ` set (map ?d ts))"
    by (force simp: image_iff)
  then show ?thesis
    using gap_runs_spec [of "\<lparr>gab_start = ?d t, gab_end = ?d t\<rparr>" "map ?d ts"] s Cons
    unfolding pq_get_gap_ack_blocks_runs [OF inv] dom by (simp add: gap_range_def)
qed

section \<open>Runs of pushes\<close>

definition pq_push_all :: "u32 \<Rightarrow> payload_queue \<Rightarrow> chunk_payload_data list \<Rightarrow> payload_queue" where
  "pq_push_all cum = foldl (\<lambda>q p. snd (pq_push q p cum))"

lemma pq_push_all_inv: "pq_inv (cum + 1) q \<Longrightarrow> pq_inv (cum + 1) (pq_push_all cum q ps)"
  unfolding pq_push_all_def by (induction ps arbitrary: q) (auto intro: pq_push_inv)

lemma pq_push_map:
  "pq_chunk_map (snd (pq_push q p cum)) =
     (if pq_can_push q p cum then (pq_chunk_map q)(pd_tsn p \<mapsto> p) else pq_chunk_map q)"
  by (simp add: pq_push_eq pq_push_no_check_def pq_update_sorted_keys_def)

lemma pq_push_all_map:
  "pq_chunk_map (pq_push_all cum q ps) t =
     (case pq_chunk_map q t of
        Some c \<Rightarrow> Some c
      | None \<Rightarrow> if sna32gt t cum then find (\<lambda>p. pd_tsn p = t) ps else None)"
proof (induction ps arbitrary: q)
  case (Cons p ps)
  have "pq_push_all cum q (p # ps) = pq_push_all cum (snd (pq_push q p cum)) ps"
    by (simp add: pq_push_all_def)
  then show ?case
    using Cons.IH [of "snd (pq_push q p cum)"]
    by (auto simp: pq_push_map pq_can_push_def tsn.gt_lte split: option.splits)
qed (auto simp: pq_push_all_def split: option.splits)

lemma pq_push_all_dups:
  assumes "pq_inv (cum + 1) q"
  shows "length (pq_dup_tsn (pq_push_all cum q ps)) + length (pq_sorted (pq_push_all cum q ps)) =
         length (pq_dup_tsn q) + length (pq_sorted q) + length ps"
  using assms
proof (induction ps arbitrary: q)
  case (Cons p ps)
  have e: "pq_push_all cum q (p # ps) = pq_push_all cum (snd (pq_push q p cum)) ps"
    by (simp add: pq_push_all_def)
  show ?case
    unfolding e Cons.IH [OF pq_push_inv [OF Cons.prems]]
    by (simp add: pq_push_eq pq_push_no_check_def pq_update_sorted_keys_def del: sort_by_snoc)
qed (simp add: pq_push_all_def)

lemma pq_inv_sorted_wrt:
  assumes "pq_inv base q"
  shows "sorted_wrt sna32lt (pq_sorted q)"
  by (rule sorted_wrt_mono_rel [OF _ pq_inv_strict [OF assms]])
    (use assms in \<open>simp add: pq_inv_def tsn.lt_window [of base]\<close>)


section \<open>Properties\<close>


text \<open>
  C32. The gap ack blocks of a SACK describe the receive queue exactly: below the wrap of the TSN
  and within the reach of the 16-bit offsets, the TSNs the blocks acknowledge are the TSNs held,
  the blocks come in ascending order, and a missing TSN lies between any two of them.
\<close>

theorem gap_acks_exact:
  assumes "pq_inv (cum + 1) q"
    and "\<forall>t \<in> dom (pq_chunk_map q). cum \<le> t \<and> unat (t - cum) < 65536"
  shows "{cum + of_nat k |k. \<exists>b \<in> set (pq_get_gap_ack_blocks q cum).
            unat (gab_start b) \<le> k \<and> k \<le> unat (gab_end b)} = dom (pq_chunk_map q) \<and>
         sorted_wrt (\<lambda>x y. Suc (unat (gab_end x)) < unat (gab_start y)) (pq_get_gap_ack_blocks q cum) \<and>
         (\<forall>b \<in> set (pq_get_gap_ack_blocks q cum). gab_start b \<le> gab_end b)"
proof -
  note r = gap_blocks_ranges [OF assms]
  have "{cum + of_nat k |k. \<exists>b \<in> set (pq_get_gap_ack_blocks q cum). unat (gab_start b) \<le> k \<and> k \<le> unat (gab_end b)} =
      (\<lambda>k. cum + of_nat k) ` \<Union> (gap_range ` set (pq_get_gap_ack_blocks q cum))"
    unfolding gap_range_def by (fastforce simp: image_iff)
  also have "\<dots> = dom (pq_chunk_map q)"
    using r by (simp add: image_image)
  finally show ?thesis
    using r by blast
qed

theorem gap_acks_exact_witness:
  "pq_get_gap_ack_blocks (pq_push_all 10 pq_new (map (\<lambda>t. pd_default\<lparr>pd_tsn := t\<rparr>) [14, 12, 13])) 10 =
     [\<lparr>gab_start = 2, gab_end = 4\<rparr>] \<and>
   {10 + of_nat k |k. 2 \<le> k \<and> k \<le> 4} = ({12, 13, 14} :: u32 set)"
proof -
  let ?q = "pq_push_all 10 pq_new (map (\<lambda>t. pd_default\<lparr>pd_tsn := t\<rparr>) [14, 12, 13])"
  have q: "pq_sorted ?q = [12, 13, 14]" "dom (pq_chunk_map ?q) = {12, 13, 14}"
    "pq_chunk_map ?q \<noteq> Map.empty"
    by (auto simp: pq_push_all_def pq_push_def pq_new_def pd_default_def pq_update_sorted_keys_def
        sna_dist32 sna32lte_def sort_by_def insert_by_def Let_def unat_minus split: if_splits)
  have b: "pq_get_gap_ack_blocks ?q 10 = [\<lparr>gab_start = 2, gab_end = 4\<rparr>]"
    using q by (simp add: pq_get_gap_ack_blocks_def gap_step_def gap_diff_def Let_def)
  have "pq_inv (10 + 1) ?q"
    by (rule pq_push_all_inv [OF pq_new_inv])
  from gap_acks_exact [OF this] q b show ?thesis
    by simp
qed

text \<open>
  Where the TSN wraps the gap ack blocks are wrong: the offset is computed after a plain
  comparison, so with the cumulative TSN at the top of the number space the received TSNs 0 and
  1, two and three beyond it, are reported as two blocks at offset 0.
\<close>

theorem gap_acks_wrong_at_wrap:
  "pq_get_gap_ack_blocks
     (pq_push_all 4294967294 pq_new [pd_default\<lparr>pd_tsn := 0\<rparr>, pd_default\<lparr>pd_tsn := 1\<rparr>]) 4294967294 =
   [\<lparr>gab_start = 0, gab_end = 0\<rparr>, \<lparr>gab_start = 0, gab_end = 0\<rparr>]"
  by (simp add: pq_push_all_def pq_push_def pq_new_def pd_default_def pq_update_sorted_keys_def
      sna_dist32 sna32lte_def sort_by_def insert_by_def Let_def unat_minus pq_get_gap_ack_blocks_def gap_step_def
      gap_diff_def word_le_nat_alt)

text \<open>
   \<^verbatim>\<open>pop\<close> hands out the oldest chunk only: it returns a chunk exactly when the TSN asked for
  is held and precedes every other TSN in the queue, and then removes that chunk and its bytes;
  otherwise the queue is unchanged.
\<close>

theorem pq_pop_oldest:
  assumes "pq_inv base q"
  shows "case pq_pop q t of
           (Some c, q') \<Rightarrow>
             pq_get q t = Some c \<and> (\<forall>s. pq_get q s \<noteq> None \<and> s \<noteq> t \<longrightarrow> sna32lt t s) \<and>
             pq_get q' = (pq_get q)(t := None) \<and>
             pq_get_num_bytes q' + length (pd_user_data c) = pq_get_num_bytes q \<and> pq_inv base q'
         | (None, q') \<Rightarrow>
             q' = q \<and> (pq_get q t = None \<or> (\<exists>s. pq_get q s \<noteq> None \<and> sna32lt s t))"
proof (cases "pq_sorted q \<noteq> [] \<and> t = hd (pq_sorted q)")
  case True
  then obtain ts where s: "pq_sorted q = t # ts"
    by (cases "pq_sorted q") auto
  obtain c where c: "pq_chunk_map q t = Some c"
    "pq_pop q t = (Some c, q\<lparr>pq_sorted := ts, pq_chunk_map := (pq_chunk_map q)(t := None),
                             pq_n_bytes := pq_n_bytes q - length (pd_user_data c)\<rparr>)"
    using pq_pop_hit [OF assms s] .
  have "length (pd_user_data c) \<le> pq_n_bytes q" "\<forall>u \<in> dom (pq_chunk_map q). u \<noteq> t \<longrightarrow> sna32lt t u"
    using assms s c pq_inv_sorted_wrt [OF assms] by (auto simp: pq_inv_def pq_bytes_def)
  then show ?thesis
    using c pq_pop_inv [OF assms, of t] by (auto simp: pq_get_def pq_get_num_bytes_def)
next
  case False
  then have p: "pq_pop q t = (None, q)"
    by (auto simp: pq_pop_def)
  have "\<exists>s. pq_get q s \<noteq> None \<and> sna32lt s t" if "pq_get q t \<noteq> None"
  proof -
    have "t \<in> set (pq_sorted q)"
      using that assms by (auto simp: pq_inv_def pq_get_def)
    then obtain u us where u: "pq_sorted q = u # us" "t \<in> set us"
      using False by (cases "pq_sorted q") auto
    moreover have "u \<in> dom (pq_chunk_map q)"
      using assms u by (simp add: pq_inv_def) blast
    ultimately show ?thesis
      using pq_inv_sorted_wrt [OF assms] by (auto simp: pq_get_def)
  qed
  then have "pq_get q t = None \<or> (\<exists>s. pq_get q s \<noteq> None \<and> sna32lt s t)"
    by blast
  then show ?thesis
    by (simp add: p)
qed

theorem pq_pop_oldest_witness:
  "fst (pq_pop (pq_push_all 10 pq_new [pd_default\<lparr>pd_tsn := 12\<rparr>]) 12) = Some (pd_default\<lparr>pd_tsn := 12\<rparr>) \<and>
   (case pq_pop (pq_push_all 10 pq_new [pd_default\<lparr>pd_tsn := 12\<rparr>]) 12 of
      (Some c, q') \<Rightarrow> pq_inv 11 q' | (None, q') \<Rightarrow> False)"
proof -
  let ?q = "pq_push_all 10 pq_new [pd_default\<lparr>pd_tsn := 12\<rparr>]"
  have inv: "pq_inv 11 ?q"
    using pq_push_all_inv [OF pq_new_inv, of 10] by simp
  have f: "fst (pq_pop ?q 12) = Some (pd_default\<lparr>pd_tsn := 12\<rparr>)"
    by (simp add: pq_push_all_def pq_push_def pq_new_def pq_update_sorted_keys_def sna_dist32
        sna32lte_def pd_default_def sort_by_def insert_by_def pq_pop_def Let_def)
  show ?thesis
    using pq_pop_oldest [OF inv, of 12] f by (cases "pq_pop ?q 12") auto
qed

end
