(* ===== verification/Pending_Queue.thy ===== *)
theory Pending_Queue
  imports Payload_Queue
begin

text \<open>
  \<^verbatim>\<open>rtc-sctp/src/queue/pending_queue.rs\<close>: the DATA chunks that wait for the congestion window, one
  queue for unordered and one for ordered messages. Once the first fragment of a message has been
  taken, \<^verbatim>\<open>selected\<close> keeps to its queue until the last one; the lemmas show that this is enough
  for the messages never to be interleaved.
\<close>

section \<open>The queue\<close>

record pending_queue =
  pn_unordered_queue :: "chunk_payload_data list"
  pn_ordered_queue :: "chunk_payload_data list"
  pn_queue_len :: nat
  pn_n_bytes :: nat
  pn_selected :: bool
  pn_unordered_is_selected :: bool

definition pn_new :: pending_queue where
  "pn_new = \<lparr>pn_unordered_queue = [], pn_ordered_queue = [], pn_queue_len = 0, pn_n_bytes = 0,
             pn_selected = False, pn_unordered_is_selected = False\<rparr>"

definition pn_push :: "pending_queue \<Rightarrow> chunk_payload_data \<Rightarrow> pending_queue" where
  "pn_push q c =
     (let q = q\<lparr>pn_n_bytes := pn_n_bytes q + length (pd_user_data c)\<rparr>;
          q = (if pd_unordered c then q\<lparr>pn_unordered_queue := pn_unordered_queue q @ [c]\<rparr>
               else q\<lparr>pn_ordered_queue := pn_ordered_queue q @ [c]\<rparr>)
      in q\<lparr>pn_queue_len := pn_queue_len q + 1\<rparr>)"

fun front :: "'a list \<Rightarrow> 'a option" where
  "front [] = None"
| "front (x # xs) = Some x"

definition pn_peek :: "pending_queue \<Rightarrow> chunk_payload_data option" where
  "pn_peek q =
     (if pn_selected q then
        (if pn_unordered_is_selected q then front (pn_unordered_queue q)
         else front (pn_ordered_queue q))
      else
        let c = front (pn_unordered_queue q) in
        if c \<noteq> None then c else front (pn_ordered_queue q))"

definition pn_pop :: "pending_queue \<Rightarrow> bool \<Rightarrow> bool \<Rightarrow> chunk_payload_data option \<times> pending_queue" where
  "pn_pop q beginning_fragment unordered =
     (if \<not> pn_selected q \<and> \<not> beginning_fragment then (None, q)
      else
        let (popped, q) =
          (if pn_selected q then
             let (popped, q) =
               (if pn_unordered_is_selected q
                then (front (pn_unordered_queue q), q\<lparr>pn_unordered_queue := tl (pn_unordered_queue q)\<rparr>)
                else (front (pn_ordered_queue q), q\<lparr>pn_ordered_queue := tl (pn_ordered_queue q)\<rparr>))
             in case popped of
                  Some p \<Rightarrow> (popped, if pd_ending_fragment p then q\<lparr>pn_selected := False\<rparr> else q)
                | None \<Rightarrow> (popped, q)
           else if unordered then
             let (popped, q) =
               (front (pn_unordered_queue q), q\<lparr>pn_unordered_queue := tl (pn_unordered_queue q)\<rparr>)
             in case popped of
                  Some p \<Rightarrow>
                    (popped, if \<not> pd_ending_fragment p
                             then q\<lparr>pn_selected := True, pn_unordered_is_selected := True\<rparr> else q)
                | None \<Rightarrow> (popped, q)
           else
             let (popped, q) =
               (front (pn_ordered_queue q), q\<lparr>pn_ordered_queue := tl (pn_ordered_queue q)\<rparr>)
             in case popped of
                  Some p \<Rightarrow>
                    (popped, if \<not> pd_ending_fragment p
                             then q\<lparr>pn_selected := True, pn_unordered_is_selected := False\<rparr> else q)
                | None \<Rightarrow> (popped, q))
        in case popped of
             Some p \<Rightarrow>
               (popped, q\<lparr>pn_n_bytes := pn_n_bytes q - length (pd_user_data p),
                          pn_queue_len := pn_queue_len q - 1\<rparr>)
           | None \<Rightarrow> (popped, q))"

definition pn_get_num_bytes :: "pending_queue \<Rightarrow> nat" where
  "pn_get_num_bytes q = pn_n_bytes q"

definition pn_len :: "pending_queue \<Rightarrow> nat" where
  "pn_len q = pn_queue_len q"

definition pn_is_empty :: "pending_queue \<Rightarrow> bool" where
  "pn_is_empty q \<longleftrightarrow> pn_len q = 0"

section \<open>Messages\<close>

text \<open>
  The fragments of one message carry the same stream, the same stream sequence number and the
  same unordered flag. \<open>framed\<close> is the automaton that reads a sequence of chunks and knows the
  message it is inside of; it rejects a sequence in which two messages are interleaved.
\<close>

type_synonym message_key = "bool \<times> u16 \<times> u16"

definition message_key :: "chunk_payload_data \<Rightarrow> message_key" where
  "message_key c = (pd_unordered c, pd_stream_identifier c, pd_stream_sequence_number c)"

fun framed :: "message_key option \<Rightarrow> chunk_payload_data list \<Rightarrow> message_key option option" where
  "framed s [] = Some s"
| "framed s (c # cs) =
     (if (case s of None \<Rightarrow> pd_beginning_fragment c
          | Some k \<Rightarrow> \<not> pd_beginning_fragment c \<and> message_key c = k)
      then framed (if pd_ending_fragment c then None else Some (message_key c)) cs
      else None)"

definition message :: "chunk_payload_data list \<Rightarrow> bool" where
  "message m \<longleftrightarrow> m \<noteq> [] \<and> framed None m = Some None \<and> (\<forall>c \<in> set m. pd_unordered c = pd_unordered (hd m))"

lemma framed_append: "framed s (xs @ ys) = Option.bind (framed s xs) (\<lambda>s. framed s ys)"
  by (induction s xs rule: framed.induct) auto

section \<open>Runs of the sender\<close>

text \<open>
  What the association does with the queue: it pushes all the fragments of a message, and it
  takes the chunk it has peeked.
\<close>

datatype pending_op = Send "chunk_payload_data list" | Take

fun pn_op :: "pending_queue \<times> chunk_payload_data list \<Rightarrow> pending_op \<Rightarrow> pending_queue \<times> chunk_payload_data list" where
  "pn_op (q, out) (Send m) = (foldl pn_push q m, out)"
| "pn_op (q, out) Take =
     (case pn_peek q of
        None \<Rightarrow> (q, out)
      | Some c \<Rightarrow>
          let (popped, q) = pn_pop q (pd_beginning_fragment c) (pd_unordered c) in
          (case popped of None \<Rightarrow> (q, out) | Some p \<Rightarrow> (q, out @ [p])))"

definition bytes_of :: "chunk_payload_data list \<Rightarrow> nat" where
  "bytes_of cs = sum_list (map (\<lambda>c. length (pd_user_data c)) cs)"

lemma bytes_of_simps [simp]:
  "bytes_of [] = 0" "bytes_of (c # cs) = length (pd_user_data c) + bytes_of cs"
  "bytes_of (xs @ ys) = bytes_of xs + bytes_of ys"
  by (simp_all add: bytes_of_def)

text \<open>
  The state of the automaton after the chunks taken so far says which queue is selected, and
  continuing from it each queue is a sequence of whole messages.
\<close>

definition pn_inv :: "message_key option \<Rightarrow> pending_queue \<Rightarrow> bool" where
  "pn_inv s q \<longleftrightarrow>
     (pn_selected q \<longleftrightarrow> s \<noteq> None) \<and> (\<forall>k. s = Some k \<longrightarrow> fst k = pn_unordered_is_selected q) \<and>
     framed (if pn_selected q \<and> pn_unordered_is_selected q then s else None) (pn_unordered_queue q) = Some None \<and>
     framed (if pn_selected q \<and> \<not> pn_unordered_is_selected q then s else None) (pn_ordered_queue q) = Some None \<and>
     (\<forall>c \<in> set (pn_unordered_queue q). pd_unordered c) \<and>
     (\<forall>c \<in> set (pn_ordered_queue q). \<not> pd_unordered c) \<and>
     pn_queue_len q = length (pn_unordered_queue q) + length (pn_ordered_queue q) \<and>
     pn_n_bytes q = bytes_of (pn_unordered_queue q) + bytes_of (pn_ordered_queue q)"

lemma pn_new_inv [inv_intro]: "pn_inv None pn_new"
  by (simp add: pn_inv_def pn_new_def)

lemma foldl_pn_push:
  "\<forall>c \<in> set m. pd_unordered c = u \<Longrightarrow>
   foldl pn_push q m =
     q\<lparr>pn_unordered_queue := pn_unordered_queue q @ (if u then m else []),
       pn_ordered_queue := pn_ordered_queue q @ (if u then [] else m),
       pn_queue_len := pn_queue_len q + length m,
       pn_n_bytes := pn_n_bytes q + bytes_of m\<rparr>"
  by (induction m arbitrary: q) (auto simp: pn_push_def Let_def)

lemma pn_send_inv [inv_intro]:
  assumes "pn_inv s q" "message m"
  shows "pn_inv s (foldl pn_push q m)"
proof -
  from assms(2) obtain u where u: "\<forall>c \<in> set m. pd_unordered c = u" "framed None m = Some None"
    unfolding message_def by blast
  show ?thesis
    unfolding foldl_pn_push [OF u(1)] using assms(1) u
    by (cases u) (auto simp: pn_inv_def framed_append)
qed

lemma pn_peek_None:
  assumes "pn_inv s q"
  shows "pn_peek q = None \<longleftrightarrow> pn_is_empty q"
proof (cases s)
  case None
  with assms show ?thesis
    by (cases "pn_unordered_queue q"; cases "pn_ordered_queue q")
       (simp_all add: pn_inv_def pn_peek_def pn_is_empty_def pn_len_def)
next
  case (Some k)
  with assms show ?thesis
    by (cases "pn_unordered_is_selected q"; cases "pn_unordered_queue q"; cases "pn_ordered_queue q")
       (simp_all add: pn_inv_def pn_peek_def pn_is_empty_def pn_len_def)
qed

lemma pn_peek_Some:
  assumes "pn_inv s q" "pn_peek q = Some c"
  obtains xs where "pd_unordered c" "pn_unordered_queue q = c # xs" "pn_selected q \<longrightarrow> pn_unordered_is_selected q"
  | xs where "\<not> pd_unordered c" "pn_ordered_queue q = c # xs" "pn_selected q \<longrightarrow> \<not> pn_unordered_is_selected q"
proof -
  have front: "front xs = Some c \<longleftrightarrow> (\<exists>ys. xs = c # ys)" for xs :: "chunk_payload_data list"
    by (cases xs) auto
  from assms(2) consider xs where "pn_unordered_queue q = c # xs" "pn_selected q \<longrightarrow> pn_unordered_is_selected q"
    | xs where "pn_ordered_queue q = c # xs" "pn_selected q \<longrightarrow> \<not> pn_unordered_is_selected q"
    by (auto simp: pn_peek_def front Let_def split: if_splits)
  then show thesis
  proof cases
    case (1 xs)
    with assms(1) have "pd_unordered c" by (auto simp: pn_inv_def)
    with 1 that(1) show thesis by blast
  next
    case (2 xs)
    with assms(1) have "\<not> pd_unordered c" by (auto simp: pn_inv_def)
    with 2 that(2) show thesis by blast
  qed
qed

definition after :: "chunk_payload_data \<Rightarrow> message_key option" where
  "after c = (if pd_ending_fragment c then None else Some (message_key c))"

lemma fst_message_key [simp]: "fst (message_key c) = pd_unordered c"
  by (simp add: message_key_def)

lemma pn_take_frame:
  assumes "pn_inv s q" "pn_peek q = Some c"
  shows "framed s [c] = Some (after c) \<and> (pd_beginning_fragment c \<longleftrightarrow> \<not> pn_selected q) \<and>
    (pn_selected q \<longrightarrow> pn_unordered_is_selected q = pd_unordered c)"
  using assms
proof (cases rule: pn_peek_Some)
  case (1 xs)
  with assms(1) show ?thesis
    by (cases s) (auto simp: pn_inv_def after_def split: if_splits)
next
  case (2 xs)
  with assms(1) show ?thesis
    by (cases s) (auto simp: pn_inv_def after_def split: if_splits)
qed

lemma pn_take_pop:
  assumes "pn_inv s q" "pn_peek q = Some c"
  shows "pn_pop q (pd_beginning_fragment c) (pd_unordered c) =
    (Some c, q\<lparr>pn_unordered_queue := (if pd_unordered c then tl else id) (pn_unordered_queue q),
      pn_ordered_queue := (if pd_unordered c then id else tl) (pn_ordered_queue q),
      pn_queue_len := pn_queue_len q - 1,
      pn_n_bytes := pn_n_bytes q - length (pd_user_data c),
      pn_selected := \<not> pd_ending_fragment c,
      pn_unordered_is_selected := (if pd_ending_fragment c then pn_unordered_is_selected q else pd_unordered c)\<rparr>)"
  using assms
proof (cases rule: pn_peek_Some)
  case (1 xs)
  with pn_take_frame [OF assms] show ?thesis
    by (cases q; cases "pd_ending_fragment c") (auto simp: pn_pop_def)
next
  case (2 xs)
  with pn_take_frame [OF assms] show ?thesis
    by (cases q; cases "pd_ending_fragment c") (auto simp: pn_pop_def)
qed

lemma pn_take_inv [inv_intro]:
  assumes "pn_inv s q" "pn_peek q = Some c"
  shows "pn_inv (after c) (snd (pn_pop q (pd_beginning_fragment c) (pd_unordered c)))"
  using assms
proof (cases rule: pn_peek_Some)
  case (1 xs)
  with pn_take_frame [OF assms] assms(1) show ?thesis
    unfolding pn_take_pop [OF assms] snd_conv
    by (cases s; cases "pd_ending_fragment c") (auto simp: pn_inv_def after_def split: if_splits)
next
  case (2 xs)
  with pn_take_frame [OF assms] assms(1) show ?thesis
    unfolding pn_take_pop [OF assms] snd_conv
    by (cases s; cases "pd_ending_fragment c") (auto simp: pn_inv_def after_def split: if_splits)
qed

lemma pn_take_queues:
  assumes "pn_inv s q" "pn_peek q = Some c"
  shows "pn_pop q (pd_beginning_fragment c) (pd_unordered c) =
      (Some c, snd (pn_pop q (pd_beginning_fragment c) (pd_unordered c)))"
    and "pn_unordered_queue q = (if pd_unordered c then [c] else []) @
      pn_unordered_queue (snd (pn_pop q (pd_beginning_fragment c) (pd_unordered c)))"
    and "pn_ordered_queue q = (if pd_unordered c then [] else [c]) @
      pn_ordered_queue (snd (pn_pop q (pd_beginning_fragment c) (pd_unordered c)))"
  unfolding pn_take_pop [OF assms] snd_conv using assms
  by (auto elim!: pn_peek_Some)

fun sent :: "bool \<Rightarrow> pending_op list \<Rightarrow> chunk_payload_data list" where
  "sent u [] = []"
| "sent u (Send m # ops) = (if pd_unordered (hd m) = u then m else []) @ sent u ops"
| "sent u (Take # ops) = sent u ops"

lemma pn_op_queues:
  assumes "pn_inv s q" "framed None out = Some s" "\<forall>m. op = Send m \<longrightarrow> message m" "pn_op (q, out) op = (q', out')"
  shows "\<exists>s'. pn_inv s' q' \<and> framed None out' = Some s' \<and>
    filter pd_unordered out' @ pn_unordered_queue q' =
      filter pd_unordered out @ pn_unordered_queue q @ sent True [op] \<and>
    filter (\<lambda>c. \<not> pd_unordered c) out' @ pn_ordered_queue q' =
      filter (\<lambda>c. \<not> pd_unordered c) out @ pn_ordered_queue q @ sent False [op]"
proof (cases op)
  case (Send m)
  with assms(3) have m: "message m" by simp
  then have u: "\<forall>c \<in> set m. pd_unordered c = pd_unordered (hd m)" unfolding message_def by blast
  have "pn_inv s q'" using pn_send_inv [OF assms(1) m] assms(4) Send by simp
  moreover have "out' = out" "q' = foldl pn_push q m" using assms(4) Send by simp_all
  ultimately show ?thesis
    using assms(2) Send unfolding foldl_pn_push [OF u] by (intro exI [of _ s]) simp
next
  case Take
  show ?thesis
  proof (cases "pn_peek q")
    case None
    with Take assms show ?thesis by auto
  next
    case (Some c)
    note t = pn_take_queues [OF assms(1) Some]
    obtain q1 where q1: "pn_pop q (pd_beginning_fragment c) (pd_unordered c) = (Some c, q1)" using t(1) by blast
    from q1 Take assms(4) Some have q': "q' = snd (pn_pop q (pd_beginning_fragment c) (pd_unordered c))" "out' = out @ [c]"
      by auto
    have "framed None out' = Some (after c)"
      using assms(2) pn_take_frame [OF assms(1) Some] by (simp add: q' framed_append)
    with pn_take_inv [OF assms(1) Some] t(2,3) [folded q'(1)] Take show ?thesis
      unfolding q'(1) [symmetric] by (intro exI [of _ "after c"]) (simp add: q'(2))
  qed
qed

lemma pn_ops_queues:
  assumes "pn_inv s q" "framed None out = Some s" "\<forall>m. Send m \<in> set ops \<longrightarrow> message m" "foldl pn_op (q, out) ops = (q', out')"
  shows "\<exists>s'. pn_inv s' q' \<and> framed None out' = Some s' \<and>
    filter pd_unordered out' @ pn_unordered_queue q' =
      filter pd_unordered out @ pn_unordered_queue q @ sent True ops \<and>
    filter (\<lambda>c. \<not> pd_unordered c) out' @ pn_ordered_queue q' =
      filter (\<lambda>c. \<not> pd_unordered c) out @ pn_ordered_queue q @ sent False ops"
  using assms
proof (induction ops arbitrary: s q out)
  case (Cons op ops)
  obtain q1 out1 where 1: "pn_op (q, out) op = (q1, out1)" by fastforce
  from pn_op_queues [OF Cons.prems(1,2) _ 1] Cons.prems(3) obtain s1 where
    s1: "pn_inv s1 q1" "framed None out1 = Some s1"
      "filter pd_unordered out1 @ pn_unordered_queue q1 =
        filter pd_unordered out @ pn_unordered_queue q @ sent True [op]"
      "filter (\<lambda>c. \<not> pd_unordered c) out1 @ pn_ordered_queue q1 =
        filter (\<lambda>c. \<not> pd_unordered c) out @ pn_ordered_queue q @ sent False [op]"
    by auto
  have "sent u (op # ops) = sent u [op] @ sent u ops" for u by (cases op) auto
  with Cons.IH [OF s1(1,2)] Cons.prems(3,4) 1 s1(3,4) show ?case
    by (metis append.assoc foldl_Cons list.set_intros(2))
qed auto

section \<open>Properties\<close>

text \<open>
  C25. Whatever whole messages the association pushes and whenever it takes the chunk it has
  peeked, the chunks it takes are never two messages interleaved (they are framed message by
  message, which gives the fragments of a message consecutive TSNs), the unordered and the
  ordered messages leave in the order they came, and the counters say how many chunks and bytes
  are left.
\<close>

theorem pending_no_interleaving:
  assumes "\<forall>m. Send m \<in> set ops \<longrightarrow> message m" "foldl pn_op (pn_new, []) ops = (q, out)"
  shows "framed None out \<noteq> None \<and>
    (framed None out = Some None \<longleftrightarrow> \<not> pn_selected q) \<and>
    filter pd_unordered out @ pn_unordered_queue q = sent True ops \<and>
    filter (\<lambda>c. \<not> pd_unordered c) out @ pn_ordered_queue q = sent False ops \<and>
    pn_len q = length (sent True ops) + length (sent False ops) - length out \<and>
    pn_get_num_bytes q = bytes_of (pn_unordered_queue q @ pn_ordered_queue q)"
proof -
  from pn_ops_queues [OF pn_new_inv _ assms] obtain s where s: "pn_inv s q" "framed None out = Some s"
    "filter pd_unordered out @ pn_unordered_queue q = sent True ops"
    "filter (\<lambda>c. \<not> pd_unordered c) out @ pn_ordered_queue q = sent False ops"
    by (auto simp: pn_new_def)
  note len = s(3,4) [THEN arg_cong, of length, unfolded length_append]
  have "pn_len q = length (sent True ops) + length (sent False ops) - length out"
    using s(1) len sum_length_filter_compl [of pd_unordered out] by (simp add: pn_inv_def pn_len_def)
  moreover have "pn_get_num_bytes q = bytes_of (pn_unordered_queue q @ pn_ordered_queue q)"
    "framed None out = Some None \<longleftrightarrow> \<not> pn_selected q"
    using s(1,2) by (simp_all add: pn_inv_def pn_get_num_bytes_def del: split_paired_Ex split_paired_All)
  ultimately show ?thesis using s(2-4) by (intro conjI) simp_all
qed

theorem pending_no_interleaving_witness:
  "\<exists>a b q out.
     foldl pn_op (pn_new, []) [Send [a, b], Take, Send [a\<lparr>pd_unordered := True, pd_ending_fragment := True\<rparr>], Take] = (q, out) \<and>
     out = [a, b] \<and> pn_len q = 1 \<and> framed None out = Some None"
proof -
  let ?a = "pd_default\<lparr>pd_beginning_fragment := True\<rparr>"
  let ?b = "pd_default\<lparr>pd_ending_fragment := True\<rparr>"
  let ?ops = "[Send [?a, ?b], Take, Send [?a\<lparr>pd_unordered := True, pd_ending_fragment := True\<rparr>], Take]"
  obtain q out where run: "foldl pn_op (pn_new, []) ?ops = (q, out)" by fastforce
  then have out: "out = [?a, ?b]" "\<not> pn_selected q"
    by (auto simp: pn_new_def pd_default_def pn_push_def pn_peek_def pn_pop_def)
  have "\<forall>m. Send m \<in> set ?ops \<longrightarrow> message m"
    by (auto simp: message_def message_key_def pd_default_def)
  from pending_no_interleaving [OF this run] out show ?thesis
    using run by (intro exI [of _ ?a] exI [of _ ?b]) (simp add: pd_default_def)
qed

text \<open>
   The chunk that \<^verbatim>\<open>peek\<close> shows is the one \<^verbatim>\<open>pop\<close> removes, whatever was pushed and taken
  before, and \<^verbatim>\<open>peek\<close> shows one as long as the queue is not empty: the association never fails
  to pop.
\<close>

theorem pending_pop_peeked:
  assumes "\<forall>m. Send m \<in> set ops \<longrightarrow> message m" "foldl pn_op (pn_new, []) ops = (q, out)" "\<not> pn_is_empty q"
  shows "\<exists>c. pn_peek q = Some c \<and> fst (pn_pop q (pd_beginning_fragment c) (pd_unordered c)) = Some c"
proof -
  from pn_ops_queues [OF pn_new_inv _ assms(1,2)] obtain s where s: "pn_inv s q" by auto
  with assms(3) obtain c where "pn_peek q = Some c" using pn_peek_None by fastforce
  with pn_take_queues(1) [OF s] show ?thesis by (metis fst_conv)
qed

theorem pending_pop_peeked_witness:
  "\<exists>q c. foldl pn_op (pn_new, []) [Send [pd_default\<lparr>pd_beginning_fragment := True, pd_ending_fragment := True\<rparr>]] = (q, []) \<and>
     pn_peek q = Some c \<and> fst (pn_pop q (pd_beginning_fragment c) (pd_unordered c)) = Some c"
proof -
  let ?ops = "[Send [pd_default\<lparr>pd_beginning_fragment := True, pd_ending_fragment := True\<rparr>]]"
  obtain q where run: "foldl pn_op (pn_new, []) ?ops = (q, [])" by fastforce
  have "\<forall>m. Send m \<in> set ?ops \<longrightarrow> message m"
    by (auto simp: message_def message_key_def pd_default_def)
  moreover have "\<not> pn_is_empty q"
    using run by (auto simp: pn_new_def pn_push_def pn_is_empty_def pn_len_def Let_def)
  ultimately show ?thesis using pending_pop_peeked [OF _ run] run by blast
qed

end
