(* ===== verification/Reassembly_Queue.thy ===== *)
theory Reassembly_Queue
  imports Pending_Queue
begin

text \<open>
  \<^verbatim>\<open>rtc-sctp/src/queue/reassembly_queue.rs\<close>: the fragments a stream has received, the sets of them
  that make up ordered and unordered messages, and what an application reads. The lemmas show that
  the ordered messages are delivered in the order of their stream sequence numbers and byte for
  byte, in whatever order the fragments arrive.
\<close>

section \<open>Sets of fragments\<close>

definition sort_chunks_by_tsn :: "chunk_payload_data list \<Rightarrow> chunk_payload_data list" where
  "sort_chunks_by_tsn c = sort_by (\<lambda>a b. sna32lt (pd_tsn a) (pd_tsn b)) c"

record chunks =
  cs_ssn :: u16
  cs_ppi :: payload_protocol_identifier
  cs_chunks :: "chunk_payload_data list"
  cs_offset :: nat
  cs_index :: nat
  cs_timestamp :: nat

definition sort_chunks_by_ssn :: "chunks list \<Rightarrow> chunks list" where
  "sort_chunks_by_ssn c = sort_by (\<lambda>a b. sna16lt (cs_ssn a) (cs_ssn b)) c"

definition chunks_len :: "chunks \<Rightarrow> nat" where
  "chunks_len cs = foldl (\<lambda>l c. l + length (pd_user_data c)) 0 (cs_chunks cs)"

definition chunks_is_empty :: "chunks \<Rightarrow> bool" where
  "chunks_is_empty cs \<longleftrightarrow> chunks_len cs = 0"

text \<open>The copy loop of \<^verbatim>\<open>Chunks::read\<close>: the result and the buffer it leaves.\<close>

fun chunks_read_loop :: "chunk_payload_data list \<Rightarrow> bytes \<Rightarrow> nat \<Rightarrow> nat result \<times> bytes" where
  "chunks_read_loop [] buf n_written = (Inr n_written, buf)"
| "chunks_read_loop (c # cs) buf n_written =
     (let to_copy = length (pd_user_data c);
          n = min to_copy (length buf - n_written);
          buf = take n_written buf @ take n (pd_user_data c) @ drop (n_written + n) buf;
          n_written = n_written + n
      in if n < to_copy then (Inl (Err ''ErrShortBuffer''), buf)
         else chunks_read_loop cs buf n_written)"

definition chunks_read :: "chunks \<Rightarrow> bytes \<Rightarrow> nat result \<times> bytes" where
  "chunks_read cs buf = chunks_read_loop (cs_chunks cs) buf 0"

text \<open>
  The loop of \<^verbatim>\<open>Chunks::next\<close>; a slice of \<^verbatim>\<open>user_data\<close> that starts beyond its end panics.
\<close>

function chunks_next_loop :: "chunks \<Rightarrow> nat \<Rightarrow> bytes \<Rightarrow> nat \<Rightarrow> (bytes \<times> chunks) result" where
  "chunks_next_loop cs max_length buf n_written =
     (if cs_index cs < length (cs_chunks cs) then
        let user_data = pd_user_data (cs_chunks cs ! cs_index cs) in
        if cs_offset cs > length user_data then Inl Panic
        else
          let to_copy = length user_data - cs_offset cs;
              n = min to_copy (max_length - n_written);
              buf = buf @ take n (drop (cs_offset cs) user_data);
              n_written = n_written + n
          in if n < to_copy then Inr (buf, cs\<lparr>cs_offset := cs_offset cs + n\<rparr>)
             else chunks_next_loop (cs\<lparr>cs_index := cs_index cs + 1, cs_offset := 0\<rparr>) max_length buf n_written
      else Inr (buf, cs))"
  by pat_completeness auto
termination by (relation "measure (\<lambda>(cs, _). length (cs_chunks cs) - cs_index cs)") auto

declare chunks_next_loop.simps [simp del]

definition chunks_next :: "chunks \<Rightarrow> nat \<Rightarrow> (bytes option \<times> chunks) result" where
  "chunks_next cs max_length =
     (if cs_index cs \<ge> length (cs_chunks cs) then Inr (None, cs)
      else rbind (chunks_next_loop cs max_length [] 0) (\<lambda>(buf, cs). Inr (Some buf, cs)))"

text \<open>The clock that \<^verbatim>\<open>Chunks::new\<close> reads is the parameter \<open>now\<close>.\<close>

definition chunks_new :: "nat \<Rightarrow> u16 \<Rightarrow> payload_protocol_identifier \<Rightarrow> chunk_payload_data list \<Rightarrow> chunks" where
  "chunks_new now ssn ppi cs =
     \<lparr>cs_ssn = ssn, cs_ppi = ppi, cs_chunks = cs, cs_offset = 0, cs_index = 0, cs_timestamp = now\<rparr>"

fun contiguous :: "u32 \<Rightarrow> chunk_payload_data list \<Rightarrow> bool" where
  "contiguous last_tsn [] = True"
| "contiguous last_tsn (c # cs) = (pd_tsn c = last_tsn + 1 \<and> contiguous (pd_tsn c) cs)"

definition chunks_is_complete :: "chunks \<Rightarrow> bool" where
  "chunks_is_complete cs =
     (let n_chunks = length (cs_chunks cs) in
      if n_chunks = 0 then False
      else if \<not> pd_beginning_fragment (cs_chunks cs ! 0) then False
      else if \<not> pd_ending_fragment (cs_chunks cs ! (n_chunks - 1)) then False
      else contiguous (pd_tsn (cs_chunks cs ! 0)) (tl (cs_chunks cs)))"

definition chunks_push :: "chunks \<Rightarrow> chunk_payload_data \<Rightarrow> bool \<times> chunks" where
  "chunks_push cs chunk =
     (if list_ex (\<lambda>c. pd_tsn c = pd_tsn chunk) (cs_chunks cs) then (False, cs)
      else
        let cs = cs\<lparr>cs_chunks := sort_chunks_by_tsn (cs_chunks cs @ [chunk])\<rparr>
        in (chunks_is_complete cs, cs))"

section \<open>The queue\<close>

record reassembly_queue =
  rq_si :: u16
  rq_next_ssn :: u16
  rq_ordered :: "chunks list"
  rq_unordered :: "chunks list"
  rq_unordered_chunks :: "chunk_payload_data list"
  rq_n_bytes :: nat

definition rq_new :: "u16 \<Rightarrow> reassembly_queue" where
  "rq_new si = \<lparr>rq_si = si, rq_next_ssn = 0, rq_ordered = [], rq_unordered = [],
                rq_unordered_chunks = [], rq_n_bytes = 0\<rparr>"

fun find_set_loop :: "nat \<Rightarrow> int \<Rightarrow> nat \<Rightarrow> u32 \<Rightarrow> chunk_payload_data list \<Rightarrow> (int \<times> nat) option" where
  "find_set_loop i start_idx n_chunks last_tsn [] = None"
| "find_set_loop i start_idx n_chunks last_tsn (c # cs) =
     (if pd_beginning_fragment c then
        (if pd_ending_fragment c then Some (int i, 1)
         else find_set_loop (i + 1) (int i) 1 (pd_tsn c) cs)
      else if start_idx < 0 then find_set_loop (i + 1) start_idx n_chunks last_tsn cs
      else if pd_tsn c \<noteq> last_tsn + 1 then find_set_loop (i + 1) (- 1) n_chunks last_tsn cs
      else if pd_ending_fragment c then Some (start_idx, n_chunks + 1)
      else find_set_loop (i + 1) start_idx (n_chunks + 1) (pd_tsn c) cs)"

definition rq_find_complete_unordered_chunk_set :: "nat \<Rightarrow> reassembly_queue \<Rightarrow> chunks option \<times> reassembly_queue" where
  "rq_find_complete_unordered_chunk_set now q =
     (case find_set_loop 0 (- 1) 0 0 (rq_unordered_chunks q) of
        None \<Rightarrow> (None, q)
      | Some (start_idx, n_chunks) \<Rightarrow>
          let chunks = take n_chunks (drop (nat start_idx) (rq_unordered_chunks q));
              q = q\<lparr>rq_unordered_chunks :=
                    take (nat start_idx) (rq_unordered_chunks q) @
                    drop (nat start_idx + n_chunks) (rq_unordered_chunks q)\<rparr>
          in (Some (chunks_new now 0 (pd_payload_type (chunks ! 0)) chunks), q))"

text \<open>The search of \<^verbatim>\<open>push\<close> for the set with the SSN of the chunk.\<close>

fun push_to_set :: "chunks list \<Rightarrow> chunk_payload_data \<Rightarrow> (bool \<times> chunks list) option" where
  "push_to_set [] chunk = None"
| "push_to_set (s # ss) chunk =
     (if cs_ssn s = pd_stream_sequence_number chunk
      then let (ok, s) = chunks_push s chunk in Some (ok, s # ss)
      else map_option (\<lambda>(ok, ss). (ok, s # ss)) (push_to_set ss chunk))"

definition rq_push :: "nat \<Rightarrow> reassembly_queue \<Rightarrow> chunk_payload_data \<Rightarrow> bool \<times> reassembly_queue" where
  "rq_push now q chunk =
     (if pd_stream_identifier chunk \<noteq> rq_si q then (False, q)
      else if pd_unordered chunk then
        let q = q\<lparr>rq_n_bytes := rq_n_bytes q + length (pd_user_data chunk)\<rparr>;
            q = q\<lparr>rq_unordered_chunks := sort_chunks_by_tsn (rq_unordered_chunks q @ [chunk])\<rparr>
        in (case rq_find_complete_unordered_chunk_set now q of
              (Some cset, q) \<Rightarrow> (True, q\<lparr>rq_unordered := rq_unordered q @ [cset]\<rparr>)
            | (None, q) \<Rightarrow> (False, q))
      else if sna16lt (pd_stream_sequence_number chunk) (rq_next_ssn q) then (False, q)
      else
        let q = q\<lparr>rq_n_bytes := rq_n_bytes q + length (pd_user_data chunk)\<rparr> in
        (case push_to_set (rq_ordered q) chunk of
           Some (ok, ordered) \<Rightarrow> (ok, q\<lparr>rq_ordered := ordered\<rparr>)
         | None \<Rightarrow>
             let cset = chunks_new now (pd_stream_sequence_number chunk) (pd_payload_type chunk) [];
                 (ok, cset) = chunks_push cset chunk;
                 q = q\<lparr>rq_ordered := rq_ordered q @ [cset]\<rparr>;
                 q = (if \<not> pd_unordered chunk then q\<lparr>rq_ordered := sort_chunks_by_ssn (rq_ordered q)\<rparr> else q)
             in (ok, q)))"

definition rq_is_readable :: "reassembly_queue \<Rightarrow> bool" where
  "rq_is_readable q \<longleftrightarrow>
     (if rq_unordered q \<noteq> [] then True
      else if rq_ordered q \<noteq> [] then
        let cset = rq_ordered q ! 0 in
        chunks_is_complete cset \<and> sna16lte (cs_ssn cset) (rq_next_ssn q)
      else False)"

definition rq_readable_unordered_chunks :: "reassembly_queue \<Rightarrow> chunks option" where
  "rq_readable_unordered_chunks q = front (rq_unordered q)"

definition rq_readable_ordered_chunks :: "reassembly_queue \<Rightarrow> chunks option" where
  "rq_readable_ordered_chunks q =
     (case front (rq_ordered q) of
        Some chunks \<Rightarrow>
          if \<not> chunks_is_complete chunks then None
          else if sna16gt (cs_ssn chunks) (rq_next_ssn q) then None
          else Some chunks
      | None \<Rightarrow> None)"

definition rq_subtract_num_bytes :: "reassembly_queue \<Rightarrow> nat \<Rightarrow> reassembly_queue" where
  "rq_subtract_num_bytes q n_bytes =
     (if rq_n_bytes q \<ge> n_bytes then q\<lparr>rq_n_bytes := rq_n_bytes q - n_bytes\<rparr>
      else q\<lparr>rq_n_bytes := 0\<rparr>)"

definition rq_take_unordered :: "reassembly_queue \<Rightarrow> chunks \<times> reassembly_queue" where
  "rq_take_unordered q = (hd (rq_unordered q), q\<lparr>rq_unordered := tl (rq_unordered q)\<rparr>)"

definition rq_take_ordered :: "reassembly_queue \<Rightarrow> chunks \<times> reassembly_queue" where
  "rq_take_ordered q =
     (let q = (if cs_ssn (hd (rq_ordered q)) = rq_next_ssn q
               then q\<lparr>rq_next_ssn := rq_next_ssn q + 1\<rparr> else q)
      in (hd (rq_ordered q), q\<lparr>rq_ordered := tl (rq_ordered q)\<rparr>))"

definition rq_read :: "reassembly_queue \<Rightarrow> chunks option \<times> reassembly_queue" where
  "rq_read q =
     (let chosen =
        (case (rq_readable_unordered_chunks q, rq_readable_ordered_chunks q) of
           (Some unordered_chunks, Some ordered_chunks) \<Rightarrow>
             if cs_timestamp unordered_chunks < cs_timestamp ordered_chunks
             then Some (rq_take_unordered q) else Some (rq_take_ordered q)
         | _ \<Rightarrow>
             if rq_unordered q \<noteq> [] then Some (rq_take_unordered q)
             else if rq_ordered q \<noteq> [] then
               let chunks = rq_ordered q ! 0 in
               if \<not> chunks_is_complete chunks then None
               else if sna16gt (cs_ssn chunks) (rq_next_ssn q) then None
               else Some (rq_take_ordered q)
             else None)
      in case chosen of
           None \<Rightarrow> (None, q)
         | Some (chunks, q) \<Rightarrow> (Some chunks, rq_subtract_num_bytes q (chunks_len chunks)))"

definition rq_forward_tsn_for_ordered :: "reassembly_queue \<Rightarrow> u16 \<Rightarrow> reassembly_queue" where
  "rq_forward_tsn_for_ordered q last_ssn =
     (let num_bytes =
        foldl (\<lambda>n s. n + foldl (\<lambda>acc c. acc + length (pd_user_data c)) 0 (cs_chunks s)) 0
          (filter (\<lambda>s. sna16lte (cs_ssn s) last_ssn \<and> \<not> chunks_is_complete s) (rq_ordered q));
          q = rq_subtract_num_bytes q num_bytes;
          q = q\<lparr>rq_ordered :=
                filter (\<lambda>s. \<not> sna16lte (cs_ssn s) last_ssn \<or> chunks_is_complete s) (rq_ordered q)\<rparr>
      in if sna16lte (rq_next_ssn q) last_ssn then q\<lparr>rq_next_ssn := last_ssn + 1\<rparr> else q)"

text \<open>The index of the last chunk before the first one beyond the cumulative TSN.\<close>

fun forward_last_idx :: "u32 \<Rightarrow> nat \<Rightarrow> int \<Rightarrow> chunk_payload_data list \<Rightarrow> int" where
  "forward_last_idx new_cumulative_tsn i last_idx [] = last_idx"
| "forward_last_idx new_cumulative_tsn i last_idx (c # cs) =
     (if sna32gt (pd_tsn c) new_cumulative_tsn then last_idx
      else forward_last_idx new_cumulative_tsn (i + 1) (int i) cs)"

definition rq_forward_tsn_for_unordered :: "reassembly_queue \<Rightarrow> u32 \<Rightarrow> reassembly_queue" where
  "rq_forward_tsn_for_unordered q new_cumulative_tsn =
     (let last_idx = forward_last_idx new_cumulative_tsn 0 (- 1) (rq_unordered_chunks q) in
      if last_idx \<ge> 0 then
        let n = nat (last_idx + 1);
            q = foldl (\<lambda>q c. rq_subtract_num_bytes q (length (pd_user_data c))) q
                  (take n (rq_unordered_chunks q))
        in q\<lparr>rq_unordered_chunks := drop n (rq_unordered_chunks q)\<rparr>
      else q)"

definition rq_get_num_bytes :: "reassembly_queue \<Rightarrow> nat" where
  "rq_get_num_bytes q = rq_n_bytes q"

section \<open>Reading the bytes of a set\<close>

definition payload :: "chunk_payload_data list \<Rightarrow> bytes" where
  "payload cs = concat (map pd_user_data cs)"

lemma payload_simps [simp]:
  "payload [] = []" "payload (c # cs) = pd_user_data c @ payload cs" "payload (xs @ ys) = payload xs @ payload ys"
  by (simp_all add: payload_def)

lemma chunks_len_payload: "chunks_len cs = length (payload (cs_chunks cs))"
proof -
  have "foldl (\<lambda>l c. l + length (pd_user_data c)) n xs = n + length (payload xs)" for n xs
    by (induction xs arbitrary: n) auto
  then show ?thesis by (simp add: chunks_len_def)
qed

lemma chunks_read_loop_eq:
  "n \<le> length buf \<Longrightarrow>
   chunks_read_loop cs buf n =
     (if length (payload cs) \<le> length buf - n
      then (Inr (n + length (payload cs)), take n buf @ payload cs @ drop (n + length (payload cs)) buf)
      else (Inl (Err ''ErrShortBuffer''), take n buf @ take (length buf - n) (payload cs)))"
proof (induction cs arbitrary: buf n)
  case (Cons c cs)
  let ?d = "pd_user_data c"
  show ?case
  proof (cases "length ?d \<le> length buf - n")
    case True
    let ?b = "take n buf @ ?d @ drop (n + length ?d) buf"
    have "chunks_read_loop (c # cs) buf n = chunks_read_loop cs ?b (n + length ?d)"
      using True by (simp add: min_def Let_def)
    moreover have "length ?b = length buf" "n + length ?d \<le> length ?b"
      using True Cons.prems by auto
    ultimately show ?thesis
      using Cons.IH [of "n + length ?d" ?b] True Cons.prems by (auto simp: ac_simps simp del: chunks_read_loop.simps)
  next
    case False
    then show ?thesis by (simp add: min_def Let_def)
  qed
qed simp

definition chunks_rest :: "chunks \<Rightarrow> bytes" where
  "chunks_rest cs = drop (cs_offset cs) (payload (drop (cs_index cs) (cs_chunks cs)))"

definition chunks_cursor_ok :: "chunks \<Rightarrow> bool" where
  "chunks_cursor_ok cs \<longleftrightarrow>
     (if cs_index cs < length (cs_chunks cs)
      then cs_offset cs \<le> length (pd_user_data (cs_chunks cs ! cs_index cs)) else cs_offset cs = 0)"

lemma chunks_next_loop_step:
  assumes "cs_index cs < length (cs_chunks cs)" "pd_user_data (cs_chunks cs ! cs_index cs) = d" "cs_offset cs \<le> length d"
  shows "chunks_next_loop cs max_length buf n =
    (if max_length - n < length d - cs_offset cs
     then Inr (buf @ take (max_length - n) (drop (cs_offset cs) d), cs\<lparr>cs_offset := cs_offset cs + (max_length - n)\<rparr>)
     else chunks_next_loop (cs\<lparr>cs_index := cs_index cs + 1, cs_offset := 0\<rparr>) max_length
       (buf @ drop (cs_offset cs) d) (n + (length d - cs_offset cs)))"
  by (subst chunks_next_loop.simps) (use assms in \<open>auto simp: Let_def min_def\<close>)

lemma chunks_rest_index:
  assumes "cs_index cs < length (cs_chunks cs)" "pd_user_data (cs_chunks cs ! cs_index cs) = d" "cs_offset cs \<le> length d"
  shows "chunks_rest cs = drop (cs_offset cs) d @ chunks_rest (cs\<lparr>cs_index := cs_index cs + 1, cs_offset := 0\<rparr>)"
  using assms by (simp add: chunks_rest_def Cons_nth_drop_Suc [symmetric])

lemma chunks_next_loop_spec:
  assumes "chunks_cursor_ok cs" "n \<le> max_length"
  shows "\<exists>out cs'. chunks_next_loop cs max_length buf n = Inr (buf @ out, cs') \<and>
     chunks_cursor_ok cs' \<and> chunks_rest cs = out @ chunks_rest cs' \<and>
     cs_chunks cs' = cs_chunks cs \<and> length out \<le> max_length - n \<and>
     (cs_index cs' < length (cs_chunks cs') \<longrightarrow> length out = max_length - n)"
  using assms
proof (induction "length (cs_chunks cs) - cs_index cs" arbitrary: cs buf n)
  case 0
  then show ?case by (subst chunks_next_loop.simps) simp
next
  case (Suc k)
  define d where "d = pd_user_data (cs_chunks cs ! cs_index cs)"
  have i: "cs_index cs < length (cs_chunks cs)" "pd_user_data (cs_chunks cs ! cs_index cs) = d" "cs_offset cs \<le> length d"
    using Suc.hyps(2) Suc.prems(1) by (auto simp: d_def chunks_cursor_ok_def)
  note step = chunks_next_loop_step [OF i, of max_length buf n]
  show ?case
  proof (cases "max_length - n < length d - cs_offset cs")
    case True
    let ?cs = "cs\<lparr>cs_offset := cs_offset cs + (max_length - n)\<rparr>"
    have "drop (cs_offset cs) d = take (max_length - n) (drop (cs_offset cs) d) @ drop (cs_offset cs + (max_length - n)) d"
      by (metis add.commute append_take_drop_id drop_drop)
    then have "chunks_rest cs = take (max_length - n) (drop (cs_offset cs) d) @ chunks_rest ?cs"
      using chunks_rest_index [OF i] chunks_rest_index [of ?cs d] i True by simp
    moreover have "chunks_cursor_ok ?cs" using i True by (simp add: chunks_cursor_ok_def)
    ultimately show ?thesis
      using step True i by (intro exI [of _ "take (max_length - n) (drop (cs_offset cs) d)"] exI [of _ ?cs]) simp
  next
    case False
    let ?cs = "cs\<lparr>cs_index := cs_index cs + 1, cs_offset := 0\<rparr>"
    let ?n = "n + (length d - cs_offset cs)"
    have "k = length (cs_chunks ?cs) - cs_index ?cs" "chunks_cursor_ok ?cs" "?n \<le> max_length"
      using Suc.hyps(2) False Suc.prems(2) by (auto simp: chunks_cursor_ok_def)
    from Suc.hyps(1) [OF this, of "buf @ drop (cs_offset cs) d"] obtain out cs' where
      o: "chunks_next_loop ?cs max_length (buf @ drop (cs_offset cs) d) ?n = Inr ((buf @ drop (cs_offset cs) d) @ out, cs')"
        "chunks_cursor_ok cs'" "chunks_rest ?cs = out @ chunks_rest cs'" "cs_chunks cs' = cs_chunks ?cs"
        "length out \<le> max_length - ?n" "cs_index cs' < length (cs_chunks cs') \<longrightarrow> length out = max_length - ?n"
      by blast
    show ?thesis
      using step o chunks_rest_index [OF i] False \<open>?n \<le> max_length\<close>
      by (intro exI [of _ "drop (cs_offset cs) d @ out"] exI [of _ cs']) auto
  qed
qed

section \<open>Fragments that arrive in any order\<close>

lemma sort_by_map: "sort_by lt (map g xs) = map g (sort_by (\<lambda>a b. lt (g a) (g b)) xs)"
proof -
  have *: "insert_by lt (g x) (map g ys) = map g (insert_by (\<lambda>a b. lt (g a) (g b)) x ys)" for x ys
    by (simp add: insert_by_def rev_map takeWhile_map dropWhile_map comp_def)
  show ?thesis by (induction xs rule: rev_induct) (simp_all add: *)
qed

lemma sort_by_index:
  fixes A :: "nat set"
  assumes "finite A" "x \<notin> A" "\<And>a b. a \<in> insert x A \<Longrightarrow> b \<in> insert x A \<Longrightarrow> lt (g a) (g b) \<longleftrightarrow> a < b"
  shows "sort_by lt (map g (sorted_list_of_set A) @ [g x]) = map g (sorted_list_of_set (insert x A))"
proof -
  let ?xs = "sorted_list_of_set A @ [x]"
  have "ranked (\<lambda>a b. lt (g a) (g b)) id (set ?xs)"
    using assms by (auto simp: ranked_def)
  then have "sort_by (\<lambda>a b. lt (g a) (g b)) ?xs = sort_key id ?xs" by (rule sort_by_sort_key)
  also have "\<dots> = sorted_list_of_set (insert x A)"
    using assms by (intro sort_key_inj_key_eq set_eq_iff_mset_eq_distinct [THEN iffD1])
      (simp_all add: sorted_insort distinct_insort set_insort_key)
  finally show ?thesis using sort_by_map [of lt g ?xs] by simp
qed

definition fragments :: "chunk_payload_data list \<Rightarrow> nat set \<Rightarrow> chunk_payload_data list" where
  "fragments m J = map ((!) m) (sorted_list_of_set J)"

text \<open>
  The fragments of an ordered message on stream \<open>si\<close> with stream sequence number \<open>n\<close>: flags at the
  two ends and consecutive TSNs.
\<close>

definition ordered_message :: "u16 \<Rightarrow> u16 \<Rightarrow> chunk_payload_data list \<Rightarrow> bool" where
  "ordered_message si n m \<longleftrightarrow>
     m \<noteq> [] \<and> length m \<le> 2 ^ 31 \<and>
     (\<forall>j < length m.
        pd_stream_identifier (m ! j) = si \<and> \<not> pd_unordered (m ! j) \<and>
        pd_stream_sequence_number (m ! j) = n \<and>
        pd_beginning_fragment (m ! j) = (j = 0) \<and> pd_ending_fragment (m ! j) = (j = length m - 1) \<and>
        pd_tsn (m ! j) = pd_tsn (m ! 0) + of_nat j)"

lemma ordered_messageD:
  assumes "ordered_message si n m" "j < length m"
  shows "pd_stream_identifier (m ! j) = si" "\<not> pd_unordered (m ! j)" "pd_stream_sequence_number (m ! j) = n"
    "pd_beginning_fragment (m ! j) = (j = 0)" "pd_ending_fragment (m ! j) = (j = length m - 1)"
    "pd_tsn (m ! j) = pd_tsn (m ! 0) + of_nat j" "m \<noteq> []" "length m \<le> 2 ^ 31"
  using assms unfolding ordered_message_def by blast+

lemma ordered_message_lt:
  assumes m: "ordered_message si n m" and j: "j < length m" "k < length m"
  shows "sna32lt (pd_tsn (m ! j)) (pd_tsn (m ! k)) \<longleftrightarrow> j < k"
    and "pd_tsn (m ! j) = pd_tsn (m ! k) \<longleftrightarrow> j = k"
proof -
  let ?b = "pd_tsn (m ! 0)"
  have t: "pd_tsn (m ! j) - ?b = of_nat j" "pd_tsn (m ! k) - ?b = of_nat k" "j < 2 ^ 31" "k < 2 ^ 31"
    using ordered_messageD(6,8) [OF m j(1)] ordered_messageD(6) [OF m j(2)] j by simp_all
  then have u: "unat (pd_tsn (m ! j) - ?b) = j" "unat (pd_tsn (m ! k) - ?b) = k"
    by (simp_all add: unat_of_nat32)
  show "sna32lt (pd_tsn (m ! j)) (pd_tsn (m ! k)) \<longleftrightarrow> j < k"
    using tsn.lt_window [of ?b "pd_tsn (m ! j)" "pd_tsn (m ! k)"] t(3,4) by (simp add: tsn.window_def u)
  show "pd_tsn (m ! j) = pd_tsn (m ! k) \<longleftrightarrow> j = k" using u by metis
qed

lemma sort_fragments:
  assumes "ordered_message si n m" "J \<subseteq> {..<length m}" "j < length m" "j \<notin> J"
  shows "sort_chunks_by_tsn (fragments m J @ [m ! j]) = fragments m (insert j J)"
  unfolding sort_chunks_by_tsn_def fragments_def using assms finite_subset [OF assms(2)]
  by (intro sort_by_index) (auto simp: ordered_message_lt subset_eq)

lemma contiguous_upt:
  assumes "ordered_message si n m" "j < length m" "set js \<subseteq> {..<length m}"
  shows "contiguous (pd_tsn (m ! j)) (map ((!) m) js) \<longleftrightarrow> js = [Suc j..<Suc j + length js]"
  using assms(2,3)
proof (induction js arbitrary: j)
  case (Cons k js)
  have "pd_tsn (m ! k) = pd_tsn (m ! j) + 1 \<longleftrightarrow> k = Suc j"
  proof (cases "Suc j < length m")
    case True
    then have "pd_tsn (m ! Suc j) = pd_tsn (m ! j) + 1"
      using ordered_messageD(6) [OF assms(1) True] ordered_messageD(6) [OF assms(1) Cons.prems(1)]
      by (simp add: add.commute add.left_commute)
    with ordered_message_lt(2) [OF assms(1), of k "Suc j"] True Cons.prems show ?thesis by auto
  next
    case False
    have b: "pd_tsn (m ! k) = pd_tsn (m ! 0) + of_nat k" "pd_tsn (m ! j) = pd_tsn (m ! 0) + of_nat j"
      using Cons.prems by (auto intro: ordered_messageD(6) [OF assms(1)])
    have "k \<le> j" "Suc j \<le> 2 ^ 31" using False Cons.prems ordered_messageD(8) [OF assms(1) Cons.prems(1)] by auto
    then have "unat (of_nat k :: u32) = k" "unat (of_nat (Suc j) :: u32) = Suc j"
      by (auto intro!: unat_of_nat32 simp del: of_nat_Suc)
    with \<open>k \<le> j\<close> have "(of_nat k :: u32) \<noteq> of_nat (Suc j)" by auto
    with b \<open>k \<le> j\<close> show ?thesis by (auto simp: add.commute)
  qed
  moreover have "[Suc j..<Suc j + length (k # js)] = Suc j # [Suc (Suc j)..<Suc (Suc j) + length js]"
    by (simp add: upt_conv_Cons del: upt_Suc)
  moreover have "contiguous (pd_tsn (m ! k)) (map ((!) m) js) \<longleftrightarrow> js = [Suc k..<Suc k + length js]"
    using Cons.prems by (intro Cons.IH) auto
  ultimately show ?case by auto
qed simp

lemma is_complete_fragments:
  assumes m: "ordered_message si n m" and J: "J \<subseteq> {..<length m}" and s: "cs_chunks s = fragments m J"
  shows "chunks_is_complete s \<longleftrightarrow> J = {..<length m}"
proof (cases "J = {}")
  case True
  moreover have "m \<noteq> []" using m by (simp add: ordered_message_def)
  ultimately show ?thesis using s by (auto simp: chunks_is_complete_def fragments_def)
next
  case False
  have fin: "finite J" using J finite_subset by blast
  define js where "js = sorted_list_of_set J"
  have js: "set js = J" "js \<noteq> []" "sorted_wrt (<) js"
    using fin False by (auto simp: js_def)
  then obtain j ks where j: "js = j # ks" by (cases js) auto
  have lt: "j < length m" "set ks \<subseteq> {..<length m}" "last js < length m"
    using js(1,2) J j last_in_set [OF js(2)] by auto
  have bf: "pd_beginning_fragment (m ! j) \<longleftrightarrow> j = 0" "pd_ending_fragment (m ! last js) \<longleftrightarrow> last js = length m - 1"
    using ordered_messageD(4) [OF m lt(1)] ordered_messageD(5) [OF m lt(3)] by simp_all
  have m0: "length m > 0" using lt(1) by linarith
  have "chunks_is_complete s \<longleftrightarrow> j = 0 \<and> last js = length m - 1 \<and> ks = [Suc j..<Suc j + length ks]"
  proof -
    have "cs_chunks s = map ((!) m) js" using s by (simp add: fragments_def js_def)
    then have "cs_chunks s \<noteq> []" "cs_chunks s ! 0 = m ! j" "cs_chunks s ! (length (cs_chunks s) - 1) = m ! last js"
        "tl (cs_chunks s) = map ((!) m) ks"
      using j by (simp_all add: last_conv_nth)
    then show ?thesis
      unfolding chunks_is_complete_def Let_def contiguous_upt [OF m lt(1,2), symmetric] using bf
      by (simp del: upt_Suc)
  qed
  also have "\<dots> \<longleftrightarrow> js = [0..<length m]"
  proof
    assume a: "j = 0 \<and> last js = length m - 1 \<and> ks = [Suc j..<Suc j + length ks]"
    have "[0..<Suc (length ks)] = 0 # [Suc 0..<Suc 0 + length ks]" by (simp add: upt_conv_Cons del: upt_Suc)
    with a j have u: "js = [0..<Suc (length ks)]" by metis
    then have "last js = length ks" by simp
    moreover from a have "last js = length m - 1" by blast
    ultimately have "Suc (length ks) = length m" using m0 by linarith
    with u show "js = [0..<length m]" by metis
  next
    assume "js = [0..<length m]"
    moreover from this have "last js = length m - 1" using m0 by simp
    moreover have "[0..<length m] = 0 # [Suc 0..<length m]" using m0 by (rule upt_conv_Cons)
    ultimately have e: "j = 0" "ks = [Suc 0..<length m]" "last js = length m - 1" using j by (metis list.inject)+
    from e(2) have "Suc 0 + length ks = length m" using m0 by simp
    with e show "j = 0 \<and> last js = length m - 1 \<and> ks = [Suc j..<Suc j + length ks]" by metis
  qed
  also have "\<dots> \<longleftrightarrow> J = {..<length m}"
  proof
    assume "js = [0..<length m]"
    then show "J = {..<length m}" unfolding js(1) [symmetric] by auto
  qed (simp add: js_def lessThan_atLeast0)
  finally show ?thesis .
qed

lemma fragments_all: "fragments m {..<length m} = m"
  by (simp add: fragments_def lessThan_atLeast0 map_nth)

lemma chunks_push_fragment:
  assumes "ordered_message si n m" "J \<subseteq> {..<length m}" "j < length m" "j \<notin> J" "cs_chunks s = fragments m J"
  shows "cs_chunks (snd (chunks_push s (m ! j))) = fragments m (insert j J)"
    and "cs_ssn (snd (chunks_push s (m ! j))) = cs_ssn s"
proof -
  have "finite J" using assms(2) finite_subset by blast
  then have "\<not> list_ex (\<lambda>c. pd_tsn c = pd_tsn (m ! j)) (cs_chunks s)"
    using assms by (auto simp: list_ex_iff fragments_def ordered_message_lt(2) subset_eq)
  then show "cs_chunks (snd (chunks_push s (m ! j))) = fragments m (insert j J)"
    "cs_ssn (snd (chunks_push s (m ! j))) = cs_ssn s"
    using sort_fragments [OF assms(1-4)] assms(5) by (simp_all add: chunks_push_def Let_def)
qed

section \<open>The ordered messages of a stream\<close>

definition ordered_stream :: "u16 \<Rightarrow> chunk_payload_data list list \<Rightarrow> bool" where
  "ordered_stream si ms \<longleftrightarrow> (\<forall>i < length ms. ordered_message si (of_nat i) (ms ! i))"

definition arrived :: "(nat \<times> nat) set \<Rightarrow> nat \<Rightarrow> nat set" where
  "arrived S i = {j. (i, j) \<in> S}"

lemma mem_arrived: "j \<in> arrived S i \<longleftrightarrow> (i, j) \<in> S"
  by (simp add: arrived_def)

lemma arrived_insert:
  "arrived (insert (i, j) S) i = insert j (arrived S i)" "k \<noteq> i \<Longrightarrow> arrived (insert (i, j) S) k = arrived S k"
  by (auto simp: arrived_def)

text \<open>The messages from the \<open>r\<close>-th on of which something has arrived.\<close>

definition started :: "(nat \<times> nat) set \<Rightarrow> nat \<Rightarrow> nat set" where
  "started S r = {i. r \<le> i \<and> arrived S i \<noteq> {}}"

abbreviation proj :: "chunks \<Rightarrow> u16 \<times> chunk_payload_data list" where
  "proj s \<equiv> (cs_ssn s, cs_chunks s)"

definition set_of :: "chunk_payload_data list list \<Rightarrow> (nat \<times> nat) set \<Rightarrow> nat \<Rightarrow> u16 \<times> chunk_payload_data list" where
  "set_of ms S i = (of_nat i, fragments (ms ! i) (arrived S i))"

text \<open>
  The state of the queue after \<open>r\<close> ordered messages have been read and the fragments \<open>S\<close> have
  arrived: one set per started message, in the order of the messages.
\<close>

definition rq_inv :: "u16 \<Rightarrow> chunk_payload_data list list \<Rightarrow> (nat \<times> nat) set \<Rightarrow> nat \<Rightarrow> reassembly_queue \<Rightarrow> bool" where
  "rq_inv si ms S r q \<longleftrightarrow>
     rq_si q = si \<and> rq_next_ssn q = of_nat r \<and> r \<le> length ms \<and>
     (\<forall>(i, j) \<in> S. i < length ms \<and> i < r + 32768 \<and> j < length (ms ! i)) \<and>
     (\<forall>i < r. arrived S i = {..<length (ms ! i)}) \<and>
     map proj (rq_ordered q) = map (set_of ms S) (sorted_list_of_set (started S r))"

lemma rq_new_inv [inv_intro]: "rq_inv si ms {} 0 (rq_new si)"
  by (simp add: rq_inv_def rq_new_def started_def arrived_def)

lemma ssn_window:
  assumes "r \<le> a" "a < r + 32768" "r \<le> b" "b < r + 32768"
  shows "sna16lt (of_nat a) (of_nat b) \<longleftrightarrow> a < b" "(of_nat a :: u16) = of_nat b \<longleftrightarrow> a = b"
    and "sna16gt (of_nat a) (of_nat r) \<longleftrightarrow> r < a"
proof -
  have d: "(of_nat x :: u16) - of_nat r = of_nat (x - r)" if "r \<le> x" for x
    using that by (simp add: of_nat_diff)
  have u: "unat ((of_nat x :: u16) - of_nat r) = x - r" if "r \<le> x" "x < r + 32768" for x
    unfolding d [OF that(1)] using that by (intro unat_of_nat16) linarith
  have w: "ssn.window (of_nat r) (of_nat x)" if "r \<le> x" "x < r + 32768" for x
    using u [OF that] that by (simp add: ssn.window_def)
  show "sna16lt (of_nat a) (of_nat b) \<longleftrightarrow> a < b"
    using ssn.lt_window [OF w w, of a b] u assms by auto
  show "(of_nat a :: u16) = of_nat b \<longleftrightarrow> a = b"
    using u [of a] u [of b] assms by force
  show "sna16gt (of_nat a) (of_nat r) \<longleftrightarrow> r < a"
    using ssn.gt_flip [OF w w, of a r] ssn.lt_window [OF w w, of r a] u [of a] assms by auto
qed

lemma rq_inv_finite:
  assumes "rq_inv si ms S r q"
  shows "finite (started S r) \<and> (\<forall>i \<in> started S r. r \<le> i \<and> i < r + 32768 \<and> i < length ms)"
proof -
  have "\<forall>i \<in> started S r. r \<le> i \<and> i < r + 32768 \<and> i < length ms"
    using assms by (fastforce simp: rq_inv_def started_def arrived_def)
  moreover from this have "started S r \<subseteq> {..<r + 32768}" by auto
  ultimately show ?thesis using finite_subset by blast
qed

lemma push_to_set_None:
  assumes "map proj ss = map (set_of ms S) is" "\<forall>k \<in> set is. (of_nat k :: u16) \<noteq> pd_stream_sequence_number c"
  shows "push_to_set ss c = None"
  using assms by (induction ss arbitrary: "is") (auto simp: set_of_def Cons_eq_map_conv)

lemma push_to_set_Some:
  assumes "map proj ss = map (set_of ms S) is" "i \<in> set is" "distinct is"
    and "\<forall>k \<in> set is. (of_nat k :: u16) = pd_stream_sequence_number c \<longleftrightarrow> k = i"
    and "\<And>s. proj s = set_of ms S i \<Longrightarrow> proj (snd (chunks_push s c)) = set_of ms S' i"
    and "\<And>k. k \<noteq> i \<Longrightarrow> set_of ms S k = set_of ms S' k"
  shows "\<exists>ok ss'. push_to_set ss c = Some (ok, ss') \<and> map proj ss' = map (set_of ms S') is"
  using assms(1-4)
proof (induction ss arbitrary: "is")
  case (Cons s ss)
  then obtain k ks where k: "is = k # ks" "proj s = set_of ms S k" "map proj ss = map (set_of ms S) ks"
    by (auto simp: Cons_eq_map_conv)
  show ?case
  proof (cases "k = i")
    case True
    obtain ok s' where p: "chunks_push s c = (ok, s')" by fastforce
    have "map (set_of ms S) ks = map (set_of ms S') ks"
      using Cons.prems(3) k(1) True by (intro map_cong refl assms(6)) auto
    moreover have "proj s' = set_of ms S' i" using assms(5) [of s] k(2) True p by simp
    moreover have "cs_ssn s = pd_stream_sequence_number c"
      using Cons.prems(4) k(1,2) True by (simp add: set_of_def)
    ultimately show ?thesis using k(1,3) True p by (intro exI [of _ ok] exI [of _ "s' # ss"]) simp
  next
    case False
    from Cons.IH [OF k(3)] Cons.prems k(1) False obtain ok ss' where
      IH: "push_to_set ss c = Some (ok, ss')" "map proj ss' = map (set_of ms S') ks"
      by auto
    have "cs_ssn s \<noteq> pd_stream_sequence_number c"
      using Cons.prems(4) k(1,2) False by (simp add: set_of_def)
    with IH k(1,2) assms(6) [OF False] show ?thesis by (intro exI [of _ ok] exI [of _ "s # ss'"]) simp
  qed
qed simp

lemma rq_push_ordered_inv [inv_intro]:
  assumes str: "ordered_stream si ms" and inv: "rq_inv si ms S r q"
    and i: "i < length ms" "i < r + 32768" "j < length (ms ! i)" "(i, j) \<notin> S"
  shows "rq_inv si ms (insert (i, j) S) r (snd (rq_push now q (ms ! i ! j)))"
proof -
  let ?c = "ms ! i ! j" and ?S = "insert (i, j) S"
  have m: "ordered_message si (of_nat i) (ms ! i)" using str i(1) by (simp add: ordered_stream_def)
  note c = ordered_messageD [OF m i(3)]
  have r: "r \<le> i" using inv i(3,4) unfolding rq_inv_def by (metis (no_types, lifting) lessThan_iff mem_arrived not_less)
  have J: "arrived S i \<subseteq> {..<length (ms ! i)}" using inv by (auto simp: rq_inv_def mem_arrived)
  note arr = arrived_insert
  have other: "\<And>k. k \<noteq> i \<Longrightarrow> set_of ms S k = set_of ms ?S k" by (auto simp: set_of_def arr)
  note fin = rq_inv_finite [OF inv]
  have ssn: "(of_nat k :: u16) = pd_stream_sequence_number ?c \<longleftrightarrow> k = i" if "k \<in> started S r" for k
    using fin that ssn_window(2) [of r k i] r i(2) c(3) by simp
  have push: "proj (snd (chunks_push s ?c)) = set_of ms ?S i" if "proj s = (of_nat i, fragments (ms ! i) (arrived S i))" for s
    using chunks_push_fragment [OF m J i(3), of s] that i(4) by (simp add: set_of_def arr mem_arrived)
  have lt: "\<not> sna16lt (pd_stream_sequence_number ?c) (rq_next_ssn q)"
    using inv ssn_window(1) [of r i r] r i(2) c(3) by (simp add: rq_inv_def)
  let ?q = "q\<lparr>rq_n_bytes := rq_n_bytes q + length (pd_user_data ?c)\<rparr>"
  have "\<exists>o' ok n. rq_push now q ?c = (ok, q\<lparr>rq_n_bytes := n, rq_ordered := o'\<rparr>) \<and>
    map proj o' = map (set_of ms ?S) (sorted_list_of_set (started ?S r))"
  proof (cases "i \<in> started S r")
    case True
    then have st: "started ?S r = started S r" by (auto simp: started_def arrived_def)
    obtain ok ss where p: "push_to_set (rq_ordered q) ?c = Some (ok, ss)"
        "map proj ss = map (set_of ms ?S) (sorted_list_of_set (started S r))"
      using push_to_set_Some [of "rq_ordered q" ms S "sorted_list_of_set (started S r)" i ?c ?S] inv True fin ssn other push
      by (auto simp: rq_inv_def set_of_def)
    then show ?thesis using c lt inv by (auto simp: rq_push_def rq_inv_def st)
  next
    case False
    then have empty: "arrived S i = {}" using r by (auto simp: started_def)
    have st: "started ?S r = insert i (started S r)" using r by (auto simp: started_def arrived_def)
    have p: "push_to_set (rq_ordered q) ?c = None"
      using push_to_set_None [of "rq_ordered q" ms S "sorted_list_of_set (started S r)" ?c] inv False fin ssn
      by (auto simp: rq_inv_def)
    define s where "s = chunks_new now (pd_stream_sequence_number ?c) (pd_payload_type ?c) []"
    obtain ok s' where s': "chunks_push s ?c = (ok, s')" by fastforce
    have "proj s' = set_of ms ?S i"
      using push [of s] s' c(3) by (simp add: empty s_def chunks_new_def fragments_def)
    moreover have "map (set_of ms S) (sorted_list_of_set (started S r)) = map (set_of ms ?S) (sorted_list_of_set (started S r))"
      using False fin by (intro map_cong refl other) auto
    ultimately have "map proj (rq_ordered q @ [s']) = map (set_of ms ?S) (sorted_list_of_set (started S r)) @ [set_of ms ?S i]"
      using inv by (simp add: rq_inv_def)
    moreover have "map proj (sort_chunks_by_ssn (rq_ordered q @ [s'])) =
        sort_by (\<lambda>a b. sna16lt (fst a) (fst b)) (map proj (rq_ordered q @ [s']))"
      by (simp only: sort_by_map sort_chunks_by_ssn_def fst_conv)
    moreover have "sort_by (\<lambda>a b. sna16lt (fst a) (fst b))
        (map (set_of ms ?S) (sorted_list_of_set (started S r)) @ [set_of ms ?S i]) =
        map (set_of ms ?S) (sorted_list_of_set (insert i (started S r)))"
      using fin False r i(2) by (intro sort_by_index) (auto simp: set_of_def ssn_window(1) [of r])
    ultimately have "map proj (sort_chunks_by_ssn (rq_ordered q @ [s'])) = map (set_of ms ?S) (sorted_list_of_set (started ?S r))"
      by (simp only: st)
    then show ?thesis
      using c(1-3) lt inv p s' [unfolded s_def]
      by (intro exI [of _ "sort_chunks_by_ssn (rq_ordered q @ [s'])"] exI [of _ ok]
          exI [of _ "rq_n_bytes q + length (pd_user_data ?c)"]) (simp add: rq_push_def rq_inv_def)
  qed
  moreover have "\<forall>k < r. arrived ?S k = {..<length (ms ! k)}" using inv r by (auto simp: rq_inv_def arr)
  ultimately show ?thesis using inv i by (auto simp: rq_inv_def)
qed


section \<open>Unordered messages\<close>

text \<open>The fragments of an unordered message and the fragments that may follow a first one.\<close>

fun tail_run :: "u32 \<Rightarrow> chunk_payload_data list \<Rightarrow> bool" where
  "tail_run l [] = False"
| "tail_run l (c # cs) =
     (\<not> pd_beginning_fragment c \<and> pd_tsn c = l + 1 \<and>
      (if pd_ending_fragment c then cs = [] else tail_run (pd_tsn c) cs))"

fun run :: "chunk_payload_data list \<Rightarrow> bool" where
  "run [] = False"
| "run (c # cs) =
     (pd_beginning_fragment c \<and> (if pd_ending_fragment c then cs = [] else tail_run (pd_tsn c) cs))"

lemma tail_run_complete: "tail_run l cs \<Longrightarrow> cs \<noteq> [] \<and> pd_ending_fragment (last cs) \<and> contiguous l cs"
  by (induction l cs rule: tail_run.induct) (auto split: if_splits)

lemma run_complete: "run m \<Longrightarrow> chunks_is_complete (chunks_new now s p m)"
  using tail_run_complete
  by (cases m) (force simp: chunks_is_complete_def chunks_new_def last_conv_nth split: if_splits)+

definition run_at :: "chunk_payload_data list \<Rightarrow> nat \<Rightarrow> int \<Rightarrow> nat \<Rightarrow> bool" where
  "run_at cs i s k \<longleftrightarrow> (\<exists>as m bs. cs = as @ m @ bs \<and> run m \<and> s = int i + int (length as) \<and> k = length m)"

definition tail_at :: "u32 \<Rightarrow> chunk_payload_data list \<Rightarrow> nat \<Rightarrow> bool" where
  "tail_at l cs k \<longleftrightarrow> (\<exists>m bs. cs = m @ bs \<and> tail_run l m \<and> k = length m)"

lemma run_at_Nil [simp]: "\<not> run_at [] i s k" and tail_at_Nil [simp]: "\<not> tail_at l [] k"
  by (auto simp: run_at_def tail_at_def)

lemma tail_at_Cons:
  "tail_at l (c # cs) k \<longleftrightarrow>
     \<not> pd_beginning_fragment c \<and> pd_tsn c = l + 1 \<and>
     (if pd_ending_fragment c then k = 1 else k \<noteq> 0 \<and> tail_at (pd_tsn c) cs (k - 1))"
proof -
  have "tail_at l (c # cs) k \<longleftrightarrow> (\<exists>m bs. cs = m @ bs \<and> tail_run l (c # m) \<and> k = Suc (length m))"
    (is "?l \<longleftrightarrow> ?r")
  proof
    assume ?l
    then obtain m bs where m: "c # cs = m @ bs" "tail_run l m" "k = length m" unfolding tail_at_def by blast
    then obtain m' where "m = c # m'" "cs = m' @ bs" by (cases m) auto
    with m have "cs = m' @ bs \<and> tail_run l (c # m') \<and> k = Suc (length m')" by (simp del: tail_run.simps)
    then show ?r by blast
  next
    assume ?r
    then obtain m bs where "cs = m @ bs" "tail_run l (c # m)" "k = Suc (length m)" by blast
    then have "c # cs = (c # m) @ bs \<and> tail_run l (c # m) \<and> k = length (c # m)" by (simp del: tail_run.simps)
    then show ?l unfolding tail_at_def by blast
  qed
  then show ?thesis
    by (cases "pd_ending_fragment c"; cases k) (auto simp: tail_at_def)
qed

lemma run_at_Cons:
  "run_at (c # cs) i s k \<longleftrightarrow>
     run_at cs (i + 1) s k \<or>
     s = int i \<and> pd_beginning_fragment c \<and>
     (if pd_ending_fragment c then k = 1 else k \<noteq> 0 \<and> tail_at (pd_tsn c) cs (k - 1))"
  (is "?l \<longleftrightarrow> ?r1 \<or> ?r2")
proof
  assume ?l
  then obtain as m bs where *: "c # cs = as @ m @ bs" "run m" "s = int i + int (length as)" "k = length m"
    by (auto simp: run_at_def)
  show "?r1 \<or> ?r2"
  proof (cases as)
    case Nil
    with *(1,2) obtain m' where "m = c # m'" "cs = m' @ bs" by (cases m) auto
    with * Nil show ?thesis by (auto simp: tail_at_def)
  next
    case (Cons a as')
    with * show ?thesis by (auto simp: run_at_def)
  qed
next
  assume "?r1 \<or> ?r2"
  then show ?l
  proof
    assume ?r1
    then obtain as m bs where "cs = as @ m @ bs" "run m" "s = int (i + 1) + int (length as)" "k = length m"
      by (auto simp: run_at_def)
    then have "c # cs = (c # as) @ m @ bs \<and> run m \<and> s = int i + int (length (c # as)) \<and> k = length m" by simp
    then show ?l unfolding run_at_def by blast
  next
    assume r: ?r2
    show ?l
    proof (cases "pd_ending_fragment c")
      case True
      with r have "c # cs = [] @ [c] @ cs \<and> run [c] \<and> s = int i + int (length []) \<and> k = length [c]" by simp
      then show ?l unfolding run_at_def by blast
    next
      case False
      with r obtain m bs where "cs = m @ bs" "tail_run (pd_tsn c) m" "k = Suc (length m)"
        by (auto simp: tail_at_def)
      with r False have "c # cs = [] @ (c # m) @ bs \<and> run (c # m) \<and> s = int i + int (length []) \<and> k = length (c # m)"
        by simp
      then show ?l unfolding run_at_def by blast
    qed
  qed
qed

lemma find_set_loop_Some:
  "find_set_loop i s n l cs = Some (s', k) \<Longrightarrow>
   run_at cs i s' k \<or> s \<ge> 0 \<and> s' = s \<and> n \<le> k \<and> tail_at l cs (k - n)"
  by (induction i s n l cs rule: find_set_loop.induct)
     (auto simp: run_at_Cons tail_at_Cons split: if_splits)

lemma find_set_loop_None:
  "find_set_loop i s n l cs = None \<Longrightarrow> \<not> run_at cs i s' k \<and> (s \<ge> 0 \<longrightarrow> \<not> tail_at l cs k')"
  by (induction i s n l cs arbitrary: s' k k' rule: find_set_loop.induct)
     (auto simp: run_at_Cons tail_at_Cons split: if_splits)

lemma rq_find_set:
  "rq_find_complete_unordered_chunk_set now q = (None, q) \<and>
     (\<forall>as m bs. rq_unordered_chunks q = as @ m @ bs \<longrightarrow> \<not> run m) \<or>
   (\<exists>as m bs. rq_unordered_chunks q = as @ m @ bs \<and> run m \<and>
     rq_find_complete_unordered_chunk_set now q =
       (Some (chunks_new now 0 (pd_payload_type (hd m)) m), q\<lparr>rq_unordered_chunks := as @ bs\<rparr>))"
proof (cases "find_set_loop 0 (- 1) 0 0 (rq_unordered_chunks q)")
  case None
  from find_set_loop_None [OF this] have "\<And>s k. \<not> run_at (rq_unordered_chunks q) 0 s k" by simp
  then have "\<not> run m" if "rq_unordered_chunks q = as @ m @ bs" for as m bs
    using that unfolding run_at_def by (metis add_0 of_nat_0)
  then show ?thesis by (auto simp: rq_find_complete_unordered_chunk_set_def None)
next
  case (Some r)
  then obtain s k where r: "find_set_loop 0 (- 1) 0 0 (rq_unordered_chunks q) = Some (s, k)" by (cases r) auto
  from find_set_loop_Some [OF this] obtain as m bs where *:
    "rq_unordered_chunks q = as @ m @ bs" "run m" "s = int (length as)" "k = length m"
    by (auto simp: run_at_def)
  have "m \<noteq> []" using *(2) by auto
  with * have "rq_find_complete_unordered_chunk_set now q =
      (Some (chunks_new now 0 (pd_payload_type (hd m)) m), q\<lparr>rq_unordered_chunks := as @ bs\<rparr>)"
    using r unfolding rq_find_complete_unordered_chunk_set_def by (simp add: hd_conv_nth)
  with * show ?thesis by blast
qed

lemma rq_push_unordered:
  assumes "pd_unordered c"
  obtains "snd (rq_push now q c) = q" "pd_stream_identifier c \<noteq> rq_si q" "\<not> fst (rq_push now q c)"
  | n cs where "rq_push now q c = (False, q\<lparr>rq_n_bytes := n, rq_unordered_chunks := cs\<rparr>)"
      "n = rq_n_bytes q + length (pd_user_data c)" "cs = sort_chunks_by_tsn (rq_unordered_chunks q @ [c])"
      "\<forall>as m bs. cs = as @ m @ bs \<longrightarrow> \<not> run m"
  | n as m bs where
      "rq_push now q c = (True, q\<lparr>rq_n_bytes := n, rq_unordered_chunks := as @ bs,
         rq_unordered := rq_unordered q @ [chunks_new now 0 (pd_payload_type (hd m)) m]\<rparr>)"
      "n = rq_n_bytes q + length (pd_user_data c)" "as @ m @ bs = sort_chunks_by_tsn (rq_unordered_chunks q @ [c])" "run m"
proof (cases "pd_stream_identifier c = rq_si q")
  case False
  with that(1) show thesis by (simp add: rq_push_def)
next
  case True
  let ?q = "q\<lparr>rq_n_bytes := rq_n_bytes q + length (pd_user_data c),
    rq_unordered_chunks := sort_chunks_by_tsn (rq_unordered_chunks q @ [c])\<rparr>"
  have push: "rq_push now q c = (case rq_find_complete_unordered_chunk_set now ?q of
      (Some cset, q) \<Rightarrow> (True, q\<lparr>rq_unordered := rq_unordered q @ [cset]\<rparr>) | (None, q) \<Rightarrow> (False, q))"
    using True assms by (simp add: rq_push_def Let_def)
  from rq_find_set [of now ?q] show thesis
  proof (elim disjE exE conjE)
    assume "rq_find_complete_unordered_chunk_set now ?q = (None, ?q)"
      "\<forall>as m bs. rq_unordered_chunks ?q = as @ m @ bs \<longrightarrow> \<not> run m"
    then show thesis by (intro that(2) [OF _ refl refl]) (simp_all add: push)
  next
    fix as m bs
    assume "rq_unordered_chunks ?q = as @ m @ bs" "run m" "rq_find_complete_unordered_chunk_set now ?q =
      (Some (chunks_new now 0 (pd_payload_type (hd m)) m), ?q\<lparr>rq_unordered_chunks := as @ bs\<rparr>)"
    then show thesis by (intro that(3) [OF _ refl]) (simp_all add: push)
  qed
qed

section \<open>Reading in order\<close>

lemma front_map: "front (map f xs) = map_option f (front xs)"
  by (cases xs) auto

lemma rq_readable_ordered:
  assumes str: "ordered_stream si ms" and inv: "rq_inv si ms S r q"
  shows "rq_readable_ordered_chunks q \<noteq> None \<longleftrightarrow> r < length ms \<and> arrived S r = {..<length (ms ! r)}"
    and "rq_readable_ordered_chunks q = Some s \<Longrightarrow>
      rq_ordered q = s # tl (rq_ordered q) \<and> cs_chunks s = ms ! r \<and> cs_ssn s = of_nat r \<and>
      rq_inv si ms S (r + 1) (q\<lparr>rq_next_ssn := of_nat (r + 1), rq_ordered := tl (rq_ordered q)\<rparr>)"
proof -
  note fin = rq_inv_finite [OF inv]
  define ks where "ks = sorted_list_of_set (started S r)"
  have p: "map proj (rq_ordered q) = map (set_of ms S) ks" using inv by (simp add: rq_inv_def ks_def)
  have sks: "set ks = started S r" using fin by (simp add: ks_def)
  have empty: "arrived S r \<noteq> {..<length (ms ! r)}" if "r \<notin> set ks" "r < length ms"
  proof -
    have "ms ! r \<noteq> []" using str that(2) unfolding ordered_stream_def ordered_message_def by blast
    moreover have "arrived S r = {}" using that(1) unfolding sks by (simp add: started_def)
    ultimately show ?thesis by auto
  qed
  have "(rq_readable_ordered_chunks q \<noteq> None \<longleftrightarrow> r < length ms \<and> arrived S r = {..<length (ms ! r)}) \<and>
    (rq_readable_ordered_chunks q = Some s \<longrightarrow>
      rq_ordered q = s # tl (rq_ordered q) \<and> cs_chunks s = ms ! r \<and> cs_ssn s = of_nat r \<and>
      rq_inv si ms S (r + 1) (q\<lparr>rq_next_ssn := of_nat (r + 1), rq_ordered := tl (rq_ordered q)\<rparr>))"
  proof (cases ks)
    case Nil
    with p empty show ?thesis by (auto simp: rq_readable_ordered_chunks_def)
  next
    case (Cons i rest)
    with p obtain s0 ss where q: "rq_ordered q = s0 # ss" "proj s0 = set_of ms S i" "map proj ss = map (set_of ms S) rest"
      by (auto simp: map_eq_Cons_conv)
    have i: "r \<le> i" "i < r + 32768" "i < length ms" using fin sks Cons by auto
    have "sorted ks" "distinct ks" by (simp_all add: ks_def)
    with Cons have rest: "\<forall>k \<in> set rest. i < k" "sorted rest" "distinct rest" by (auto simp: le_less)
    have m: "ordered_message si (of_nat i) (ms ! i)" using str i(3) by (simp add: ordered_stream_def)
    have "arrived S i \<subseteq> {..<length (ms ! i)}" using inv by (auto simp: rq_inv_def mem_arrived)
    with is_complete_fragments [OF m this, of s0] q(2)
    have comp: "chunks_is_complete s0 \<longleftrightarrow> arrived S i = {..<length (ms ! i)}" by (simp add: set_of_def)
    have gt: "sna16gt (cs_ssn s0) (rq_next_ssn q) \<longleftrightarrow> r < i"
      using ssn_window(3) [OF i(1,2,1,2)] q(2) inv by (simp add: set_of_def rq_inv_def)
    have r: "r \<in> set ks \<longleftrightarrow> i = r" using Cons rest(1) i(1) by auto
    show ?thesis
    proof (cases "i = r \<and> arrived S r = {..<length (ms ! r)}")
      case False
      then have "rq_readable_ordered_chunks q = None"
        using q(1) comp gt i(1) by (auto simp: rq_readable_ordered_chunks_def)
      with False empty r show ?thesis by auto
    next
      case True
      then have ro: "rq_readable_ordered_chunks q = Some s0"
        using q(1) comp gt by (auto simp: rq_readable_ordered_chunks_def)
      have "set rest = started S (r + 1)"
      proof -
        show ?thesis using sks Cons rest(1) True by (auto simp: started_def Suc_le_eq)
      qed
      then have "rest = sorted_list_of_set (started S (r + 1))"
        using rest(2,3) sorted_list_of_set.idem_if_sorted_distinct by metis
      moreover have "\<forall>k < r + 1. arrived S k = {..<length (ms ! k)}"
        using inv True by (auto simp: rq_inv_def less_Suc_eq)
      moreover have "\<forall>(k, j) \<in> S. k < length ms \<and> k < r + 1 + 32768 \<and> j < length (ms ! k)"
        using inv by (fastforce simp: rq_inv_def)
      ultimately have "rq_inv si ms S (r + 1) (q\<lparr>rq_next_ssn := of_nat (r + 1), rq_ordered := ss\<rparr>)"
        using inv q(3) i(3) True unfolding rq_inv_def by simp
      moreover have "cs_chunks s0 = ms ! r" "cs_ssn s0 = of_nat r"
        using q(2) True fragments_all by (auto simp: set_of_def)
      ultimately show ?thesis using ro q(1) True i(3) by auto
    qed
  qed
  then show "rq_readable_ordered_chunks q \<noteq> None \<longleftrightarrow> r < length ms \<and> arrived S r = {..<length (ms ! r)}"
    "rq_readable_ordered_chunks q = Some s \<Longrightarrow>
      rq_ordered q = s # tl (rq_ordered q) \<and> cs_chunks s = ms ! r \<and> cs_ssn s = of_nat r \<and>
      rq_inv si ms S (r + 1) (q\<lparr>rq_next_ssn := of_nat (r + 1), rq_ordered := tl (rq_ordered q)\<rparr>)"
    by blast+
qed

lemma rq_subtract: "rq_subtract_num_bytes q n = q\<lparr>rq_n_bytes := rq_n_bytes q - n\<rparr>"
  by (simp add: rq_subtract_num_bytes_def)

lemma rq_read_cases:
  obtains (none) "rq_read q = (None, q)" "rq_unordered q = []" "rq_readable_ordered_chunks q = None"
  | (unordered) u us where "rq_unordered q = u # us"
      "rq_read q = (Some u, q\<lparr>rq_unordered := us, rq_n_bytes := rq_n_bytes q - chunks_len u\<rparr>)"
  | (ordered) s ss where "rq_readable_ordered_chunks q = Some s" "rq_ordered q = s # ss"
      "rq_read q = (Some s, q\<lparr>rq_next_ssn := (if cs_ssn s = rq_next_ssn q then rq_next_ssn q + 1 else rq_next_ssn q),
         rq_ordered := ss, rq_n_bytes := rq_n_bytes q - chunks_len s\<rparr>)"
proof -
  have ro: "rq_readable_ordered_chunks q =
      (if rq_ordered q \<noteq> [] \<and> chunks_is_complete (rq_ordered q ! 0) \<and> \<not> sna16gt (cs_ssn (rq_ordered q ! 0)) (rq_next_ssn q)
       then Some (rq_ordered q ! 0) else None)"
    by (cases "rq_ordered q") (auto simp: rq_readable_ordered_chunks_def)
  have take: "rq_take_ordered q = (s, q\<lparr>rq_next_ssn := (if cs_ssn s = rq_next_ssn q then rq_next_ssn q + 1 else rq_next_ssn q),
      rq_ordered := ss\<rparr>)" if "rq_ordered q = s # ss" for s ss
    using that by (simp add: rq_take_ordered_def)
  consider "rq_unordered q = []" "rq_readable_ordered_chunks q = None" "rq_read q = (None, q)"
    | u us where "rq_unordered q = u # us"
      "rq_read q = (Some (fst (rq_take_unordered q)), rq_subtract_num_bytes (snd (rq_take_unordered q)) (chunks_len (fst (rq_take_unordered q))))"
    | s ss where "rq_readable_ordered_chunks q = Some s" "rq_ordered q = s # ss"
      "rq_read q = (Some (fst (rq_take_ordered q)), rq_subtract_num_bytes (snd (rq_take_ordered q)) (chunks_len (fst (rq_take_ordered q))))"
  proof (cases "rq_unordered q")
    case Nil
    show thesis
    proof (cases "rq_readable_ordered_chunks q")
      case None
      with Nil ro have "rq_read q = (None, q)"
        by (auto simp: rq_read_def rq_readable_unordered_chunks_def Let_def split: if_splits)
      with Nil None that(1) show thesis by blast
    next
      case (Some s)
      then obtain ss where ss: "rq_ordered q = s # ss" using ro by (cases "rq_ordered q") (auto split: if_splits)
      with Nil Some ro have "rq_read q = (Some (fst (rq_take_ordered q)), rq_subtract_num_bytes (snd (rq_take_ordered q)) (chunks_len (fst (rq_take_ordered q))))"
        by (auto simp: rq_read_def rq_readable_unordered_chunks_def split: if_splits prod.split)
      with Some ss that(3) show thesis by blast
    qed
  next
    case (Cons u us)
    show thesis
    proof (cases "rq_readable_ordered_chunks q")
      case None
      with Cons have "rq_read q = (Some (fst (rq_take_unordered q)), rq_subtract_num_bytes (snd (rq_take_unordered q)) (chunks_len (fst (rq_take_unordered q))))"
        by (auto simp: rq_read_def rq_readable_unordered_chunks_def split: prod.split)
      with Cons that(2) show thesis by blast
    next
      case (Some s)
      then obtain ss where ss: "rq_ordered q = s # ss" using ro by (cases "rq_ordered q") (auto split: if_splits)
      show thesis
      proof (cases "cs_timestamp u < cs_timestamp s")
        case True
        with Cons Some have "rq_read q = (Some (fst (rq_take_unordered q)), rq_subtract_num_bytes (snd (rq_take_unordered q)) (chunks_len (fst (rq_take_unordered q))))"
          by (auto simp: rq_read_def rq_readable_unordered_chunks_def split: prod.split)
        with Cons that(2) show thesis by blast
      next
        case False
        with Cons Some have "rq_read q = (Some (fst (rq_take_ordered q)), rq_subtract_num_bytes (snd (rq_take_ordered q)) (chunks_len (fst (rq_take_ordered q))))"
          by (auto simp: rq_read_def rq_readable_unordered_chunks_def split: prod.split)
        with Some ss that(3) show thesis by blast
      qed
    qed
  qed
  then show thesis
  proof cases
    case 1
    with that(1) show thesis by blast
  next
    case (2 u us)
    with that(2) show thesis by (simp add: rq_take_unordered_def rq_subtract)
  next
    case (3 s ss)
    with that(3) take show thesis by (simp add: rq_subtract)
  qed
qed

definition is_ordered :: "chunks \<Rightarrow> bool" where
  "is_ordered cs \<longleftrightarrow> \<not> pd_unordered (hd (cs_chunks cs))"

text \<open>
  The queue of stream \<open>si\<close> while the messages \<open>ms\<close> arrive: fragments in any order, each once (the
  association drops duplicates) and none 32768 or more messages ahead of the reader, unordered
  chunks at any time, and reads at any time. \<open>S\<close> are the fragments that have arrived, \<open>outs\<close> is what
  has been read.
\<close>

inductive received :: "u16 \<Rightarrow> chunk_payload_data list list \<Rightarrow> reassembly_queue \<Rightarrow> (nat \<times> nat) set \<Rightarrow> chunks list \<Rightarrow> bool"
  for si ms where
  start: "received si ms (rq_new si) {} []"
| arrive: "received si ms q S outs \<Longrightarrow> i < length ms \<Longrightarrow> j < length (ms ! i) \<Longrightarrow> (i, j) \<notin> S \<Longrightarrow>
    i < length (filter is_ordered outs) + 32768 \<Longrightarrow>
    received si ms (snd (rq_push now q (ms ! i ! j))) (insert (i, j) S) outs"
| arrive_unordered: "received si ms q S outs \<Longrightarrow> pd_unordered c \<Longrightarrow>
    received si ms (snd (rq_push now q c)) S outs"
| read: "received si ms q S outs \<Longrightarrow> rq_read q = (Some cs, q') \<Longrightarrow> received si ms q' S (outs @ [cs])"

definition unordered_ok :: "reassembly_queue \<Rightarrow> bool" where
  "unordered_ok q \<longleftrightarrow> (\<forall>u \<in> set (rq_unordered q). \<not> is_ordered u) \<and> (\<forall>c \<in> set (rq_unordered_chunks q). pd_unordered c)"

lemma rq_push_ordered_unordered:
  "\<not> pd_unordered c \<Longrightarrow>
   rq_unordered (snd (rq_push now q c)) = rq_unordered q \<and>
   rq_unordered_chunks (snd (rq_push now q c)) = rq_unordered_chunks q"
  by (auto simp: rq_push_def Let_def split: option.split prod.split)

lemma sort_chunks_by_tsn_simps [simp]:
  "set (sort_chunks_by_tsn xs) = set xs" "mset (sort_chunks_by_tsn xs) = mset xs"
  by (simp_all add: sort_chunks_by_tsn_def)

lemma rq_push_unordered_inv:
  assumes "pd_unordered c" "rq_inv si ms S r q" "unordered_ok q"
  shows "rq_inv si ms S r (snd (rq_push now q c)) \<and> unordered_ok (snd (rq_push now q c))"
  using assms(1)
proof (cases rule: rq_push_unordered [where q = q and now = now])
  case 1
  with assms show ?thesis by simp
next
  case (2 n cs)
  with assms show ?thesis by (simp add: rq_inv_def unordered_ok_def)
next
  case (3 n as m bs)
  have "\<forall>x \<in> set as \<union> set m \<union> set bs. pd_unordered x"
    using assms(1,3) arg_cong [OF 3(3), of set] by (auto simp: unordered_ok_def)
  moreover have "hd m \<in> set m" using 3(4) by (cases m) auto
  ultimately show ?thesis
    using assms 3(1) by (auto simp: rq_inv_def unordered_ok_def is_ordered_def chunks_new_def)
qed

lemma readable_is_ordered:
  assumes "ordered_stream si ms" "rq_inv si ms S r q" "rq_readable_ordered_chunks q = Some s"
  shows "is_ordered s"
proof -
  have "r < length ms" using rq_readable_ordered(1) [OF assms(1,2)] assms(3) by simp
  then have m: "ordered_message si (of_nat r) (ms ! r)" using assms(1) by (simp add: ordered_stream_def)
  then have "ms ! r \<noteq> []" by (simp add: ordered_message_def)
  with ordered_messageD(2) [OF m, of 0] rq_readable_ordered(2) [OF assms] show ?thesis
    by (simp add: is_ordered_def hd_conv_nth)
qed

lemma received_inv:
  assumes str: "ordered_stream si ms" and "received si ms q S outs"
  shows "rq_inv si ms S (length (filter is_ordered outs)) q \<and> unordered_ok q \<and>
    map cs_chunks (filter is_ordered outs) = take (length (filter is_ordered outs)) ms"
  using assms(2)
proof (induction rule: received.induct)
  case start
  then show ?case using rq_new_inv by (simp add: unordered_ok_def rq_new_def)
next
  case (arrive q S outs i j now)
  have "ordered_message si (of_nat i) (ms ! i)" using str arrive.hyps(2) by (simp add: ordered_stream_def)
  with ordered_messageD(2) arrive.hyps(3) have "\<not> pd_unordered (ms ! i ! j)" by blast
  with arrive rq_push_ordered_inv [OF str] show ?case
    by (auto simp: unordered_ok_def rq_push_ordered_unordered)
next
  case (arrive_unordered q S outs c now)
  with rq_push_unordered_inv show ?case by blast
next
  case (read q S outs cs q')
  let ?r = "length (filter is_ordered outs)"
  note IH = read.IH [THEN conjunct1] read.IH [THEN conjunct2, THEN conjunct1] read.IH [THEN conjunct2, THEN conjunct2]
  show ?case
  proof (cases q rule: rq_read_cases)
    case none
    with read.hyps show ?thesis by simp
  next
    case (unordered u us)
    with read.hyps have "cs = u" "q' = q\<lparr>rq_unordered := us, rq_n_bytes := rq_n_bytes q - chunks_len u\<rparr>" by auto
    moreover have "\<not> is_ordered u" using IH(2) unordered(1) by (simp add: unordered_ok_def)
    ultimately show ?thesis using IH unordered(1) by (simp add: rq_inv_def unordered_ok_def)
  next
    case (ordered s ss)
    note s = rq_readable_ordered(2) [OF str IH(1) ordered(1)]
    have r: "?r < length ms" using rq_readable_ordered(1) [OF str IH(1)] ordered(1) by simp
    have "rq_next_ssn q = of_nat ?r" using IH(1) by (simp add: rq_inv_def)
    with s ordered read.hyps(2) have q': "cs = s" "q' = q\<lparr>rq_next_ssn := of_nat (?r + 1), rq_ordered := tl (rq_ordered q),
        rq_n_bytes := rq_n_bytes q - chunks_len s\<rparr>"
      by (auto simp: add.commute)
    note o = readable_is_ordered [OF str IH(1) ordered(1)]
    have "rq_inv si ms S (?r + 1) q'" using s unfolding q'(2) rq_inv_def by simp
    moreover have "unordered_ok q'" using IH(2) unfolding q'(2) by (simp add: unordered_ok_def)
    moreover have "map cs_chunks (filter is_ordered (outs @ [cs])) = take (?r + 1) ms"
      using IH(3) o s r q'(1) by (simp add: take_Suc_conv_app_nth)
    ultimately show ?thesis using o q'(1) by simp
  qed
qed

lemma rq_readable_iff: "rq_is_readable q \<longleftrightarrow> rq_unordered q \<noteq> [] \<or> rq_readable_ordered_chunks q \<noteq> None"
  by (cases "rq_ordered q") (auto simp: rq_is_readable_def rq_readable_ordered_chunks_def ssn.gt_lte)

text \<open>What a reader gets from at most \<open>fuel\<close> reads.\<close>

fun rq_drain :: "nat \<Rightarrow> reassembly_queue \<Rightarrow> chunks list" where
  "rq_drain 0 q = []"
| "rq_drain (Suc fuel) q =
     (case rq_read q of (Some cs, q') \<Rightarrow> cs # rq_drain fuel q' | (None, _) \<Rightarrow> [])"

lemma drain_all:
  assumes "ordered_stream si ms" "received si ms q S outs"
    and "\<forall>i < length ms. \<forall>j < length (ms ! i). (i, j) \<in> S"
    and "length (rq_unordered q) + (length ms - length (filter is_ordered outs)) \<le> fuel"
  shows "map cs_chunks (filter is_ordered (outs @ rq_drain fuel q)) = ms"
  using assms(2,4)
proof (induction fuel arbitrary: q outs)
  case 0
  from received_inv [OF assms(1) 0(1)] 0(2) show ?case by simp
next
  case (Suc fuel)
  note inv = received_inv [OF assms(1) Suc.prems(1), THEN conjunct1]
    received_inv [OF assms(1) Suc.prems(1), THEN conjunct2, THEN conjunct1]
    received_inv [OF assms(1) Suc.prems(1), THEN conjunct2, THEN conjunct2]
  have sub: "(i, j) \<in> S \<Longrightarrow> j < length (ms ! i)" for i j using inv(1) by (auto simp: rq_inv_def)
  show ?case
  proof (cases q rule: rq_read_cases)
    case none
    have "\<not> length (filter is_ordered outs) < length ms"
    proof
      assume r: "length (filter is_ordered outs) < length ms"
      then have "arrived S (length (filter is_ordered outs)) = {..<length (ms ! length (filter is_ordered outs))}"
        using assms(3) sub by (auto simp: mem_arrived)
      with r none(3) rq_readable_ordered(1) [OF assms(1) inv(1)] show False by simp
    qed
    with inv(3) none(1) show ?thesis by simp
  next
    case (unordered u us)
    have "\<not> is_ordered u" using inv(2) unordered(1) by (simp add: unordered_ok_def)
    with Suc.IH [OF received.read [OF Suc.prems(1) unordered(2)]] Suc.prems(2) unordered show ?thesis by simp
  next
    case (ordered s ss)
    obtain q' where rd: "rq_read q = (Some s, q')" "rq_unordered q' = rq_unordered q" using ordered(3) by simp
    note rec = received.read [OF Suc.prems(1) rd(1)]
    have "length (filter is_ordered outs) < length ms"
      using rq_readable_ordered(1) [OF assms(1) inv(1)] ordered(1) by simp
    with Suc.IH [OF rec] Suc.prems(2) rd readable_is_ordered [OF assms(1) inv(1) ordered(1)] show ?thesis by simp
  qed
qed


section \<open>The byte count\<close>

text \<open>All the fragments the queue holds.\<close>

definition rq_held :: "reassembly_queue \<Rightarrow> chunk_payload_data list" where
  "rq_held q = concat (map cs_chunks (rq_ordered q)) @ concat (map cs_chunks (rq_unordered q)) @ rq_unordered_chunks q"

definition rq_bytes_ok :: "reassembly_queue \<Rightarrow> bool" where
  "rq_bytes_ok q \<longleftrightarrow> rq_get_num_bytes q = bytes_of (rq_held q)"

lemma bytes_of_mset: "mset xs = mset ys \<Longrightarrow> bytes_of xs = bytes_of ys"
  unfolding bytes_of_def by (metis mset_map sum_mset_sum_list)

lemma payload_bytes: "length (payload cs) = bytes_of cs"
  by (induction cs) auto

lemma push_to_set_mset:
  "push_to_set ss c = Some (ok, ss') \<Longrightarrow> \<forall>s \<in> set ss. \<forall>x \<in> set (cs_chunks s). pd_tsn x \<noteq> pd_tsn c \<Longrightarrow>
   mset (concat (map cs_chunks ss')) = add_mset c (mset (concat (map cs_chunks ss)))"
proof (induction ss arbitrary: ss')
  case (Cons s ss)
  have "\<not> list_ex (\<lambda>x. pd_tsn x = pd_tsn c) (cs_chunks s)" using Cons.prems(2) by (auto simp: list_ex_iff)
  with Cons show ?case by (auto simp: chunks_push_def Let_def split: if_splits prod.splits)
qed simp

lemma push_to_set_ssn:
  "push_to_set ss c = None \<longleftrightarrow> (\<forall>s \<in> set ss. cs_ssn s \<noteq> pd_stream_sequence_number c)"
  by (induction ss) (auto split: prod.split)

lemma rq_push_bytes [inv_intro]:
  assumes "rq_bytes_ok q" "\<forall>x \<in> set (rq_held q). pd_tsn x \<noteq> pd_tsn c"
  shows "rq_bytes_ok (snd (rq_push now q c))"
proof (cases "pd_unordered c")
  case True
  then show ?thesis
  proof (cases rule: rq_push_unordered [where q = q and now = now])
    case 1
    with assms show ?thesis by simp
  next
    case (2 n cs)
    have "bytes_of cs = bytes_of (rq_unordered_chunks q @ [c])" by (intro bytes_of_mset) (simp add: 2(3))
    with 2 assms(1) show ?thesis by (simp add: rq_bytes_ok_def rq_held_def rq_get_num_bytes_def)
  next
    case (3 n as m bs)
    have "bytes_of (as @ m @ bs) = bytes_of (rq_unordered_chunks q @ [c])" by (intro bytes_of_mset) (simp add: 3(3))
    with 3(1,2) assms(1) show ?thesis
      by (simp add: rq_bytes_ok_def rq_held_def rq_get_num_bytes_def chunks_new_def)
  qed
next
  case False
  show ?thesis
  proof (cases "pd_stream_identifier c \<noteq> rq_si q \<or> sna16lt (pd_stream_sequence_number c) (rq_next_ssn q)")
    case True
    with False assms(1) show ?thesis by (auto simp: rq_push_def)
  next
    case in_order: False
    show ?thesis
    proof (cases "push_to_set (rq_ordered q) c")
      case (Some r)
      then obtain ok ss where r: "push_to_set (rq_ordered q) c = Some (ok, ss)" by (cases r) auto
      have "bytes_of (concat (map cs_chunks ss)) = bytes_of (c # concat (map cs_chunks (rq_ordered q)))"
        using push_to_set_mset [OF r] assms(2) by (intro bytes_of_mset) (auto simp: rq_held_def)
      with r False in_order assms(1) show ?thesis
        by (simp add: rq_push_def rq_bytes_ok_def rq_held_def rq_get_num_bytes_def)
    next
      case None
      let ?s = "chunks_new now (pd_stream_sequence_number c) (pd_payload_type c) []"
      have s: "cs_chunks (snd (chunks_push ?s c)) = [c]"
        by (simp add: chunks_push_def chunks_new_def sort_chunks_by_tsn_def sort_by_def insert_by_def Let_def)
      have "mset (concat (map cs_chunks ys)) = (\<Sum>s \<in># mset ys. mset (cs_chunks s))" for ys
        by (induction ys) auto
      then have mm: "mset (concat (map cs_chunks (sort_chunks_by_ssn xs))) = mset (concat (map cs_chunks xs))" for xs
        unfolding sort_chunks_by_ssn_def by (metis mset_sort_by)
      have "bytes_of (concat (map cs_chunks (sort_chunks_by_ssn (rq_ordered q @ [snd (chunks_push ?s c)])))) =
          bytes_of (concat (map cs_chunks (rq_ordered q)) @ [c])"
        using mm [of "rq_ordered q @ [snd (chunks_push ?s c)]"] s by (intro bytes_of_mset) simp
      with None False in_order assms(1) show ?thesis
        by (simp add: rq_push_def rq_bytes_ok_def rq_held_def rq_get_num_bytes_def case_prod_beta Let_def)
    qed
  qed
qed

lemma rq_read_bytes [inv_intro]: "rq_bytes_ok q \<Longrightarrow> rq_bytes_ok (snd (rq_read q))"
  by (cases q rule: rq_read_cases)
     (auto simp: rq_bytes_ok_def rq_held_def rq_get_num_bytes_def chunks_len_payload payload_bytes)

lemma foldl_bytes: "foldl (\<lambda>acc c. acc + length (pd_user_data c)) n cs = n + bytes_of cs"
  by (induction cs arbitrary: n) auto

lemma foldl_sets_bytes:
  "foldl (\<lambda>n s. n + foldl (\<lambda>acc c. acc + length (pd_user_data c)) 0 (cs_chunks s)) n ss = n + bytes_of (concat (map cs_chunks ss))"
  by (induction ss arbitrary: n) (auto simp: foldl_bytes)

lemma bytes_of_filter_sets:
  "bytes_of (concat (map cs_chunks ss)) =
   bytes_of (concat (map cs_chunks (filter P ss))) + bytes_of (concat (map cs_chunks (filter (\<lambda>s. \<not> P s) ss)))"
  by (induction ss) auto

lemma rq_forward_ordered_bytes [inv_intro]: "rq_bytes_ok q \<Longrightarrow> rq_bytes_ok (rq_forward_tsn_for_ordered q last_ssn)"
  using bytes_of_filter_sets [of "rq_ordered q" "\<lambda>s. sna16lte (cs_ssn s) last_ssn \<and> \<not> chunks_is_complete s"]
  by (simp add: rq_forward_tsn_for_ordered_def rq_bytes_ok_def rq_held_def rq_get_num_bytes_def foldl_sets_bytes
      rq_subtract Let_def)

lemma foldl_subtract: "foldl (\<lambda>q c. rq_subtract_num_bytes q (length (pd_user_data c))) q cs = q\<lparr>rq_n_bytes := rq_n_bytes q - bytes_of cs\<rparr>"
  by (induction cs arbitrary: q) (auto simp: rq_subtract)

lemma rq_forward_unordered_eq:
  "rq_forward_tsn_for_unordered q t =
   (let n = nat (forward_last_idx t 0 (- 1) (rq_unordered_chunks q) + 1) in
    q\<lparr>rq_n_bytes := rq_n_bytes q - bytes_of (take n (rq_unordered_chunks q)), rq_unordered_chunks := drop n (rq_unordered_chunks q)\<rparr>)"
  by (simp add: rq_forward_tsn_for_unordered_def foldl_subtract Let_def)

lemma rq_forward_unordered_bytes [inv_intro]: "rq_bytes_ok q \<Longrightarrow> rq_bytes_ok (rq_forward_tsn_for_unordered q t)"
proof -
  assume ok: "rq_bytes_ok q"
  define n where "n = nat (forward_last_idx t 0 (- 1) (rq_unordered_chunks q) + 1)"
  have "bytes_of (rq_unordered_chunks q) = bytes_of (take n (rq_unordered_chunks q)) + bytes_of (drop n (rq_unordered_chunks q))"
    by (metis append_take_drop_id bytes_of_simps(3))
  with ok show ?thesis
    by (simp add: rq_forward_unordered_eq rq_bytes_ok_def rq_held_def rq_get_num_bytes_def Let_def flip: n_def)
qed

section \<open>Reading a message in pieces\<close>

text \<open>All the pieces of at most \<open>max_length\<close> bytes that \<^verbatim>\<open>next\<close> returns before it returns nothing.\<close>

fun next_all :: "nat \<Rightarrow> chunks \<Rightarrow> nat \<Rightarrow> bytes list option" where
  "next_all 0 cs max_length = None"
| "next_all (Suc fuel) cs max_length =
     (case chunks_next cs max_length of
        Inl _ \<Rightarrow> None
      | Inr (None, _) \<Rightarrow> Some []
      | Inr (Some b, cs') \<Rightarrow> map_option ((#) b) (next_all fuel cs' max_length))"

lemma next_all_spec:
  assumes "chunks_cursor_ok cs" "0 < max_length" "length (chunks_rest cs) + 2 \<le> fuel"
  shows "\<exists>ps. next_all fuel cs max_length = Some ps \<and> concat ps = chunks_rest cs \<and> (\<forall>p \<in> set ps. length p \<le> max_length)"
  using assms(1,3)
proof (induction fuel arbitrary: cs)
  case (Suc fuel)
  show ?case
  proof (cases "cs_index cs < length (cs_chunks cs)")
    case False
    with Suc.prems(1) show ?thesis by (simp add: chunks_next_def chunks_rest_def chunks_cursor_ok_def)
  next
    case True
    from chunks_next_loop_spec [OF Suc.prems(1), of 0 max_length "[]"] obtain b cs' where b:
      "chunks_next_loop cs max_length [] 0 = Inr (b, cs')" "chunks_cursor_ok cs'" "chunks_rest cs = b @ chunks_rest cs'"
      "length b \<le> max_length" "cs_index cs' < length (cs_chunks cs') \<longrightarrow> length b = max_length"
      by auto
    have n: "chunks_next cs max_length = Inr (Some b, cs')" using True b(1) by (simp add: chunks_next_def)
    show ?thesis
    proof (cases "cs_index cs' < length (cs_chunks cs')")
      case True
      with b assms(2) Suc.prems(2) have "length (chunks_rest cs') + 2 \<le> fuel" by auto
      from Suc.IH [OF b(2) this] n b(3,4) show ?thesis by auto
    next
      case False
      moreover from this Suc.prems(2) have "\<exists>f. fuel = Suc f" by (cases fuel) auto
      ultimately have "next_all fuel cs' max_length = Some []" "chunks_rest cs' = []"
        using b(2) by (auto simp: chunks_next_def chunks_rest_def chunks_cursor_ok_def)
      with n b show ?thesis by simp
    qed
  qed
qed simp

section \<open>Properties\<close>

text \<open>
  C13. Ordered delivery. In whatever order the fragments of the messages of a stream arrive,
  mixed with unordered data and with reads, the ordered messages that have been read are exactly
  the first messages of the stream, fragment by fragment, and the next one is readable as soon as
  all of its fragments have arrived and not before.
\<close>

theorem reassembly_in_order:
  assumes "ordered_stream si ms" "received si ms q S outs"
  shows "let n = length (filter is_ordered outs) in
    map cs_chunks (filter is_ordered outs) = take n ms \<and>
    (rq_readable_ordered_chunks q \<noteq> None \<longleftrightarrow> n < length ms \<and> (\<forall>j < length (ms ! n). (n, j) \<in> S))"
proof -
  let ?n = "length (filter is_ordered outs)"
  note inv = received_inv [OF assms]
  from inv have "arrived S ?n \<subseteq> {..<length (ms ! ?n)}" by (auto simp: rq_inv_def mem_arrived)
  then have "arrived S ?n = {..<length (ms ! ?n)} \<longleftrightarrow> (\<forall>j < length (ms ! ?n). (?n, j) \<in> S)"
    by (auto simp: mem_arrived)
  with inv rq_readable_ordered(1) [OF assms(1) inv [THEN conjunct1]] show ?thesis by (simp add: Let_def)
qed

theorem reassembly_in_order_witness:
  "\<exists>a b c q outs.
     received 0 [[a, b], [c]] q {(0, 0), (0, 1), (1, 0)} outs \<and>
     map cs_chunks (filter is_ordered outs) = [[a, b]]"
proof -
  let ?a = "pd_default\<lparr>pd_beginning_fragment := True, pd_tsn := - 1\<rparr>"
  let ?b = "pd_default\<lparr>pd_ending_fragment := True\<rparr>"
  let ?c = "pd_default\<lparr>pd_beginning_fragment := True, pd_ending_fragment := True, pd_tsn := 1, pd_stream_sequence_number := 1\<rparr>"
  let ?ms = "[[?a, ?b], [?c]]"
  have str: "ordered_stream 0 ?ms"
    by (auto simp: ordered_stream_def ordered_message_def pd_default_def less_Suc_eq)
  define q3 where "q3 = snd (rq_push 0 (snd (rq_push 0 (snd (rq_push 0 (rq_new 0) ?c)) ?b)) ?a)"
  have r: "received 0 ?ms q3 {(0, 0), (0, 1), (1, 0)} []"
    using arrive [OF arrive [OF arrive [OF start, of 1 ?ms 0 0 0], of 0 1 0], of 0 0 0]
    by (simp add: q3_def)
  from reassembly_in_order [OF str r] have "rq_readable_ordered_chunks q3 \<noteq> None"
    by (simp add: less_Suc_eq)
  then obtain cs q where rd: "rq_read q3 = (Some cs, q)" by (cases q3 rule: rq_read_cases) auto
  have "rq_unordered q3 = []"
    using rq_push_ordered_unordered by (simp add: q3_def pd_default_def rq_new_def)
  moreover obtain s where "rq_readable_ordered_chunks q3 = Some s" using \<open>rq_readable_ordered_chunks q3 \<noteq> None\<close> by blast
  ultimately have "is_ordered cs"
    using rd readable_is_ordered [OF str received_inv [OF str r, THEN conjunct1]]
    by (cases q3 rule: rq_read_cases) auto
  with reassembly_in_order [OF str read [OF r rd]] read [OF r rd] show ?thesis
    by (intro exI) (auto simp: Let_def)
qed

text \<open>
  C26. Nothing is stuck. Once every fragment of the stream has arrived, a bounded number of reads
  returns all the ordered messages that have not been read yet.
\<close>

theorem reassembly_delivers_all:
  assumes "ordered_stream si ms" "received si ms q S outs"
    and "\<forall>i < length ms. \<forall>j < length (ms ! i). (i, j) \<in> S"
  shows "map cs_chunks (filter is_ordered (outs @ rq_drain (length (rq_unordered q) + length ms) q)) = ms"
  using drain_all [OF assms] by simp

theorem reassembly_delivers_all_witness:
  "\<exists>c q. received 0 [[c]] q {(0, 0)} [] \<and> map cs_chunks (filter is_ordered (rq_drain 1 q)) = [[c]]"
proof -
  let ?c = "pd_default\<lparr>pd_beginning_fragment := True, pd_ending_fragment := True\<rparr>"
  have str: "ordered_stream 0 [[?c]]"
    by (simp add: ordered_stream_def ordered_message_def pd_default_def)
  have r: "received 0 [[?c]] (snd (rq_push 0 (rq_new 0) ?c)) {(0, 0)} []"
    using arrive [OF start, of 0 "[[?c]]" 0 0 0] by simp
  have "rq_unordered (snd (rq_push 0 (rq_new 0) ?c)) = []"
    using rq_push_ordered_unordered by (simp add: pd_default_def rq_new_def)
  with reassembly_delivers_all [OF str r]
  have "map cs_chunks (filter is_ordered (rq_drain 1 (snd (rq_push 0 (rq_new 0) ?c)))) = [[?c]]"
    by (simp del: rq_drain.simps)
  with r show ?thesis by (intro exI conjI)
qed

text \<open>
  C33. Unordered delivery. When an unordered chunk of the stream arrives, \<^verbatim>\<open>push\<close> reports a complete
  message exactly when the fragments received so far, sorted by TSN, contain one; that message
  is appended to the readable sets, complete, and its fragments leave the others.
\<close>

theorem unordered_set_found:
  assumes "pd_unordered c" "pd_stream_identifier c = rq_si q"
  shows "case rq_push now q c of (found, q') \<Rightarrow>
    (found \<longleftrightarrow> (\<exists>as m bs. sort_chunks_by_tsn (rq_unordered_chunks q @ [c]) = as @ m @ bs \<and> run m)) \<and>
    (found \<longrightarrow> (\<exists>as m bs cs. sort_chunks_by_tsn (rq_unordered_chunks q @ [c]) = as @ m @ bs \<and>
       rq_unordered_chunks q' = as @ bs \<and> rq_unordered q' = rq_unordered q @ [cs] \<and>
       cs_chunks cs = m \<and> chunks_is_complete cs))"
  using assms(1)
proof (cases rule: rq_push_unordered [where q = q and now = now])
  case 1
  with assms(2) show ?thesis by simp
next
  case (2 n cs)
  then show ?thesis by auto
next
  case (3 n as m bs)
  let ?cs = "chunks_new now 0 (pd_payload_type (hd m)) m" and ?q = "snd (rq_push now q c)"
  note 3(3) [symmetric]
  moreover have "rq_unordered_chunks ?q = as @ bs" "rq_unordered ?q = rq_unordered q @ [?cs]" "rq_push now q c = (True, ?q)"
    using 3(1) by simp_all
  moreover have "cs_chunks ?cs = m" by (simp add: chunks_new_def)
  moreover have "chunks_is_complete ?cs" using 3(4) by (rule run_complete)
  ultimately have "(\<exists>as m bs. sort_chunks_by_tsn (rq_unordered_chunks q @ [c]) = as @ m @ bs \<and> run m) \<and>
    (\<exists>as m bs cs. sort_chunks_by_tsn (rq_unordered_chunks q @ [c]) = as @ m @ bs \<and>
       rq_unordered_chunks ?q = as @ bs \<and> rq_unordered ?q = rq_unordered q @ [cs] \<and>
       cs_chunks cs = m \<and> chunks_is_complete cs)"
    using 3(4) by (intro conjI) blast+
  moreover have "fst (rq_push now q c)" using 3(1) by simp
  ultimately show ?thesis unfolding case_prod_beta by blast
qed

theorem unordered_set_found_witness:
  "fst (rq_push 0 (rq_new 0) (pd_default\<lparr>pd_unordered := True, pd_beginning_fragment := True, pd_ending_fragment := True\<rparr>))"
proof -
  let ?c = "pd_default\<lparr>pd_unordered := True, pd_beginning_fragment := True, pd_ending_fragment := True\<rparr>"
  have "sort_chunks_by_tsn (rq_unordered_chunks (rq_new 0) @ [?c]) = [] @ [?c] @ [] \<and> run [?c]"
    by (simp add: rq_new_def sort_chunks_by_tsn_def sort_by_def insert_by_def pd_default_def)
  moreover have "pd_unordered ?c" "pd_stream_identifier ?c = rq_si (rq_new 0)"
    by (simp_all add: pd_default_def rq_new_def)
  ultimately show ?thesis
    using unordered_set_found [of ?c "rq_new 0" 0, unfolded case_prod_beta] by blast
qed



text \<open>
  \<^verbatim>\<open>next\<close> called again and again with a positive length ends, never panics, returns pieces of at
  most that length, and the pieces are the message; \<^verbatim>\<open>read\<close> into a buffer copies the whole
  message or reports a short buffer.
\<close>

theorem chunks_next_pieces:
  assumes "0 < max_length"
  shows "\<exists>ps. next_all (length (payload m) + 2) (chunks_new now ssn ppi m) max_length = Some ps \<and>
      concat ps = payload m \<and> (\<forall>p \<in> set ps. length p \<le> max_length) \<and>
    chunks_read (chunks_new now ssn ppi m) buf =
      (if length (payload m) \<le> length buf
       then (Inr (length (payload m)), payload m @ drop (length (payload m)) buf)
       else (Inl (Err ''ErrShortBuffer''), take (length buf) (payload m)))"
proof -
  have "chunks_cursor_ok (chunks_new now ssn ppi m)" "chunks_rest (chunks_new now ssn ppi m) = payload m"
    by (simp_all add: chunks_cursor_ok_def chunks_rest_def chunks_new_def)
  with next_all_spec [of "chunks_new now ssn ppi m" max_length "length (payload m) + 2"] assms
  have "\<exists>ps. next_all (length (payload m) + 2) (chunks_new now ssn ppi m) max_length = Some ps \<and>
      concat ps = payload m \<and> (\<forall>p \<in> set ps. length p \<le> max_length)" by simp
  moreover have "chunks_read (chunks_new now ssn ppi m) buf =
      (if length (payload m) \<le> length buf
       then (Inr (length (payload m)), payload m @ drop (length (payload m)) buf)
       else (Inl (Err ''ErrShortBuffer''), take (length buf) (payload m)))"
    using chunks_read_loop_eq [of 0 buf m] by (simp add: chunks_read_def chunks_new_def)
  ultimately show ?thesis by blast
qed

theorem chunks_next_pieces_witness:
  "\<exists>ps. next_all 5 (chunks_new 0 0 PPI_Binary [pd_default\<lparr>pd_user_data := [1, 2, 3]\<rparr>]) 2 = Some ps \<and> concat ps = [1, 2, 3]"
proof -
  let ?m = "[pd_default\<lparr>pd_user_data := [1, 2, 3]\<rparr>]"
  have "length (payload ?m) + 2 = 5" "payload ?m = [1, 2, 3]" by simp_all
  moreover have "\<exists>ps. next_all (length (payload ?m) + 2) (chunks_new 0 0 PPI_Binary ?m) 2 = Some ps \<and> concat ps = payload ?m"
    using chunks_next_pieces [of 2 ?m 0 0 PPI_Binary "[]"] by (metis zero_less_numeral)
  ultimately show ?thesis by metis
qed

end
