(* ===== verification/Sctp_Timer.thy ===== *)
theory Sctp_Timer
  imports Rtc_Prelude "HOL-Library.Log_Nat"
begin

unbundle bit_operations_syntax

text \<open>
  \<^verbatim>\<open>rtc-sctp/src/association/timer.rs\<close>: the table of retransmission timers with its exponential
  back-off, and the estimator of the retransmission timeout. The estimator keeps the variance of
  the round trip time as an \<^verbatim>\<open>f64\<close>, modelled by rational numbers with explicit rounding.
\<close>

section \<open>Constants and the timers\<close>

abbreviation (input) "ACK_INTERVAL \<equiv> (200 :: u64)"
abbreviation (input) "MAX_INIT_RETRANS \<equiv> (8 :: nat)"
abbreviation (input) "PATH_MAX_RETRANS \<equiv> (5 :: nat)"
abbreviation (input) "NO_MAX_RETRANS \<equiv> (2 ^ 64 - 1 :: nat)"
abbreviation (input) "RTO_INITIAL \<equiv> (3000 :: u64)"
abbreviation (input) "RTO_MIN \<equiv> (1000 :: u64)"
abbreviation (input) "RTO_MAX \<equiv> (60000 :: u64)"
abbreviation (input) "RTO_ALPHA \<equiv> (1 :: u64)"
abbreviation (input) "RTO_BETA \<equiv> (2 :: u64)"
abbreviation (input) "RTO_BASE \<equiv> (8 :: u64)"

text \<open>An \<^verbatim>\<open>Instant\<close> is a number of nanoseconds.\<close>

definition from_millis :: "u64 \<Rightarrow> nat" where
  "from_millis ms = unat ms * 1000000"

definition as_millis :: "nat \<Rightarrow> nat" where
  "as_millis d = d div 1000000"

datatype timer = T1Init | T1Cookie | T2Shutdown | T3RTX | Reconfig | Ack

definition timer_values :: "timer list" where
  "timer_values = [T1Init, T1Cookie, T2Shutdown, T3RTX, Reconfig, Ack]"

record timer_config =
  tc_max_t1_init_retrans :: nat
  tc_max_t1_cookie_retrans :: nat
  tc_max_t2_shutdown_retrans :: nat
  tc_max_t3_rtx_retrans :: nat
  tc_max_reconfig_retrans :: nat
  tc_max_ack_retrans :: nat

definition timer_config_default :: timer_config where
  "timer_config_default =
     \<lparr>tc_max_t1_init_retrans = MAX_INIT_RETRANS, tc_max_t1_cookie_retrans = MAX_INIT_RETRANS,
      tc_max_t2_shutdown_retrans = NO_MAX_RETRANS, tc_max_t3_rtx_retrans = PATH_MAX_RETRANS,
      tc_max_reconfig_retrans = PATH_MAX_RETRANS, tc_max_ack_retrans = PATH_MAX_RETRANS\<rparr>"

text \<open>The arrays indexed by a timer are functions.\<close>

record timer_table =
  tt_data :: "timer \<Rightarrow> nat option"
  tt_retrans :: "timer \<Rightarrow> nat"
  tt_max_retrans :: "timer \<Rightarrow> nat"

definition tt_default :: timer_table where
  "tt_default = \<lparr>tt_data = (\<lambda>_. None), tt_retrans = (\<lambda>_. 0), tt_max_retrans = (\<lambda>_. 0)\<rparr>"

definition tt_new :: "timer_config \<Rightarrow> timer_table" where
  "tt_new time_config =
     tt_default\<lparr>tt_max_retrans := (\<lambda>t. case t of
        T1Init \<Rightarrow> tc_max_t1_init_retrans time_config
      | T1Cookie \<Rightarrow> tc_max_t1_cookie_retrans time_config
      | T2Shutdown \<Rightarrow> tc_max_t2_shutdown_retrans time_config
      | T3RTX \<Rightarrow> tc_max_t3_rtx_retrans time_config
      | Reconfig \<Rightarrow> tc_max_reconfig_retrans time_config
      | Ack \<Rightarrow> tc_max_ack_retrans time_config)\<rparr>"

definition tt_set :: "timer_table \<Rightarrow> timer \<Rightarrow> nat option \<Rightarrow> timer_table" where
  "tt_set tt timer time = tt\<lparr>tt_data := (tt_data tt)(timer := time)\<rparr>"

definition tt_get :: "timer_table \<Rightarrow> timer \<Rightarrow> nat option" where
  "tt_get tt timer = tt_data tt timer"

definition tt_next_timeout :: "timer_table \<Rightarrow> nat option" where
  "tt_next_timeout tt =
     (case List.map_filter (tt_data tt) timer_values of
        [] \<Rightarrow> None
      | t # ts \<Rightarrow> Some (foldl min t ts))"

definition calculate_next_timeout :: "u64 \<Rightarrow> nat \<Rightarrow> u64" where
  "calculate_next_timeout rto n_rtos = (if n_rtos < 31 then min (push_bit n_rtos rto) RTO_MAX else RTO_MAX)"

definition tt_start :: "timer_table \<Rightarrow> timer \<Rightarrow> nat \<Rightarrow> u64 \<Rightarrow> timer_table" where
  "tt_start tt timer now interval =
     (let interval = (if timer = Ack then interval else calculate_next_timeout interval (tt_retrans tt timer));
          time = now + from_millis interval
      in tt\<lparr>tt_data := (tt_data tt)(timer := Some time)\<rparr>)"

definition tt_restart_if_stale :: "timer_table \<Rightarrow> timer \<Rightarrow> nat \<Rightarrow> u64 \<Rightarrow> timer_table" where
  "tt_restart_if_stale tt timer now interval =
     (case tt_data tt timer of
        Some current \<Rightarrow> if current \<ge> now then tt else tt_start tt timer now interval
      | None \<Rightarrow> tt_start tt timer now interval)"

definition tt_stop :: "timer_table \<Rightarrow> timer \<Rightarrow> timer_table" where
  "tt_stop tt timer = tt\<lparr>tt_data := (tt_data tt)(timer := None), tt_retrans := (tt_retrans tt)(timer := 0)\<rparr>"

definition tt_is_expired :: "timer_table \<Rightarrow> timer \<Rightarrow> nat \<Rightarrow> (bool \<times> bool \<times> nat) \<times> timer_table" where
  "tt_is_expired tt timer after =
     (let expired = (case tt_data tt timer of None \<Rightarrow> False | Some x \<Rightarrow> x \<le> after);
          tt = (if expired then tt\<lparr>tt_retrans := (tt_retrans tt)(timer := tt_retrans tt timer + 1)\<rparr> else tt);
          failure = (expired \<and> tt_retrans tt timer > tt_max_retrans tt timer)
      in ((expired, failure, tt_retrans tt timer), tt))"

section \<open>Double precision numbers\<close>

text \<open>
  The rational value of an \<^verbatim>\<open>f64\<close>, and rounding to the nearest one with 53 significant bits, ties
  to even. The values of the round trip time variance stay below \<open>2 ^ 66\<close>, so
  overflow does not arise.
\<close>

definition pow2 :: "int \<Rightarrow> rat" where
  "pow2 k = (if k \<ge> 0 then 2 ^ nat k else 1 / 2 ^ nat (- k))"

definition exponent :: "rat \<Rightarrow> int" where
  "exponent x =
     (let (p, q) = quotient_of x; k = bitlen p - bitlen q
      in if x < pow2 k then k - 1 else k)"

definition round_even :: "rat \<Rightarrow> int" where
  "round_even y =
     (let f = floor y; d = y - of_int f
      in if d < 1 / 2 then f else if d > 1 / 2 then f + 1 else if even f then f else f + 1)"

definition f64_round :: "rat \<Rightarrow> rat" where
  "f64_round x =
     (if x = 0 then 0
      else
        let e = pow2 (max (exponent \<bar>x\<bar> - 52) (- 1074)); r = of_int (round_even (\<bar>x\<bar> / e)) * e
        in if x < 0 then - r else r)"

text \<open>The casts \<^verbatim>\<open>u64 as f64\<close> and \<^verbatim>\<open>f64 as u64\<close>, the latter saturating.\<close>

definition f64_of_u64 :: "u64 \<Rightarrow> rat" where
  "f64_of_u64 w = f64_round (of_nat (unat w))"

definition u64_of_f64 :: "rat \<Rightarrow> u64" where
  "u64_of_f64 x = (if x < 0 then 0 else if x \<ge> 2 ^ 64 then - 1 else of_int (floor x))"

section \<open>Retransmission timeout\<close>

record rto_manager =
  rm_srtt :: u64
  rm_rttvar :: rat
  rm_rto :: u64
  rm_no_update :: bool

definition rm_default :: rto_manager where
  "rm_default = \<lparr>rm_srtt = 0, rm_rttvar = 0, rm_rto = 0, rm_no_update = False\<rparr>"

definition rm_new :: rto_manager where
  "rm_new = rm_default\<lparr>rm_rto := RTO_INITIAL\<rparr>"

text \<open>The absolute value of the difference of two \<^verbatim>\<open>u64\<close> taken as \<^verbatim>\<open>i64\<close>, cast to \<^verbatim>\<open>f64\<close>.\<close>

definition abs_diff_f64 :: "u64 \<Rightarrow> u64 \<Rightarrow> rat" where
  "abs_diff_f64 a b =
     (let d = sint (a - b) in if d = - (2 ^ 63) then - (2 ^ 63) else f64_round (of_int \<bar>d\<bar>))"

definition rm_set_new_rtt :: "rto_manager \<Rightarrow> u64 \<Rightarrow> u64 \<times> rto_manager" where
  "rm_set_new_rtt m rtt =
     (if rm_no_update m then (rm_srtt m, m)
      else
        let m =
          (if rm_srtt m = 0 then
             m\<lparr>rm_srtt := rtt, rm_rttvar := f64_round (f64_of_u64 rtt / 2)\<rparr>
           else
             let m = m\<lparr>rm_rttvar :=
                   f64_round
                     (f64_round (f64_round (f64_of_u64 (RTO_BASE - RTO_BETA) * rm_rttvar m) +
                                 f64_round (f64_of_u64 RTO_BETA * abs_diff_f64 (rm_srtt m) rtt))
                      / f64_of_u64 RTO_BASE)\<rparr>
             in m\<lparr>rm_srtt := ((RTO_BASE - RTO_ALPHA) * rm_srtt m + RTO_ALPHA * rtt) div RTO_BASE\<rparr>);
            m = m\<lparr>rm_rto := max RTO_MIN (min RTO_MAX (rm_srtt m + u64_of_f64 (f64_round (4 * rm_rttvar m))))\<rparr>
        in (rm_srtt m, m))"

definition rm_get_rto :: "rto_manager \<Rightarrow> u64" where
  "rm_get_rto m = rm_rto m"

definition rm_reset :: "rto_manager \<Rightarrow> rto_manager" where
  "rm_reset m = (if rm_no_update m then m else m\<lparr>rm_srtt := 0, rm_rttvar := 0, rm_rto := RTO_INITIAL\<rparr>)"

definition rm_set_rto :: "rto_manager \<Rightarrow> u64 \<Rightarrow> bool \<Rightarrow> rto_manager" where
  "rm_set_rto m rto no_update = m\<lparr>rm_rto := rto, rm_no_update := no_update\<rparr>"

section \<open>Lemmas\<close>

lemma rm_set_new_rtt_bounds:
  assumes "RTO_MIN \<le> rm_rto m" "rm_rto m \<le> RTO_MAX"
  shows "RTO_MIN \<le> rm_rto (snd (rm_set_new_rtt m rtt)) \<and> rm_rto (snd (rm_set_new_rtt m rtt)) \<le> RTO_MAX"
proof -
  have "RTO_MIN \<le> max RTO_MIN (min RTO_MAX x) \<and> max RTO_MIN (min RTO_MAX x) \<le> RTO_MAX" for x :: u64
    by (auto simp: max_def min_def)
  with assms show ?thesis by (simp add: rm_set_new_rtt_def Let_def)
qed

lemma unat_push_bit:
  "unat w * 2 ^ n < 2 ^ LENGTH('a) \<Longrightarrow> unat (push_bit n (w :: 'a::len word)) = unat w * 2 ^ n"
  unfolding unsigned_push_bit_eq by (simp add: push_bit_eq_mult take_bit_nat_eq_self)

lemma calculate_next_timeout_unat:
  assumes "1000 \<le> unat rto" "unat rto \<le> 60000"
  shows "unat (calculate_next_timeout rto n) = min (unat rto * 2 ^ n) 60000"
proof (cases "n < 31")
  case True
  have "unat rto * 2 ^ n \<le> 60000 * 2 ^ 30" using assms True by (intro mult_mono power_increasing) auto
  then have "unat rto * 2 ^ n < 2 ^ LENGTH(64)" by simp
  from unat_push_bit [OF this] True show ?thesis
    by (simp add: calculate_next_timeout_def min_def word_le_nat_alt)
next
  case False
  then have "(2 :: nat) ^ 6 \<le> 2 ^ n" by (intro power_increasing) auto
  with assms have "1000 * 2 ^ 6 \<le> unat rto * 2 ^ n" by (intro mult_mono) auto
  with False show ?thesis by (simp add: calculate_next_timeout_def min_def)
qed

lemma foldl_min: "foldl min t ts \<in> set (t # ts) \<and> (\<forall>x \<in> set (t # ts). foldl min t ts \<le> (x :: nat))"
proof (induction ts arbitrary: t)
  case (Cons a ts)
  have "foldl min (min t a) ts \<le> min t a" using Cons.IH [of "min t a"] by simp
  then have "foldl min (min t a) ts \<le> t" "foldl min (min t a) ts \<le> a" by simp_all
  moreover have "min t a = t \<or> min t a = a" by (simp add: min_def)
  ultimately show ?case using Cons.IH [of "min t a"] by auto
qed simp

lemma timer_in_values: "t \<in> set timer_values"
  by (cases t) (simp_all add: timer_values_def)

lemma set_timer_data: "set (List.map_filter (tt_data tt) timer_values) = {x. \<exists>t. tt_data tt t = Some x}"
  using timer_in_values by (force simp: List.map_filter_def)

lemma tt_next_timeout_Some:
  "tt_next_timeout tt = Some x \<longleftrightarrow> (\<exists>t. tt_data tt t = Some x) \<and> (\<forall>t y. tt_data tt t = Some y \<longrightarrow> x \<le> y)"
proof (cases "List.map_filter (tt_data tt) timer_values")
  case Nil
  with set_timer_data [of tt] show ?thesis by (auto simp: tt_next_timeout_def)
next
  case (Cons a as)
  have m: "foldl min a as \<in> {x. \<exists>t. tt_data tt t = Some x}" "\<forall>y \<in> {x. \<exists>t. tt_data tt t = Some x}. foldl min a as \<le> y"
    using foldl_min [of a as] set_timer_data [of tt] Cons by auto
  then show ?thesis using Cons by (auto simp: tt_next_timeout_def intro: antisym)
qed

lemma tt_not_expired:
  assumes "\<forall>x. tt_next_timeout tt = Some x \<longrightarrow> now < x"
  shows "tt_is_expired tt timer now = ((False, False, tt_retrans tt timer), tt)"
proof -
  have "\<not> x \<le> now" if d: "tt_data tt timer = Some x" for x
  proof -
    obtain y where "tt_next_timeout tt = Some y"
      using d set_timer_data [of tt]
      by (cases "List.map_filter (tt_data tt) timer_values") (auto simp: tt_next_timeout_def)
    with assms d show ?thesis by (fastforce simp: tt_next_timeout_Some)
  qed
  then show ?thesis by (auto simp: tt_is_expired_def Let_def split: option.split)
qed

text \<open>
  The life of a retransmission timer: it expires at some time from its deadline on, and is started
  again. The list has what the expirations report.
\<close>

fun tt_expiries :: "timer_table \<Rightarrow> timer \<Rightarrow> nat list \<Rightarrow> u64 \<Rightarrow> (bool \<times> bool \<times> nat) list" where
  "tt_expiries tt timer [] interval = []"
| "tt_expiries tt timer (now # nows) interval =
     (let (r, tt) = tt_is_expired tt timer now
      in r # tt_expiries (tt_start (tt_set tt timer None) timer now interval) timer nows interval)"

lemma tt_expiries_eq:
  assumes "timer \<noteq> Ack" "\<exists>d. tt_data tt timer = Some d \<and> (\<forall>n \<in> set (take 1 nows). d \<le> n)"
    and "sorted_wrt (\<lambda>a b. a + 60000000000 \<le> b) nows" "tt_retrans tt timer = r"
  shows "tt_expiries tt timer nows interval =
    map (\<lambda>k. (True, r + k > tt_max_retrans tt timer, r + k)) [1..<Suc (length nows)]"
  using assms(2-)
proof (induction nows arbitrary: tt r)
  case (Cons now nows)
  let ?tt = "tt\<lparr>tt_retrans := (tt_retrans tt)(timer := r + 1)\<rparr>"
  let ?tt' = "tt_start (tt_set ?tt timer None) timer now interval"
  have e: "tt_is_expired tt timer now = ((True, r + 1 > tt_max_retrans tt timer, r + 1), ?tt)"
    using Cons.prems by (auto simp: tt_is_expired_def Let_def)
  have le: "from_millis (calculate_next_timeout i n) \<le> 60000000000" for i n
  proof -
    have "calculate_next_timeout i n \<le> 60000" by (simp add: calculate_next_timeout_def)
    then have "unat (calculate_next_timeout i n) \<le> 60000" by (simp add: word_le_nat_alt)
    then show ?thesis by (simp add: from_millis_def)
  qed
  have d: "\<exists>d. tt_data ?tt' timer = Some d \<and> (\<forall>n \<in> set (take 1 nows). d \<le> n)"
    using Cons.prems(2) le [of interval "r + 1"] assms(1)
    by (cases nows) (fastforce simp: tt_start_def tt_set_def Let_def)+
  have s: "tt_retrans ?tt' timer = r + 1" "tt_max_retrans ?tt' = tt_max_retrans tt"
    by (simp_all add: tt_start_def tt_set_def Let_def)
  have "map (\<lambda>k. (True, r + k > tt_max_retrans tt timer, r + k)) [1..<Suc (length (now # nows))] =
      (True, r + 1 > tt_max_retrans tt timer, r + 1) #
      map (\<lambda>k. (True, r + 1 + k > tt_max_retrans tt timer, r + 1 + k)) [1..<Suc (length nows)]"
    by (simp add: upt_conv_Cons map_Suc_upt [symmetric] del: upt_Suc)
  moreover have "tt_expiries tt timer (now # nows) interval =
      (True, r + 1 > tt_max_retrans tt timer, r + 1) # tt_expiries ?tt' timer nows interval"
    by (simp add: e)
  ultimately show ?case
    using Cons.IH [OF d _ s(1)] Cons.prems(2) by (simp only: s sorted_wrt.simps)
qed simp

section \<open>Properties\<close>

text \<open>
  C36. Whatever round trip times are measured, the retransmission timeout stays between one and
  sixty seconds, and the interval of the n-th retransmission is the timeout doubled n times, at most
  sixty seconds.
\<close>

theorem rto_bounds:
  "1000 \<le> unat (rm_get_rto (foldl (\<lambda>m rtt. snd (rm_set_new_rtt m rtt)) rm_new rtts)) \<and>
   unat (rm_get_rto (foldl (\<lambda>m rtt. snd (rm_set_new_rtt m rtt)) rm_new rtts)) \<le> 60000 \<and>
   unat (calculate_next_timeout (rm_get_rto (foldl (\<lambda>m rtt. snd (rm_set_new_rtt m rtt)) rm_new rtts)) n) =
     min (unat (rm_get_rto (foldl (\<lambda>m rtt. snd (rm_set_new_rtt m rtt)) rm_new rtts)) * 2 ^ n) 60000"
proof -
  let ?m = "foldl (\<lambda>m rtt. snd (rm_set_new_rtt m rtt)) rm_new rtts"
  have "RTO_MIN \<le> rm_rto ?m \<and> rm_rto ?m \<le> RTO_MAX"
  proof (induction rtts rule: rev_induct)
    case Nil
    show ?case by (simp add: rm_new_def rm_default_def)
  next
    case (snoc x xs)
    then show ?case using rm_set_new_rtt_bounds by simp
  qed
  then have "1000 \<le> unat (rm_get_rto ?m)" "unat (rm_get_rto ?m) \<le> 60000"
    by (simp_all add: rm_get_rto_def word_le_nat_alt)
  with calculate_next_timeout_unat show ?thesis by blast
qed

text \<open>
  A retransmission timer that keeps expiring and being restarted reports its k-th expiration as a
  failure exactly when k exceeds the configured number of retransmissions.
\<close>

theorem timer_fails_after_max:
  assumes "timer \<noteq> Ack" "sorted_wrt (\<lambda>a b. a + 60000000000 \<le> b) (start # nows)"
  shows "tt_expiries (tt_start (tt_new cfg) timer start interval) timer nows interval =
    map (\<lambda>k. (True, k > tt_max_retrans (tt_new cfg) timer, k)) [1..<Suc (length nows)]"
proof -
  let ?tt = "tt_start (tt_new cfg) timer start interval"
  have "calculate_next_timeout interval 0 \<le> 60000" by (simp add: calculate_next_timeout_def)
  then have "from_millis (calculate_next_timeout interval 0) \<le> 60000000000"
    by (simp add: word_le_nat_alt from_millis_def)
  then have "\<exists>d. tt_data ?tt timer = Some d \<and> (\<forall>n \<in> set (take 1 nows). d \<le> n)"
    using assms by (cases nows) (fastforce simp: tt_start_def tt_new_def tt_default_def Let_def)+
  moreover have "tt_retrans ?tt timer = 0" "tt_max_retrans ?tt = tt_max_retrans (tt_new cfg)"
    by (simp_all add: tt_start_def tt_new_def tt_default_def Let_def)
  ultimately show ?thesis
    using tt_expiries_eq [OF assms(1), of ?tt nows 0 interval] assms(2) by simp
qed

theorem timer_fails_after_max_witness:
  "tt_expiries (tt_start (tt_new timer_config_default) T1Init 0 3000) T1Init [60000000000, 120000000000] 3000 =
     [(True, False, 1), (True, False, 2)]"
proof -
  have m: "tt_max_retrans (tt_new timer_config_default) T1Init = 8"
    by (simp add: tt_new_def timer_config_default_def)
  have "sorted_wrt (\<lambda>a b. a + 60000000000 \<le> b) [0 :: nat, 60000000000, 120000000000]" by simp
  from timer_fails_after_max [OF _ this, of T1Init timer_config_default 3000] show ?thesis
    unfolding m by (simp del: tt_expiries.simps add: upt_rec)
qed

end
