(* ===== verification/Sctp_Stream.thy ===== *)
theory Sctp_Stream
  imports Reassembly_Queue Sctp_Timer
begin

text \<open>
  The state of one stream, \<^verbatim>\<open>rtc-sctp/src/association/stream.rs\<close>: fragmentation of what is written,
  the reassembly queue of what arrives, and the count of buffered bytes. The operations that need
  the association are in \<^verbatim>\<open>Sctp_Assoc_Recv\<close> and \<^verbatim>\<open>Sctp_Assoc_Send\<close>.
\<close>

section \<open>Enumerations\<close>

datatype side = Client | Server

datatype reliability_type = Reliable | Rexmit | Timed

definition reliability_type_of :: "u8 \<Rightarrow> reliability_type" where
  "reliability_type_of v = (if v = 1 then Rexmit else if v = 2 then Timed else Reliable)"

datatype recv_send_state = RS_Closed | RS_Readable | RS_Writable | RS_ReadWritable

definition recv_send_state_of :: "u8 \<Rightarrow> recv_send_state" where
  "recv_send_state_of v =
     (if v = 1 then RS_Readable else if v = 2 then RS_Writable else if v = 3 then RS_ReadWritable
      else RS_Closed)"

primrec u8_of_recv_send_state :: "recv_send_state \<Rightarrow> u8" where
  "u8_of_recv_send_state RS_Closed = 0"
| "u8_of_recv_send_state RS_Readable = 1"
| "u8_of_recv_send_state RS_Writable = 2"
| "u8_of_recv_send_state RS_ReadWritable = 3"

section \<open>The state of a stream\<close>

record stream_state =
  ss_side :: side
  ss_max_payload_size :: u32
  ss_stream_identifier :: u16
  ss_default_payload_type :: payload_protocol_identifier
  ss_reassembly_queue :: reassembly_queue
  ss_sequence_number :: u16
  ss_state :: recv_send_state
  ss_unordered :: bool
  ss_reliability_type :: reliability_type
  ss_reliability_value :: u32
  ss_buffered_amount :: nat
  ss_buffered_amount_low :: nat

definition ss_new :: "side \<Rightarrow> u16 \<Rightarrow> u32 \<Rightarrow> payload_protocol_identifier \<Rightarrow> stream_state" where
  "ss_new side stream_identifier max_payload_size default_payload_type =
     \<lparr>ss_side = side, ss_max_payload_size = max_payload_size, ss_stream_identifier = stream_identifier,
      ss_default_payload_type = default_payload_type, ss_reassembly_queue = rq_new stream_identifier,
      ss_sequence_number = 0, ss_state = RS_ReadWritable, ss_unordered = False,
      ss_reliability_type = Reliable, ss_reliability_value = 0, ss_buffered_amount = 0,
      ss_buffered_amount_low = 0\<rparr>"

definition ss_handle_data :: "nat \<Rightarrow> stream_state \<Rightarrow> chunk_payload_data \<Rightarrow> bool \<times> stream_state" where
  "ss_handle_data clock s pd =
     (let (ok, q) = rq_push clock (ss_reassembly_queue s) pd in (ok, s\<lparr>ss_reassembly_queue := q\<rparr>))"

definition ss_handle_forward_tsn_for_ordered :: "stream_state \<Rightarrow> u16 \<Rightarrow> stream_state" where
  "ss_handle_forward_tsn_for_ordered s ssn =
     (if ss_unordered s then s
      else s\<lparr>ss_reassembly_queue := rq_forward_tsn_for_ordered (ss_reassembly_queue s) ssn\<rparr>)"

definition ss_handle_forward_tsn_for_unordered :: "stream_state \<Rightarrow> u32 \<Rightarrow> stream_state" where
  "ss_handle_forward_tsn_for_unordered s new_cumulative_tsn =
     (if \<not> ss_unordered s then s
      else s\<lparr>ss_reassembly_queue := rq_forward_tsn_for_unordered (ss_reassembly_queue s) new_cumulative_tsn\<rparr>)"

text \<open>The loop of \<^verbatim>\<open>packetize\<close>, which does not end when the maximal payload size is zero.\<close>

function packetize_loop ::
    "stream_state \<Rightarrow> bool \<Rightarrow> payload_protocol_identifier \<Rightarrow> bytes \<Rightarrow> nat \<Rightarrow> nat \<Rightarrow> chunk_payload_data list result" where
  "packetize_loop s unordered ppi raw i remaining =
     (if remaining = 0 then Inr []
      else
        let fragment_size = min (unat (ss_max_payload_size s)) remaining in
        if fragment_size = 0 then Inl Hang
        else
          rbind (slice i (i + fragment_size) raw) (\<lambda>user_data.
          rbind (packetize_loop s unordered ppi raw (i + fragment_size) (remaining - fragment_size)) (\<lambda>chunks.
            Inr (pd_default\<lparr>pd_stream_identifier := ss_stream_identifier s, pd_user_data := user_data,
                   pd_unordered := unordered, pd_beginning_fragment := (i = 0),
                   pd_ending_fragment := (remaining - fragment_size = 0), pd_immediate_sack := False,
                   pd_payload_type := ppi, pd_stream_sequence_number := ss_sequence_number s,
                   pd_abandoned := False, pd_all_inflight := False\<rparr> # chunks))))"
  by pat_completeness auto
termination by (relation "measure (\<lambda>(s, unordered, ppi, raw, i, remaining). remaining)") auto

declare packetize_loop.simps [simp del]

definition ss_packetize ::
    "stream_state \<Rightarrow> bytes \<Rightarrow> payload_protocol_identifier \<Rightarrow> (chunk_payload_data list \<times> stream_state) result" where
  "ss_packetize s raw ppi =
     (let unordered = (ppi \<noteq> PPI_Dcep \<and> ss_unordered s) in
      rbind (packetize_loop s unordered ppi raw 0 (length raw)) (\<lambda>chunks.
        let s = (if \<not> unordered then s\<lparr>ss_sequence_number := ss_sequence_number s + 1\<rparr> else s);
            s = s\<lparr>ss_buffered_amount := ss_buffered_amount s + length raw\<rparr>
        in Inr (chunks, s)))"

definition ss_on_buffer_released :: "stream_state \<Rightarrow> int \<Rightarrow> bool \<times> stream_state" where
  "ss_on_buffer_released s n_bytes_released =
     (if n_bytes_released \<le> 0 then (False, s)
      else
        let from_amount = ss_buffered_amount s;
            (new_amount, s) =
              (if from_amount < nat n_bytes_released then (0, s\<lparr>ss_buffered_amount := 0\<rparr>)
               else (from_amount - nat n_bytes_released,
                     s\<lparr>ss_buffered_amount := ss_buffered_amount s - nat n_bytes_released\<rparr>));
            buffered_amount_low = ss_buffered_amount_low s
        in (from_amount > buffered_amount_low \<and> new_amount \<le> buffered_amount_low, s))"

definition ss_get_num_bytes_in_reassembly_queue :: "stream_state \<Rightarrow> nat" where
  "ss_get_num_bytes_in_reassembly_queue s = rq_get_num_bytes (ss_reassembly_queue s)"

section \<open>Fragmentation\<close>

text \<open>The chunks that \<^verbatim>\<open>packetize\<close> makes of the pieces of a message.\<close>

definition fragment :: "stream_state \<Rightarrow> bool \<Rightarrow> payload_protocol_identifier \<Rightarrow> bool \<Rightarrow> bool \<Rightarrow> bytes \<Rightarrow> chunk_payload_data" where
  "fragment s u ppi b e d =
     pd_default\<lparr>pd_stream_identifier := ss_stream_identifier s, pd_user_data := d, pd_unordered := u,
       pd_beginning_fragment := b, pd_ending_fragment := e, pd_immediate_sack := False,
       pd_payload_type := ppi, pd_stream_sequence_number := ss_sequence_number s,
       pd_abandoned := False, pd_all_inflight := False\<rparr>"

fun fragments_of :: "stream_state \<Rightarrow> bool \<Rightarrow> payload_protocol_identifier \<Rightarrow> bool \<Rightarrow> bytes list \<Rightarrow> chunk_payload_data list" where
  "fragments_of s u ppi b [] = []"
| "fragments_of s u ppi b (d # ds) = fragment s u ppi b (ds = []) d # fragments_of s u ppi False ds"

lemma packetize_loop_eq:
  assumes "0 < unat (ss_max_payload_size s)" "i \<le> length raw" "r = length raw - i"
  shows "packetize_loop s u ppi raw i r =
    Inr (fragments_of s u ppi (i = 0) (pieces (unat (ss_max_payload_size s)) (drop i raw)))"
  using assms(2,3)
proof (induction r arbitrary: i rule: less_induct)
  case (less r)
  let ?n = "unat (ss_max_payload_size s)"
  show ?case
  proof (cases "r = 0")
    case True
    with less.prems show ?thesis by (simp add: packetize_loop.simps)
  next
    case False
    let ?f = "min ?n r"
    have f: "0 < ?f" "i + ?f \<le> length raw" "r - ?f = length raw - (i + ?f)" "r - ?f < r"
      using False less.prems assms(1) by auto
    have ne: "drop i raw \<noteq> []" using False less.prems by simp
    have p: "pieces ?n (drop i raw) = take ?f (drop i raw) # pieces ?n (drop (i + ?f) raw)"
      using ne assms(1) less.prems by (subst pieces.simps) (auto simp: min_def add.commute)
    have e: "pieces ?n (drop (i + ?f) raw) = [] \<longleftrightarrow> r - ?f = 0"
      using assms(1) f(2,3) by (subst pieces.simps) auto
    have "(i + ?f = 0) = False" using f(1) by auto
    with less.IH [OF f(4,2,3)] have IH: "packetize_loop s u ppi raw (i + ?f) (r - ?f) =
        Inr (fragments_of s u ppi False (pieces ?n (drop (i + ?f) raw)))" by (simp only:)
    show ?thesis
      using f(1,2) False by (subst packetize_loop.simps) (simp add: IH p e slice_def fragment_def Let_def take_drop)
  qed
qed

lemma payload_fragments_of: "payload (fragments_of s u ppi b ds) = concat ds"
  by (induction s u ppi b ds rule: fragments_of.induct) (simp_all add: fragment_def)

lemma framed_fragments_of:
  assumes "ds \<noteq> []"
  shows "framed (if b then None else Some (u, ss_stream_identifier s, ss_sequence_number s)) (fragments_of s u ppi b ds) = Some None"
  using assms
proof (induction s u ppi b ds rule: fragments_of.induct)
  case (2 s u ppi b d ds)
  then show ?case by (cases ds; cases b) (simp_all add: fragment_def message_key_def pd_default_def)
qed simp


lemma set_fragments_of:
  "c \<in> set (fragments_of s u ppi b ds) \<Longrightarrow> pd_unordered c = u \<and> pd_user_data c \<in> set ds"
  by (induction s u ppi b ds rule: fragments_of.induct) (auto simp: fragment_def)

definition ordered_mode :: "stream_state \<Rightarrow> payload_protocol_identifier \<Rightarrow> bool" where
  "ordered_mode s ppi \<longleftrightarrow> ppi = PPI_Dcep \<or> \<not> ss_unordered s"

lemma ss_packetize_eq:
  assumes "0 < unat (ss_max_payload_size s)"
  shows "ss_packetize s raw ppi =
    Inr (fragments_of s (\<not> ordered_mode s ppi) ppi True (pieces (unat (ss_max_payload_size s)) raw),
      s\<lparr>ss_sequence_number := (if ordered_mode s ppi then ss_sequence_number s + 1 else ss_sequence_number s),
        ss_buffered_amount := ss_buffered_amount s + length raw\<rparr>)"
  using packetize_loop_eq [OF assms, of 0 raw "length raw"]
  by (auto simp: ss_packetize_def ordered_mode_def Let_def)

lemma length_fragments_of [simp]: "length (fragments_of s u ppi b ds) = length ds"
  by (induction s u ppi b ds rule: fragments_of.induct) simp_all

lemma fragments_of_Nil [simp]: "fragments_of s u ppi b ds = [] \<longleftrightarrow> ds = []"
  by (cases ds) simp_all

lemma nth_fragments_of:
  "j < length ds \<Longrightarrow> fragments_of s u ppi b ds ! j = fragment s u ppi (b \<and> j = 0) (j = length ds - 1) (ds ! j)"
proof (induction s u ppi b ds arbitrary: j rule: fragments_of.induct)
  case (2 s u ppi b d ds)
  show ?case
  proof (cases j)
    case (Suc k)
    moreover from this 2(2) have "k = length ds - 1 \<longleftrightarrow> Suc k = length ds" by auto
    ultimately show ?thesis using 2 by simp
  qed auto
qed simp

section \<open>A stream of ordered messages\<close>

text \<open>Successive writes to a stream, and the TSNs its fragments get when they are sent.\<close>

fun packetize_all ::
    "stream_state \<Rightarrow> payload_protocol_identifier \<Rightarrow> bytes list \<Rightarrow> (chunk_payload_data list list \<times> stream_state) result" where
  "packetize_all s ppi [] = Inr ([], s)"
| "packetize_all s ppi (d # ds) =
     rbind (ss_packetize s d ppi) (\<lambda>(m, s). rbind (packetize_all s ppi ds) (\<lambda>(ms, s). Inr (m # ms, s)))"

definition numbered :: "u32 \<Rightarrow> chunk_payload_data list \<Rightarrow> chunk_payload_data list" where
  "numbered t m = map2 (\<lambda>k c. c\<lparr>pd_tsn := t + of_nat k\<rparr>) [0..<length m] m"

lemma length_numbered [simp]: "length (numbered t m) = length m"
  by (simp add: numbered_def)

lemma payload_numbered [simp]: "payload (numbered t m) = payload m"
proof -
  have "map pd_user_data (numbered t m) = map pd_user_data m"
    by (rule nth_equalityI) (simp_all add: numbered_def)
  then show ?thesis by (simp add: payload_def)
qed

lemma packetize_ordered_message:
  assumes "0 < unat (ss_max_payload_size s)" "raw \<noteq> []" "length raw \<le> 2 ^ 31"
  shows "ordered_message (ss_stream_identifier s) (ss_sequence_number s)
    (numbered t (fragments_of s False ppi True (pieces (unat (ss_max_payload_size s)) raw)))"
proof -
  let ?ds = "pieces (unat (ss_max_payload_size s)) raw"
  have "?ds \<noteq> []" using assms(1,2) by (subst pieces.simps) simp
  moreover have "length ?ds \<le> 2 ^ 31" using length_pieces [OF assms(1), of raw] assms(3) by linarith
  ultimately show ?thesis
    by (auto simp: ordered_message_def numbered_def nth_fragments_of fragment_def pd_default_def)
qed

lemma packetize_all_eq:
  assumes "0 < unat (ss_max_payload_size s)" "ordered_mode s ppi"
  shows "packetize_all s ppi ds =
    Inr (map (\<lambda>i. fragments_of (s\<lparr>ss_sequence_number := ss_sequence_number s + of_nat i\<rparr>) False ppi True
              (pieces (unat (ss_max_payload_size s)) (ds ! i))) [0..<length ds],
      s\<lparr>ss_sequence_number := ss_sequence_number s + of_nat (length ds),
        ss_buffered_amount := ss_buffered_amount s + length (concat ds)\<rparr>)"
  using assms
proof (induction ds arbitrary: s)
  case (Cons d ds)
  let ?n = "unat (ss_max_payload_size s)"
  let ?s = "s\<lparr>ss_sequence_number := ss_sequence_number s + 1, ss_buffered_amount := ss_buffered_amount s + length d\<rparr>"
  have fr: "fragments_of (s\<lparr>ss_buffered_amount := x, ss_sequence_number := q\<rparr>) u p b xs =
      fragments_of (s\<lparr>ss_sequence_number := q\<rparr>) u p b xs" for x q u p b xs
    by (induction xs arbitrary: b) (simp_all add: fragment_def)
  have "packetize_all ?s ppi ds = Inr
      (map (\<lambda>i. fragments_of (s\<lparr>ss_sequence_number := ss_sequence_number s + 1 + of_nat i\<rparr>) False ppi True (pieces ?n (ds ! i))) [0..<length ds],
       ?s\<lparr>ss_sequence_number := ss_sequence_number s + 1 + of_nat (length ds),
          ss_buffered_amount := ss_buffered_amount s + length d + length (concat ds)\<rparr>)"
    using Cons.IH [of ?s] Cons.prems by (simp add: fr ordered_mode_def)
  moreover have "ss_packetize s d ppi = Inr (fragments_of s False ppi True (pieces ?n d), ?s)"
    using Cons.prems by (simp add: ss_packetize_eq)
  ultimately show ?case
    by (simp add: map_upt_Suc add.assoc del: upt_Suc)
qed simp

section \<open>Properties\<close>

text \<open>
  C35. \<^verbatim>\<open>packetize\<close> cuts a message that is not empty into fragments of at most the maximal payload
  size, none of them empty, which are framed as one message and make up its bytes; the stream
  sequence number advances for ordered messages only.
\<close>

theorem packetize_message:
  assumes "0 < unat (ss_max_payload_size s)" "raw \<noteq> []"
  shows "\<exists>cs s'. ss_packetize s raw ppi = Inr (cs, s') \<and> message cs \<and> payload cs = raw \<and>
    (\<forall>c \<in> set cs. pd_user_data c \<noteq> [] \<and> length (pd_user_data c) \<le> unat (ss_max_payload_size s)) \<and>
    ss_sequence_number s' = (if ordered_mode s ppi then ss_sequence_number s + 1 else ss_sequence_number s) \<and>
    ss_buffered_amount s' = ss_buffered_amount s + length raw"
proof -
  let ?ds = "pieces (unat (ss_max_payload_size s)) raw"
  let ?cs = "fragments_of s (\<not> ordered_mode s ppi) ppi True ?ds"
  have ne: "?ds \<noteq> []" using assms by (subst pieces.simps) simp
  have "message ?cs"
    using framed_fragments_of [OF ne, of True] ne set_fragments_of
    unfolding message_def by (metis (no_types, lifting) hd_in_set length_fragments_of length_greater_0_conv)
  moreover have "payload ?cs = raw" by (simp add: payload_fragments_of concat_pieces assms(1))
  moreover have "\<forall>c \<in> set ?cs. pd_user_data c \<noteq> [] \<and> length (pd_user_data c) \<le> unat (ss_max_payload_size s)"
    using set_fragments_of pieces_length by blast
  ultimately show ?thesis by (simp add: ss_packetize_eq [OF assms(1)])
qed

theorem packetize_message_witness:
  "\<exists>cs s'. ss_packetize (ss_new Client 0 2 PPI_Binary) [1, 2, 3] PPI_Binary = Inr (cs, s') \<and> message cs \<and> payload cs = [1, 2, 3]"
  using packetize_message [of "ss_new Client 0 2 PPI_Binary" "[1, 2, 3]" PPI_Binary] by (auto simp: ss_new_def)

text \<open>
  C14. End to end over one stream: the messages written to a new ordered stream are packetized, the
  fragments get consecutive TSNs within each message, and arrive at the peer in any order, mixed with
  unordered data and with reads; then the ordered messages the peer reads are, byte for byte and
  in order, the first of the messages written.
\<close>

theorem stream_end_to_end:
  assumes "s = ss_new side si mps ppi0" "0 < unat mps"
    and "\<forall>d \<in> set ds. d \<noteq> [] \<and> length d \<le> 2 ^ 31" "length ts = length ds"
    and "packetize_all s ppi ds = Inr (ms, s')" "received si (map2 numbered ts ms) q S outs"
  shows "map (payload \<circ> cs_chunks) (filter is_ordered outs) = take (length (filter is_ordered outs)) ds"
proof -
  have m: "0 < unat (ss_max_payload_size s)" "ordered_mode s ppi"
    using assms(1,2) by (simp_all add: ss_new_def ordered_mode_def)
  have seq: "ss_sequence_number s = 0" "ss_stream_identifier s = si" using assms(1) by (simp_all add: ss_new_def)
  define f where "f i = fragments_of (s\<lparr>ss_sequence_number := of_nat i\<rparr>) False ppi True
              (pieces (unat (ss_max_payload_size s)) (ds ! i))" for i
  have ms: "ms = map f [0..<length ds]"
    using assms(5) packetize_all_eq [OF m, of ds] seq by (auto simp: f_def)
  have len: "length (map2 numbered ts ms) = length ds" using assms(4) ms by simp
  have nth: "map2 numbered ts ms ! i = numbered (ts ! i) (f i)" if "i < length ds" for i
    using that assms(4) ms by simp
  have "ordered_stream si (map2 numbered ts ms)"
    unfolding ordered_stream_def len
  proof (intro allI impI)
    fix i assume i: "i < length ds"
    then have "ds ! i \<in> set ds" by simp
    with assms(3) have "ds ! i \<noteq> []" "length (ds ! i) \<le> 2 ^ 31" by auto
    from packetize_ordered_message [OF _ this, of "s\<lparr>ss_sequence_number := of_nat i\<rparr>"] m(1) seq(2)
    show "ordered_message si (of_nat i) (map2 numbered ts ms ! i)" by (simp add: nth [OF i] f_def)
  qed
  from received_inv [OF this assms(6)]
  have "map cs_chunks (filter is_ordered outs) = take (length (filter is_ordered outs)) (map2 numbered ts ms)" by simp
  then have "map (payload \<circ> cs_chunks) (filter is_ordered outs) =
      take (length (filter is_ordered outs)) (map payload (map2 numbered ts ms))"
    by (metis map_map take_map)
  also have "map payload (map2 numbered ts ms) = ds"
    using len nth m(1) by (intro nth_equalityI) (simp_all add: f_def payload_fragments_of concat_pieces)
  finally show ?thesis .
qed

theorem stream_end_to_end_witness:
  "\<exists>ms q outs s'. packetize_all (ss_new Client 0 2 PPI_Binary) PPI_Binary [[1, 2, 3]] = Inr (ms, s') \<and>
     received 0 (map2 numbered [- 1] ms) q {(0, 0), (0, 1)} outs \<and>
     map (payload \<circ> cs_chunks) (filter is_ordered outs) = [[1, 2, 3]]"
proof -
  let ?s = "ss_new Client 0 2 PPI_Binary"
  have s: "0 < unat (ss_max_payload_size ?s)" "ordered_mode ?s PPI_Binary"
    by (simp_all add: ss_new_def ordered_mode_def)
  obtain ms s' where p: "packetize_all ?s PPI_Binary [[1, 2, 3]] = Inr (ms, s')"
    using packetize_all_eq [OF s] by blast
  then have ms: "ms = [fragments_of ?s False PPI_Binary True [[1, 2], [3]]]"
    using packetize_all_eq [OF s, of "[[1, 2, 3]]"] by (auto simp: ss_new_def pieces.simps)
  define xs where "xs = map2 numbered [- 1 :: u32] ms"
  have ord: "ordered_stream 0 xs"
    by (auto simp: xs_def ms ordered_stream_def ordered_message_def numbered_def fragment_def pd_default_def
        ss_new_def less_Suc_eq)
  have len: "length xs = 1" "length (xs ! 0) = 2" by (simp_all add: xs_def ms)
  define q where "q = snd (rq_push 0 (snd (rq_push 0 (rq_new 0) (xs ! 0 ! 1))) (xs ! 0 ! 0))"
  have r: "received 0 xs q {(0, 0), (0, 1)} []"
    using received.arrive [OF received.arrive [OF received.start, of 0 xs 1 0 0], of 0 0 0] len by (simp add: q_def)
  have "\<not> pd_unordered (xs ! 0 ! j)" if "j < 2" for j
    using ord len that ordered_messageD(2) by (metis less_one ordered_stream_def)
  then have "rq_unordered q = []"
    by (simp add: q_def rq_push_ordered_unordered) (simp add: rq_new_def)
  then have "map cs_chunks (filter is_ordered ([] @ rq_drain 1 q)) = xs"
    using len by (intro drain_all [OF ord r]) (auto simp: less_Suc_eq numeral_2_eq_2)
  then obtain cs q' where rd: "rq_read q = (Some cs, q')" "is_ordered cs"
    using len by (cases "rq_read q") (auto split: option.splits if_splits)
  from received.read [OF r rd(1)] have r': "received 0 xs q' {(0, 0), (0, 1)} [cs]" by simp
  from stream_end_to_end [OF refl _ _ _ p r' [unfolded xs_def]] rd(2)
  have "map (payload \<circ> cs_chunks) (filter is_ordered [cs]) = [[1, 2, 3]]" by simp
  with p r' show ?thesis unfolding xs_def by (intro exI conjI)
qed

text \<open>
  A write of an empty message sends nothing but uses up a stream sequence number, after which
  a message that arrives completely is never readable at the peer.
\<close>

theorem empty_message_stalls:
  "\<exists>c s1 s2. ss_packetize (ss_new Client si 1200 ppi0) [] PPI_Binary = Inr ([], s1) \<and>
     ss_packetize s1 [7] PPI_Binary = Inr ([c], s2) \<and>
     chunks_is_complete (chunks_new 0 (pd_stream_sequence_number c) PPI_Binary [c]) \<and>
     \<not> rq_is_readable (snd (rq_push 0 (rq_new si) c))"
proof -
  let ?s = "ss_new Client si 1200 ppi0"
  let ?s1 = "?s\<lparr>ss_sequence_number := 1\<rparr>"
  let ?c = "fragment ?s1 False PPI_Binary True True [7]"
  have 1: "ss_packetize ?s [] PPI_Binary = Inr ([], ?s1)"
    by (subst ss_packetize_eq) (simp_all add: ss_new_def ordered_mode_def)
  have 2: "ss_packetize ?s1 [7] PPI_Binary = Inr ([?c], ?s1\<lparr>ss_sequence_number := 2, ss_buffered_amount := 1\<rparr>)"
    by (subst ss_packetize_eq) (simp_all add: ss_new_def ordered_mode_def pieces.simps)
  have 3: "chunks_is_complete (chunks_new 0 (pd_stream_sequence_number ?c) PPI_Binary [?c])"
    by (simp add: chunks_is_complete_def chunks_new_def fragment_def)
  have lt: "\<not> sna16lt 1 0" "\<not> sna16lte 1 0"
    by (simp_all add: sna16lt_def sna16lte_def word_less_nat_alt)
  have 4: "\<not> rq_is_readable (snd (rq_push 0 (rq_new si) ?c))"
    using lt by (simp add: rq_is_readable_def rq_push_def rq_new_def fragment_def ss_new_def pd_default_def
        chunks_push_def chunks_new_def sort_chunks_by_tsn_def sort_chunks_by_ssn_def sort_by_def insert_by_def
        chunks_is_complete_def Let_def)
  from 1 2 3 4 show ?thesis by blast
qed

end
