(* ===== verification/Sctp_Packet.thy ===== *)
theory Sctp_Packet
  imports Sctp_Chunks
begin

unbundle bit_operations_syntax

text \<open>
  \<^verbatim>\<open>rtc-sctp/src/packet.rs\<close>: an SCTP packet is a common header with a checksum and a sequence of
  chunks. The CRC32c of the \<^verbatim>\<open>crc\<close> crate is the parameter \<open>crc\<close>, a function of the bytes fed
  to the digest; nothing is assumed of it. An incoming packet is decoded in two stages,
  \<^verbatim>\<open>PartialDecode::unmarshal\<close> in the endpoint and \<^verbatim>\<open>finish\<close> in the association;
  \<^verbatim>\<open>Packet::unmarshal\<close> does both at once.
\<close>

record common_header =
  cm_source_port :: u16
  cm_destination_port :: u16
  cm_verification_tag :: u32

record packet =
  pk_common_header :: common_header
  pk_chunks :: "chunk list"

record partial_decode =
  pdec_common_header :: common_header
  pdec_remaining :: bytes
  pdec_first_chunk_type :: u8
  pdec_initiate_tag :: "u32 option"
  pdec_cookie :: "bytes option"

definition generate_packet_checksum :: "(bytes \<Rightarrow> u32) \<Rightarrow> bytes \<Rightarrow> u32 result" where
  "generate_packet_checksum crc raw =
     rbind (slice 0 8 raw) (\<lambda>a.
     rbind (slice 12 (length raw) raw) (\<lambda>b. Inr (crc (a @ [0, 0, 0, 0] @ b))))"

text \<open>The reading of the common header and the checksum test, the same lines in both decoders.\<close>

definition common_header_unmarshal :: "(bytes \<Rightarrow> u32) \<Rightarrow> bytes \<Rightarrow> (common_header \<times> bytes) result" where
  "common_header_unmarshal crc raw =
     (if length raw < 12 then Inl (Err ''ErrPacketRawTooSmall'')
      else
        rbind (get_u16 raw) (\<lambda>(sp, reader).
        rbind (get_u16 reader) (\<lambda>(dp, reader).
        rbind (get_u32 reader) (\<lambda>(tag, reader).
        rbind (get_u32_le reader) (\<lambda>(their_checksum, reader).
        rbind (generate_packet_checksum crc raw) (\<lambda>our_checksum.
          if their_checksum \<noteq> our_checksum then Inl (Err ''ErrChecksumMismatch'')
          else Inr (\<lparr>cm_source_port = sp, cm_destination_port = dp, cm_verification_tag = tag\<rparr>,
                    reader)))))))"

definition partial_unmarshal :: "(bytes \<Rightarrow> u32) \<Rightarrow> bytes \<Rightarrow> partial_decode result" where
  "partial_unmarshal crc raw =
     rbind (common_header_unmarshal crc raw) (\<lambda>(hdr, reader).
       if length reader < 4 then Inl (Err ''ErrParseSctpChunkNotEnoughData'')
       else
         rbind (chunk_header_unmarshal reader) (\<lambda>h.
         rbind (copy_to_bytes 4 reader) (\<lambda>(_, reader).
         rbind (if ch_typ h = CT_INIT \<or> ch_typ h = CT_INIT_ACK
                then rbind (get_u32 reader) (\<lambda>(tag, _). Inr (Some tag)) else Inr None) (\<lambda>initiate_tag.
         rbind (if ch_typ h = CT_COOKIE_ECHO
                then rbind (slice (12 + 4) (12 + 4 + unat (ch_value_length h)) raw) (\<lambda>c. Inr (Some c))
                else Inr None) (\<lambda>cookie.
         rbind (slice 12 (length raw) raw) (\<lambda>remaining.
           Inr \<lparr>pdec_common_header = hdr, pdec_remaining = remaining,
                pdec_first_chunk_type = ch_typ h, pdec_initiate_tag = initiate_tag,
                pdec_cookie = cookie\<rparr>))))))"

text \<open>The chunk loop of \<^verbatim>\<open>finish\<close> (from offset 0) and of \<^verbatim>\<open>Packet::unmarshal\<close> (from offset 12).\<close>

function packet_chunks :: "bytes \<Rightarrow> nat \<Rightarrow> chunk list result" where
  "packet_chunks raw offset =
     (if offset = length raw then Inr []
      else if offset + 4 > length raw then Inl (Err ''ErrParseSctpChunkNotEnoughData'')
      else
        rbind (slice offset (length raw) raw) (\<lambda>s.
        rbind (unmarshal_chunk (raw ! offset) s) (\<lambda>c.
          let chunk_value_padding = get_padding_size (chunk_value_length c) in
          rbind (packet_chunks raw (offset + (4 + chunk_value_length c + chunk_value_padding)))
            (\<lambda>cs. Inr (c # cs)))))"
  by pat_completeness auto
termination
  by (relation "measure (\<lambda>(raw, offset). length raw - offset)") auto

declare packet_chunks.simps [simp del]

definition partial_finish :: "partial_decode \<Rightarrow> packet result" where
  "partial_finish d =
     rbind (packet_chunks (pdec_remaining d) 0) (\<lambda>cs.
       Inr \<lparr>pk_common_header = pdec_common_header d, pk_chunks = cs\<rparr>)"

definition packet_unmarshal :: "(bytes \<Rightarrow> u32) \<Rightarrow> bytes \<Rightarrow> packet result" where
  "packet_unmarshal crc raw =
     rbind (common_header_unmarshal crc raw) (\<lambda>(hdr, _).
     rbind (packet_chunks raw 12) (\<lambda>cs. Inr \<lparr>pk_common_header = hdr, pk_chunks = cs\<rparr>))"

fun marshal_chunks :: "bytes \<Rightarrow> chunk list \<Rightarrow> bytes result" where
  "marshal_chunks raw [] = Inr raw"
| "marshal_chunks raw (c # cs) =
     rbind (chunk_marshal c) (\<lambda>chunk_raw.
       let raw = raw @ chunk_raw;
           padding_needed = get_padding_size (length raw);
           raw = (if padding_needed \<noteq> 0 then raw @ replicate padding_needed 0 else raw) in
       marshal_chunks raw cs)"

definition packet_marshal :: "(bytes \<Rightarrow> u32) \<Rightarrow> packet \<Rightarrow> bytes result" where
  "packet_marshal crc p =
     (let hdr = pk_common_header p;
          writer = put_u16 (cm_source_port hdr) @ put_u16 (cm_destination_port hdr) @
                   put_u32 (cm_verification_tag hdr) in
      rbind (marshal_chunks [] (pk_chunks p)) (\<lambda>raw.
        let checksum = crc (writer @ [0, 0, 0, 0] @ raw) in
        Inr (writer @ put_u32_le checksum @ raw)))"

definition check_packet :: "packet \<Rightarrow> unit result" where
  "check_packet p =
     (if cm_source_port (pk_common_header p) = 0 then Inl (Err ''ErrSctpPacketSourcePortZero'')
      else if cm_destination_port (pk_common_header p) = 0
      then Inl (Err ''ErrSctpPacketDestinationPortZero'')
      else foldl (\<lambda>r c. rbind (r :: unit result) (\<lambda>_.
          case c of
            ChunkInit ci \<Rightarrow>
              if \<not> ci_is_ack ci then
                if length (pk_chunks p) \<noteq> 1 then Inl (Err ''ErrInitChunkBundled'')
                else if cm_verification_tag (pk_common_header p) \<noteq> 0
                then Inl (Err ''ErrInitChunkVerifyTagNotZero'')
                else Inr ()
              else Inr ()
          | _ \<Rightarrow> Inr ())) (Inr ()) (pk_chunks p))"

section \<open>Round trip\<close>

text \<open>
  The packets the decoder reads back: every chunk but the last tolerates a following chunk.
\<close>

definition chunk_padding :: "chunk \<Rightarrow> bytes" where
  "chunk_padding c = replicate (get_padding_size (chunk_value_length c)) 0"

fun chunks_wf :: "chunk list \<Rightarrow> bool" where
  "chunks_wf [] \<longleftrightarrow> True"
| "chunks_wf [c] \<longleftrightarrow> chunk_ok c (chunk_padding c)"
| "chunks_wf (c # d # cs) \<longleftrightarrow> chunk_ok c [0, 0, 0, 0] \<and> chunks_wf (d # cs)"

lemma chunk_ok_bundled: "chunk_ok c [0, 0, 0, 0] \<Longrightarrow> tail_ok t \<Longrightarrow> chunk_ok c t"
  by (cases c) (auto simp: tail_ok_def)

lemma padding_add: "4 dvd n \<Longrightarrow> get_padding_size (n + k) = get_padding_size k"
  by (auto simp: get_padding_size_def elim!: dvdE)

fun chunks_body :: "chunk list \<Rightarrow> bytes" where
  "chunks_body [] = []"
| "chunks_body (c # cs) =
     (case chunk_marshal c of Inr bs \<Rightarrow> bs @ chunk_padding c @ chunks_body cs | Inl e \<Rightarrow> [])"

lemma chunks_wf_Cons:
  assumes "chunks_wf (c # cs)"
  shows "chunks_wf cs" "\<exists>t. chunk_ok c t"
  using assms by (cases cs; auto)+

lemma chunks_body_Cons:
  assumes "chunks_wf (c # cs)" "chunk_marshal c = Inr bs"
  shows "chunks_body (c # cs) = bs @ chunk_padding c @ chunks_body cs"
  using assms by simp

lemma chunks_body_long: "chunks_wf (c # cs) \<Longrightarrow> 4 \<le> length (chunks_body (c # cs))"
  using chunks_wf_Cons(2) [of c cs] chunks.marshal_ok [of c] by fastforce

lemma chunks_wf_ok:
  assumes "chunks_wf (c # cs)"
  shows "chunk_ok c (chunk_padding c @ chunks_body cs)"
proof (cases cs)
  case (Cons d ds)
  then have "4 \<le> length (chunks_body cs)"
    using assms chunks_body_long [of d ds] by simp
  with Cons assms show ?thesis
    by (auto simp: tail_ok_def intro!: chunk_ok_bundled)
qed (use assms in simp)

lemma marshal_chunks_body:
  assumes "chunks_wf cs" "4 dvd length raw"
  shows "marshal_chunks raw cs = Inr (raw @ chunks_body cs)"
  using assms
proof (induction cs arbitrary: raw)
  case (Cons c cs)
  obtain t where "chunk_ok c t" using chunks_wf_Cons(2) [OF Cons.prems(1)] by blast
  then obtain bs where bs: "chunk_marshal c = Inr bs" "length bs = 4 + chunk_value_length c"
    using chunks.marshal_ok by blast
  have "get_padding_size (length (raw @ bs)) = get_padding_size (chunk_value_length c)"
    using Cons.prems(2) padding_add [of "length raw + 4" "chunk_value_length c"] by (simp add: bs(2) add.assoc)
  moreover have "4 dvd length (raw @ bs @ chunk_padding c)"
    using padding_total(1) [of "length (raw @ bs)"] calculation by (simp add: chunk_padding_def add.assoc)
  moreover have "chunks_wf cs" using chunks_wf_Cons(1) [OF Cons.prems(1)] .
  ultimately show ?case
    using Cons.IH [of "raw @ bs @ chunk_padding c"] bs(1)
    by (cases "get_padding_size (chunk_value_length c) = 0") (simp_all add: Let_def chunk_padding_def)
qed simp

lemma chunks_body_aligned: "chunks_wf cs \<Longrightarrow> 4 dvd length (chunks_body cs)"
proof (induction cs)
  case (Cons c cs)
  obtain bs where "chunk_marshal c = Inr bs" "length bs = 4 + chunk_value_length c"
    using chunks_wf_Cons(2) [OF Cons.prems] chunks.marshal_ok by blast
  then show ?case
    using Cons.IH [OF chunks_wf_Cons(1) [OF Cons.prems]] padding_total(1) [of "chunk_value_length c"]
    by (simp add: chunk_padding_def) (metis add.assoc dvd_add dvd_refl)
qed simp

lemma packet_chunks_body:
  assumes "chunks_wf cs" "raw = pre @ chunks_body cs" "offset = length pre"
  shows "packet_chunks raw offset = Inr cs"
  using assms
proof (induction cs arbitrary: pre offset)
  case Nil
  then show ?case by (subst packet_chunks.simps) simp
next
  case (Cons c cs)
  note ok = chunks_wf_ok [OF Cons.prems(1)]
  then obtain bs where bs: "chunk_marshal c = Inr bs" "length bs = 4 + chunk_value_length c"
    using chunks.marshal_ok by blast
  let ?t = "chunk_padding c @ chunks_body cs"
  have raw: "raw = pre @ bs @ ?t"
    using Cons.prems(2) bs(1) by simp
  have s: "slice offset (length raw) raw = Inr (bs @ ?t)"
    using slice_append [of pre offset "length raw" "bs @ ?t" "[]"] raw Cons.prems(3) by simp
  have "raw ! offset = hd (bs @ ?t)"
    using raw Cons.prems(3) bs(2) by (cases bs) simp_all
  then have u: "unmarshal_chunk (raw ! offset) (bs @ ?t) = Inr c"
    using chunks.round_trip [OF ok bs(1)] by simp
  have "packet_chunks raw (offset + (4 + chunk_value_length c + get_padding_size (chunk_value_length c))) = Inr cs"
    using Cons.prems(3) bs(2) chunks_wf_Cons(1) [OF Cons.prems(1)] raw
    by (intro Cons.IH [of "pre @ bs @ chunk_padding c"]) (simp_all add: chunk_padding_def)
  then show ?case
    by (subst packet_chunks.simps) (use s u raw Cons.prems(3) bs(2) in \<open>simp add: Let_def\<close>)
qed

lemma common_header_round_trip:
  assumes "w = put_u16 sp @ put_u16 dp @ put_u32 tag"
  shows "common_header_unmarshal crc (w @ put_u32_le (crc (w @ [0, 0, 0, 0] @ b)) @ b) =
           Inr (\<lparr>cm_source_port = sp, cm_destination_port = dp, cm_verification_tag = tag\<rparr>, b)"
proof -
  let ?c = "put_u32_le (crc (w @ [0, 0, 0, 0] @ b))"
  have "slice 0 8 (w @ ?c @ b) = Inr w"
    using slice_append [of "[]" 0 8 w "?c @ b"] by (simp add: assms)
  moreover have "slice 12 (length (w @ ?c @ b)) (w @ ?c @ b) = Inr b"
    using slice_append [of "w @ ?c" 12 _ b "[]"] by (simp add: assms)
  ultimately have "generate_packet_checksum crc (w @ ?c @ b) = Inr (crc (w @ [0, 0, 0, 0] @ b))"
    by (simp add: generate_packet_checksum_def)
  then show ?thesis
    by (simp add: common_header_unmarshal_def assms)
qed

lemma packet_chunks_shift: "packet_chunks (pre @ r) (length pre + offset) = packet_chunks r offset"
proof (induction r offset rule: packet_chunks.induct)
  case (1 raw offset)
  have s: "slice (length pre + offset) (length (pre @ raw)) (pre @ raw) = slice offset (length raw) raw"
    by (auto simp: slice_def)
  have n: "(pre @ raw) ! (length pre + offset) = raw ! offset"
    by simp
  show ?case
  proof (cases "offset = length raw \<or> offset + 4 > length raw")
    case True
    then show ?thesis
      by (subst (1 2) packet_chunks.simps) auto
  next
    case False
    show ?thesis
      unfolding packet_chunks.simps [of "pre @ raw" "length pre + offset"]
        packet_chunks.simps [of raw offset] s n
      using False "1.IH" by (auto simp: rbind_def Let_def add.assoc split: sum.splits)
  qed
qed

section \<open>The two-stage decoder\<close>

lemma common_header_rest:
  assumes "common_header_unmarshal crc raw = Inr (hdr, r)"
  shows "r = drop 12 raw \<and> 12 \<le> length raw"
  using assms
  by (auto simp: common_header_unmarshal_def rbind_eq_Inr split: if_splits dest!: get_rest)

lemma partial_finish_eq:
  assumes "partial_unmarshal crc raw = Inr d"
  shows "partial_finish d = packet_unmarshal crc raw"
proof -
  obtain hdr r where c: "common_header_unmarshal crc raw = Inr (hdr, r)"
    using assms by (auto simp: partial_unmarshal_def rbind_eq_Inr)
  then have l: "12 \<le> length raw"
    using common_header_rest by blast
  have d: "pdec_common_header d = hdr" "pdec_remaining d = drop 12 raw"
    using assms l c by (auto simp: partial_unmarshal_def rbind_eq_Inr slice_def split: if_splits)
  have "packet_chunks raw 12 = packet_chunks (drop 12 raw) 0"
    using packet_chunks_shift [of "take 12 raw" "drop 12 raw" 0] l by simp
  with d c show ?thesis
    by (simp add: partial_finish_def packet_unmarshal_def)
qed

lemma chunk_header_typ:
  assumes "chunk_header_unmarshal raw = Inr h"
  shows "ch_typ h = raw ! 0 \<and> 4 + unat (ch_value_length h) \<le> length raw \<and> 4 \<le> length raw"
proof -
  obtain a b c d bs where raw: "raw = a # b # c # d # bs"
    using assms by (cases raw rule: get_u32.cases) (auto simp: chunk_header_unmarshal_def)
  let ?len = "be16 c d"
  have "4 \<le> ?len" "uint ?len \<le> int (length raw)" "h = \<lparr>ch_typ = a, ch_flags = b, ch_value_length = ?len - 4\<rparr>"
    using assms by (auto simp: raw chunk_header_unmarshal_def Let_def not_less split: if_splits)
  moreover have "unat (?len - 4) = unat ?len - 4"
    using calculation(1) by (simp add: unat_sub)
  moreover have "unat ?len \<le> length raw"
    using calculation(2) unfolding uint_nat by linarith
  ultimately show ?thesis
    by (auto simp: raw word_le_nat_alt)
qed

lemmas chunk_unmarshal_defs =
  payload_data_unmarshal_def init_unmarshal_def selective_ack_unmarshal_def heartbeat_unmarshal_def
  abort_unmarshal_def shutdown_unmarshal_def shutdown_ack_unmarshal_def error_unmarshal_def
  cookie_echo_unmarshal_def cookie_ack_unmarshal_def shutdown_complete_unmarshal_def
  reconfig_unmarshal_def forward_tsn_unmarshal_def

lemma unmarshal_chunk_header:
  assumes "unmarshal_chunk ct raw = Inr c"
  shows "\<exists>h. chunk_header_unmarshal raw = Inr h \<and> (ct \<in> {1, 2} \<longrightarrow> 20 \<le> length raw)"
  using assms unfolding unmarshal_chunk_def chunk_unmarshal_defs
  by (auto simp: rbind_eq_Inr not_less split: if_splits)

lemma partial_unmarshal_total:
  assumes "packet_unmarshal crc raw = Inr p" "pk_chunks p \<noteq> []"
  shows "\<exists>d. partial_unmarshal crc raw = Inr d"
proof -
  obtain hdr r cs where c: "common_header_unmarshal crc raw = Inr (hdr, r)" "packet_chunks raw 12 = Inr cs" "cs \<noteq> []"
    using assms by (auto simp: packet_unmarshal_def rbind_eq_Inr)
  have r: "r = drop 12 raw" "12 \<le> length raw"
    using common_header_rest [OF c(1)] by auto
  have "length raw \<noteq> 12"
    using c(2,3) by (subst (asm) packet_chunks.simps) auto
  then have "16 \<le> length raw" "\<exists>x. unmarshal_chunk (raw ! 12) r = Inr x"
    using c(2) r(2)
    by (subst (asm) packet_chunks.simps, auto simp: r(1) slice_def rbind_eq_Inr split: if_splits)+
  then obtain h where h: "chunk_header_unmarshal r = Inr h" "raw ! 12 \<in> {1, 2} \<longrightarrow> 20 \<le> length r"
    using unmarshal_chunk_header by blast
  have t: "ch_typ h = raw ! 12" "4 + unat (ch_value_length h) \<le> length r" "4 \<le> length r"
    using chunk_header_typ [OF h(1)] \<open>16 \<le> length raw\<close> by (auto simp: r(1))
  have "copy_to_bytes 4 r = Inr (take 4 r, drop 4 r)"
    using t(3) by (simp add: copy_to_bytes_def)
  moreover have "raw ! 12 \<in> {1, 2} \<Longrightarrow> \<exists>tag. get_u32 (drop 4 r) = Inr (tag, drop 4 (drop 4 r))"
    using h(2) by (intro get_enough) simp
  moreover have "slice 16 (16 + unat (ch_value_length h)) raw = Inr (take (unat (ch_value_length h)) (drop 16 raw))"
    using t(2) r by (simp add: slice_def)
  moreover have "slice 12 (length raw) raw = Inr (drop 12 raw)"
    using r(2) by (simp add: slice_def)
  ultimately show ?thesis
    using t(3) by (auto simp: partial_unmarshal_def c(1) h(1) t(1))
qed

section \<open>Properties\<close>

text \<open>
  C1. Packets survive the wire: whatever the checksum function, a packet whose chunks may stand
  in the given order is written to a multiple of four bytes, and both the one-stage decoder and,
  where there is a chunk, the two stages of the endpoint and the association read the same packet
  back.
\<close>

theorem packet_round_trip:
  assumes "chunks_wf (pk_chunks p)"
  shows "\<exists>bs. packet_marshal crc p = Inr bs \<and> 4 dvd length bs \<and> packet_unmarshal crc bs = Inr p \<and>
           (pk_chunks p \<noteq> [] \<longrightarrow> (\<exists>d. partial_unmarshal crc bs = Inr d \<and> partial_finish d = Inr p))"
proof -
  let ?h = "pk_common_header p" and ?b = "chunks_body (pk_chunks p)"
  let ?w = "put_u16 (cm_source_port ?h) @ put_u16 (cm_destination_port ?h) @ put_u32 (cm_verification_tag ?h)"
  let ?bs = "?w @ put_u32_le (crc (?w @ [0, 0, 0, 0] @ ?b)) @ ?b"
  have m: "packet_marshal crc p = Inr ?bs"
    using marshal_chunks_body [OF assms, of "[]"] by (simp add: packet_marshal_def Let_def)
  have "packet_chunks ?bs 12 = Inr (pk_chunks p)"
    by (rule packet_chunks_body [OF assms, where pre = "?w @ put_u32_le (crc (?w @ [0, 0, 0, 0] @ ?b))"]) simp_all
  then have u: "packet_unmarshal crc ?bs = Inr p"
    unfolding packet_unmarshal_def common_header_round_trip [OF refl] by simp
  have "4 dvd length ?bs"
    using chunks_body_aligned [OF assms] by simp
  moreover have "\<exists>d. partial_unmarshal crc ?bs = Inr d \<and> partial_finish d = Inr p" if "pk_chunks p \<noteq> []"
    using partial_unmarshal_total [OF u that] partial_finish_eq u by metis
  ultimately show ?thesis
    using m u by blast
qed

theorem packet_round_trip_witness:
  "\<exists>bs. packet_marshal (\<lambda>_. 7) \<lparr>pk_common_header = \<lparr>cm_source_port = 5000, cm_destination_port = 5000,
       cm_verification_tag = 1\<rparr>, pk_chunks = [ChunkCookieAck, ChunkShutdown 9]\<rparr> = Inr bs \<and>
     packet_unmarshal (\<lambda>_. 7) bs = Inr \<lparr>pk_common_header = \<lparr>cm_source_port = 5000, cm_destination_port = 5000,
       cm_verification_tag = 1\<rparr>, pk_chunks = [ChunkCookieAck, ChunkShutdown 9]\<rparr>"
  using packet_round_trip [of "\<lparr>pk_common_header = \<lparr>cm_source_port = 5000, cm_destination_port = 5000,
       cm_verification_tag = 1\<rparr>, pk_chunks = [ChunkCookieAck, ChunkShutdown 9]\<rparr>" "\<lambda>_. 7"]
  by (auto simp: tail_ok_def chunk_padding_def get_padding_size_def)



text \<open>
  C40. A packet that carries only the four header bytes of an INIT chunk, with a correct
  checksum, panics the first decoding stage, before any verification tag is looked at.
\<close>

theorem bare_init_panics:
  assumes "w = put_u16 sp @ put_u16 dp @ put_u32 tag"
  shows "partial_unmarshal crc (w @ put_u32_le (crc (w @ [0, 0, 0, 0] @ [1, 0, 0, 4])) @ [1, 0, 0, 4]) = Inl Panic"
  unfolding partial_unmarshal_def common_header_round_trip [OF assms]
  by (simp add: chunk_header_unmarshal_def be16_def copy_to_bytes_def)

theorem bare_init_panics_witness:
  "partial_unmarshal (\<lambda>_. 0) ((put_u16 5000 @ put_u16 5000 @ put_u32 0) @ put_u32_le 0 @ [1, 0, 0, 4]) = Inl Panic"
  using bare_init_panics [OF refl, of "\<lambda>_. 0" 5000 5000 0] by simp

end
