(* ===== verification/Sctp_Assoc.thy ===== *)
theory Sctp_Assoc
  imports Sctp_Stream Sctp_Packet "HOL-Library.AList"
begin

text \<open>
  \<^verbatim>\<open>rtc-sctp/src/association/mod.rs\<close>, first part: the state of an association, its constructor, the
  small operations, the stream registry, the handshake and the shutdown handlers. An operation
  that may fail returns its result beside the state it leaves behind, since the code changes the
  association in place before it fails. The clock readings, the random initial TSN and the random
  cookie are arguments.

  Left out of the record is \<^verbatim>\<open>protocol\<close>, which is only stored. The method \<^verbatim>\<open>awake_write_loop\<close>
  has an empty body and is left out.
\<close>

section \<open>State\<close>

datatype association_state =
    Closed | CookieWait | CookieEchoed | Established | ShutdownAckSent | ShutdownPending
  | ShutdownReceived | ShutdownSent

definition is_drained :: "association_state \<Rightarrow> bool" where
  "is_drained s \<longleftrightarrow>
     s = ShutdownSent \<or> s = ShutdownAckSent \<or> s = ShutdownPending \<or> s = ShutdownReceived"

datatype ack_mode = AM_Normal | AM_NoDelay | AM_AlwaysDelay

datatype ack_state = AS_Idle | AS_Immediate | AS_Delay

datatype association_error =
    HandshakeFailed error | TransportError | AssociationClosed | ApplicationClosed | Reset
  | TimedOut | LocallyClosed

datatype stream_event =
    Opened | Readable u16 | Writable u16 | Finished u16 | Stopped u16 u16 | Available
  | BufferedAmountLow u16

datatype event =
    Connected | AssociationLost association_error | StreamEv stream_event | DatagramReceived

datatype endpoint_event = Drained

record association_stats =
  st_n_datas :: u64
  st_n_sacks :: u64
  st_n_t3timeouts :: u64
  st_n_ack_timeouts :: u64
  st_n_fast_retrans :: u64

definition stats_default :: association_stats where
  "stats_default = \<lparr>st_n_datas = 0, st_n_sacks = 0, st_n_t3timeouts = 0, st_n_ack_timeouts = 0, st_n_fast_retrans = 0\<rparr>"

definition inc_datas :: "association_stats \<Rightarrow> association_stats" where
  "inc_datas s = s\<lparr>st_n_datas := st_n_datas s + 1\<rparr>"

definition inc_sacks :: "association_stats \<Rightarrow> association_stats" where
  "inc_sacks s = s\<lparr>st_n_sacks := st_n_sacks s + 1\<rparr>"

definition inc_t3timeouts :: "association_stats \<Rightarrow> association_stats" where
  "inc_t3timeouts s = s\<lparr>st_n_t3timeouts := st_n_t3timeouts s + 1\<rparr>"

definition inc_ack_timeouts :: "association_stats \<Rightarrow> association_stats" where
  "inc_ack_timeouts s = s\<lparr>st_n_ack_timeouts := st_n_ack_timeouts s + 1\<rparr>"

definition inc_fast_retrans :: "association_stats \<Rightarrow> association_stats" where
  "inc_fast_retrans s = s\<lparr>st_n_fast_retrans := st_n_fast_retrans s + 1\<rparr>"

abbreviation (input) "INITIAL_MTU \<equiv> (1228 :: u32)"
abbreviation (input) "INITIAL_RECV_BUF_SIZE \<equiv> (1024 * 1024 :: u32)"
abbreviation (input) "COMMON_HEADER_SIZE \<equiv> (12 :: u32)"
abbreviation (input) "DATA_CHUNK_HEADER_SIZE \<equiv> (16 :: u32)"
abbreviation (input) "DEFAULT_MAX_MESSAGE_SIZE \<equiv> (262144 :: u32)"

record transport_config =
  tr_sctp_port :: u16
  tr_max_receive_buffer_size :: u32
  tr_max_message_size :: u32
  tr_max_num_outbound_streams :: u16
  tr_max_num_inbound_streams :: u16
  tr_timer_config :: timer_config

definition transport_config_default :: transport_config where
  "transport_config_default =
     \<lparr>tr_sctp_port = 5000, tr_max_receive_buffer_size = INITIAL_RECV_BUF_SIZE,
      tr_max_message_size = DEFAULT_MAX_MESSAGE_SIZE, tr_max_num_outbound_streams = - 1,
      tr_max_num_inbound_streams = - 1, tr_timer_config = timer_config_default\<rparr>"

text \<open>
  The hash maps that the code iterates over are association lists; the order of the list is the
  order of iteration. A socket address is an opaque number, which the code only stores.
\<close>

type_synonym socket_addr = nat

type_synonym reset_request = "u32 \<times> u32 \<times> u32 \<times> u16 list"

record association =
  a_side :: side
  a_state :: association_state
  a_handshake_completed :: bool
  a_max_message_size :: u32
  a_inflight_queue_length :: nat
  a_will_send_shutdown :: bool
  a_bytes_received :: nat
  a_bytes_sent :: nat
  a_peer_verification_tag :: u32
  a_my_verification_tag :: u32
  a_my_next_tsn :: u32
  a_peer_last_tsn :: u32
  a_min_tsn2measure_rtt :: u32
  a_will_send_forward_tsn :: bool
  a_will_retransmit_fast :: bool
  a_will_retransmit_reconfig :: bool
  a_will_send_shutdown_ack :: bool
  a_will_send_shutdown_complete :: bool
  a_my_next_rsn :: u32
  a_reconfigs :: "(u32 \<times> chunk_reconfig) list"
  a_reconfig_requests :: "(u32 \<times> reset_request) list"
  a_remote_addr :: socket_addr
  a_local_addr :: socket_addr
  a_source_port :: u16
  a_destination_port :: u16
  a_my_max_num_inbound_streams :: u16
  a_my_max_num_outbound_streams :: u16
  a_my_cookie :: "bytes option"
  a_payload_queue :: payload_queue
  a_inflight_queue :: payload_queue
  a_pending_queue :: pending_queue
  a_control_queue :: "packet list"
  a_stream_queue :: "u16 list"
  a_mtu :: u32
  a_max_payload_size :: u32
  a_cumulative_tsn_ack_point :: u32
  a_advanced_peer_tsn_ack_point :: u32
  a_use_forward_tsn :: bool
  a_rto_mgr :: rto_manager
  a_timers :: timer_table
  a_max_receive_buffer_size :: u32
  a_cwnd :: u32
  a_rwnd :: u32
  a_ssthresh :: u32
  a_partial_bytes_acked :: u32
  a_in_fast_recovery :: bool
  a_fast_recover_exit_point :: u32
  a_stored_init :: "chunk_init option"
  a_stored_cookie_echo :: "bytes option"
  a_streams :: "(u16 \<times> stream_state) list"
  a_events :: "event list"
  a_endpoint_events :: "endpoint_event list"
  a_error :: "association_error option"
  a_delayed_ack_triggered :: bool
  a_immediate_ack_triggered :: bool
  a_stats :: association_stats
  a_ack_state :: ack_state
  a_ack_mode :: ack_mode

definition association_default :: association where
  "association_default =
     \<lparr>a_side = Client, a_state = Closed, a_handshake_completed = False, a_max_message_size = 0,
      a_inflight_queue_length = 0, a_will_send_shutdown = False, a_bytes_received = 0,
      a_bytes_sent = 0, a_peer_verification_tag = 0, a_my_verification_tag = 0, a_my_next_tsn = 0,
      a_peer_last_tsn = 0, a_min_tsn2measure_rtt = 0, a_will_send_forward_tsn = False,
      a_will_retransmit_fast = False, a_will_retransmit_reconfig = False,
      a_will_send_shutdown_ack = False, a_will_send_shutdown_complete = False, a_my_next_rsn = 0,
      a_reconfigs = [], a_reconfig_requests = [], a_remote_addr = 0, a_local_addr = 0,
      a_source_port = 0, a_destination_port = 0, a_my_max_num_inbound_streams = 0,
      a_my_max_num_outbound_streams = 0, a_my_cookie = None, a_payload_queue = pq_new,
      a_inflight_queue = pq_new, a_pending_queue = pn_new, a_control_queue = [],
      a_stream_queue = [], a_mtu = 0, a_max_payload_size = 0, a_cumulative_tsn_ack_point = 0,
      a_advanced_peer_tsn_ack_point = 0, a_use_forward_tsn = False, a_rto_mgr = rm_default,
      a_timers = tt_default, a_max_receive_buffer_size = 0, a_cwnd = 0, a_rwnd = 0, a_ssthresh = 0,
      a_partial_bytes_acked = 0, a_in_fast_recovery = False, a_fast_recover_exit_point = 0,
      a_stored_init = None, a_stored_cookie_echo = None, a_streams = [], a_events = [],
      a_endpoint_events = [], a_error = None, a_delayed_ack_triggered = False,
      a_immediate_ack_triggered = False, a_stats = stats_default, a_ack_state = AS_Idle,
      a_ack_mode = AM_Normal\<rparr>"

section \<open>Small operations\<close>

definition set_state :: "association \<Rightarrow> association_state \<Rightarrow> association" where
  "set_state a new_state = a\<lparr>a_state := new_state\<rparr>"

definition create_packet :: "association \<Rightarrow> chunk list \<Rightarrow> packet" where
  "create_packet a chunks =
     \<lparr>pk_common_header = \<lparr>cm_source_port = a_source_port a, cm_destination_port = a_destination_port a,
                          cm_verification_tag = a_peer_verification_tag a\<rparr>,
      pk_chunks = chunks\<rparr>"

definition send_init :: "association \<Rightarrow> unit result \<times> association" where
  "send_init a =
     (case a_stored_init a of
        Some stored_init \<Rightarrow>
          let a = a\<lparr>a_source_port := 5000, a_destination_port := 5000\<rparr>;
              outbound = create_packet a [ChunkInit stored_init]
          in (Inr (), a\<lparr>a_control_queue := a_control_queue a @ [outbound]\<rparr>)
      | None \<Rightarrow> (Inl (Err ''ErrInitNotStoredToSend''), a))"

definition send_cookie_echo :: "association \<Rightarrow> unit result \<times> association" where
  "send_cookie_echo a =
     (case a_stored_cookie_echo a of
        Some cookie \<Rightarrow>
          let outbound = create_packet a [ChunkCookieEcho cookie]
          in (Inr (), a\<lparr>a_control_queue := a_control_queue a @ [outbound]\<rparr>)
      | None \<Rightarrow> (Inl (Err ''ErrCookieEchoNotStoredToSend''), a))"

definition chunk_init_default :: chunk_init where
  "chunk_init_default =
     \<lparr>ci_is_ack = False, ci_initiate_tag = 0, ci_advertised_receiver_window_credit = 0,
      ci_num_outbound_streams = 0, ci_num_inbound_streams = 0, ci_initial_tsn = 0, ci_params = []\<rparr>"

text \<open>
  The constructor. The random number is the parameter \<open>random_tsn\<close>; \<^verbatim>\<open>u32::clamp\<close> panics when its lower bound
  exceeds its upper one.
\<close>

definition clamp_u32 :: "u32 \<Rightarrow> u32 \<Rightarrow> u32 \<Rightarrow> u32 result" where
  "clamp_u32 x lo hi =
     (if lo \<le> hi then Inr (if x < lo then lo else if x > hi then hi else x) else Inl Panic)"

definition association_new ::
    "bool \<Rightarrow> transport_config \<Rightarrow> u32 \<Rightarrow> u32 \<Rightarrow> socket_addr \<Rightarrow> socket_addr \<Rightarrow> nat \<Rightarrow> u32 \<Rightarrow> association result" where
  "association_new is_server config max_payload_size local_aid remote_addr local_addr now random_tsn =
     (let side = (if is_server then Server else Client);
          mtu = max_payload_size + COMMON_HEADER_SIZE + DATA_CHUNK_HEADER_SIZE in
      rbind (clamp_u32 (2 * mtu) 4380 (4 * mtu)) (\<lambda>cwnd.
      let tsn = (if random_tsn = 0 then random_tsn + 1 else random_tsn);
          this = association_default\<lparr>
            a_side := side,
            a_handshake_completed := False,
            a_max_receive_buffer_size := tr_max_receive_buffer_size config,
            a_max_message_size := tr_max_message_size config,
            a_my_max_num_outbound_streams := tr_max_num_outbound_streams config,
            a_my_max_num_inbound_streams := tr_max_num_inbound_streams config,
            a_max_payload_size := max_payload_size,
            a_rto_mgr := rm_new,
            a_timers := tt_new (tr_timer_config config),
            a_mtu := mtu,
            a_cwnd := cwnd,
            a_remote_addr := remote_addr,
            a_local_addr := local_addr,
            a_my_verification_tag := local_aid,
            a_my_next_tsn := tsn,
            a_my_next_rsn := tsn,
            a_min_tsn2measure_rtt := tsn,
            a_cumulative_tsn_ack_point := tsn - 1,
            a_advanced_peer_tsn_ack_point := tsn - 1,
            a_error := None\<rparr>
      in if side = Client then
           let init = set_supported_extensions (chunk_init_default\<lparr>
                 ci_initial_tsn := a_my_next_tsn this,
                 ci_num_outbound_streams := a_my_max_num_outbound_streams this,
                 ci_num_inbound_streams := a_my_max_num_inbound_streams this,
                 ci_initiate_tag := a_my_verification_tag this,
                 ci_advertised_receiver_window_credit := a_max_receive_buffer_size this\<rparr>);
               this = set_state this CookieWait;
               this = this\<lparr>a_stored_init := Some init\<rparr>;
               this = snd (send_init this)
           in Inr (this\<lparr>a_timers := tt_start (a_timers this) T1Init now (rm_get_rto (a_rto_mgr this))\<rparr>)
         else Inr this))"

definition unregister_stream :: "association \<Rightarrow> u16 \<Rightarrow> association" where
  "unregister_stream a stream_identifier = a\<lparr>a_streams := AList.delete stream_identifier (a_streams a)\<rparr>"

definition close_all_timers :: "association \<Rightarrow> association" where
  "close_all_timers a = a\<lparr>a_timers := foldl tt_stop (a_timers a) timer_values\<rparr>"

definition close :: "association \<Rightarrow> association" where
  "close a =
     (if a_state a \<noteq> Closed then
        let a = set_state a Closed;
            a = close_all_timers a
        in foldl unregister_stream a (map fst (a_streams a))
      else a)"

definition shutdown :: "association \<Rightarrow> unit result \<times> association" where
  "shutdown a =
     (if a_state a \<noteq> Established then (Inl (Err ''ErrShutdownNonEstablished''), a)
      else
        let a = set_state a ShutdownPending;
            a = (if a_inflight_queue_length a = 0 then
                   let a = a\<lparr>a_will_send_shutdown := True\<rparr> in set_state a ShutdownSent
                 else a)
        in (Inr (), a\<lparr>a_endpoint_events := a_endpoint_events a @ [Drained]\<rparr>))"

definition poll :: "association \<Rightarrow> event option \<times> association" where
  "poll a =
     (case a_events a of
        x # xs \<Rightarrow> (Some x, a\<lparr>a_events := xs\<rparr>)
      | [] \<Rightarrow>
          (case a_error a of
             Some err \<Rightarrow> (Some (AssociationLost err), a\<lparr>a_error := None\<rparr>)
           | None \<Rightarrow> (None, a)))"

definition poll_endpoint_event :: "association \<Rightarrow> endpoint_event option \<times> association" where
  "poll_endpoint_event a =
     (case a_endpoint_events a of
        x # xs \<Rightarrow> (Some x, a\<lparr>a_endpoint_events := xs\<rparr>)
      | [] \<Rightarrow> (None, a))"

definition poll_timeout :: "association \<Rightarrow> nat option" where
  "poll_timeout a = tt_next_timeout (a_timers a)"

definition is_handshaking :: "association \<Rightarrow> bool" where
  "is_handshaking a \<longleftrightarrow> \<not> a_handshake_completed a"

definition is_closed :: "association \<Rightarrow> bool" where
  "is_closed a \<longleftrightarrow> a_state a = Closed"

definition rtt :: "association \<Rightarrow> nat" where
  "rtt a = from_millis (rm_get_rto (a_rto_mgr a))"

section \<open>Streams of the association\<close>

definition create_stream :: "association \<Rightarrow> u16 \<Rightarrow> bool \<Rightarrow> payload_protocol_identifier \<Rightarrow> association" where
  "create_stream a stream_identifier accept default_payload_type =
     (let s = ss_new (a_side a) stream_identifier (a_max_payload_size a) default_payload_type;
          a = (if accept then
                 a\<lparr>a_stream_queue := a_stream_queue a @ [stream_identifier],
                   a_events := a_events a @ [StreamEv Opened]\<rparr>
               else a)
      in a\<lparr>a_streams := AList.update stream_identifier s (a_streams a)\<rparr>)"

definition get_or_create_stream :: "association \<Rightarrow> u16 \<Rightarrow> association" where
  "get_or_create_stream a stream_identifier =
     (if map_of (a_streams a) stream_identifier \<noteq> None then a
      else create_stream a stream_identifier True PPI_Unknown)"

definition open_stream :: "association \<Rightarrow> u16 \<Rightarrow> payload_protocol_identifier \<Rightarrow> unit result \<times> association" where
  "open_stream a stream_identifier default_payload_type =
     (if map_of (a_streams a) stream_identifier \<noteq> None then (Inl (Err ''ErrStreamAlreadyExist''), a)
      else (Inr (), create_stream a stream_identifier False default_payload_type))"

definition accept_stream :: "association \<Rightarrow> u16 option \<times> association" where
  "accept_stream a =
     (case a_stream_queue a of
        [] \<Rightarrow> (None, a)
      | stream_identifier # q \<Rightarrow> (Some stream_identifier, a\<lparr>a_stream_queue := q\<rparr>))"

definition stream :: "association \<Rightarrow> u16 \<Rightarrow> u16 result" where
  "stream a stream_identifier =
     (if map_of (a_streams a) stream_identifier = None then Inl (Err ''ErrStreamNotExisted'')
      else Inr stream_identifier)"

definition get_my_receiver_window_credit :: "association \<Rightarrow> u32" where
  "get_my_receiver_window_credit a =
     (let bytes_queued =
        foldl (\<lambda>n (_, s). n + of_nat (ss_get_num_bytes_in_reassembly_queue s)) 0 (a_streams a)
      in if bytes_queued \<ge> a_max_receive_buffer_size a then 0
         else a_max_receive_buffer_size a - bytes_queued)"

definition generate_next_tsn :: "association \<Rightarrow> u32 \<times> association" where
  "generate_next_tsn a = (a_my_next_tsn a, a\<lparr>a_my_next_tsn := a_my_next_tsn a + 1\<rparr>)"

definition generate_next_rsn :: "association \<Rightarrow> u32 \<times> association" where
  "generate_next_rsn a = (a_my_next_rsn a, a\<lparr>a_my_next_rsn := a_my_next_rsn a + 1\<rparr>)"

section \<open>The handshake\<close>

text \<open>Whether a parameter lists FORWARD TSN among the supported extensions.\<close>

definition supports_forward_tsn :: "param \<Rightarrow> bool" where
  "supports_forward_tsn p \<longleftrightarrow>
     (case p of ParamSupportedExtensions chunk_types \<Rightarrow> CT_FORWARD_TSN \<in> set chunk_types | _ \<Rightarrow> False)"

definition handle_init :: "bytes \<Rightarrow> association \<Rightarrow> packet \<Rightarrow> chunk_init \<Rightarrow> packet list result \<times> association" where
  "handle_init new_cookie a p i =
     (let state = a_state a in
      if state \<noteq> Closed \<and> state \<noteq> CookieWait \<and> state \<noteq> CookieEchoed
      then (Inl (Err ''ErrHandleInitState''), a)
      else
        let a = a\<lparr>
              a_my_max_num_inbound_streams := min (ci_num_inbound_streams i) (a_my_max_num_inbound_streams a),
              a_my_max_num_outbound_streams := min (ci_num_outbound_streams i) (a_my_max_num_outbound_streams a),
              a_peer_verification_tag := ci_initiate_tag i,
              a_source_port := cm_destination_port (pk_common_header p),
              a_destination_port := cm_source_port (pk_common_header p),
              a_peer_last_tsn := (if ci_initial_tsn i = 0 then - 1 else ci_initial_tsn i - 1)\<rparr>;
            a = a\<lparr>a_use_forward_tsn := a_use_forward_tsn a \<or> list_ex supports_forward_tsn (ci_params i)\<rparr>;
            init_ack = chunk_init_default\<lparr>
              ci_is_ack := True,
              ci_initial_tsn := a_my_next_tsn a,
              ci_num_outbound_streams := a_my_max_num_outbound_streams a,
              ci_num_inbound_streams := a_my_max_num_inbound_streams a,
              ci_initiate_tag := a_my_verification_tag a,
              ci_advertised_receiver_window_credit := a_max_receive_buffer_size a\<rparr>;
            a = (if a_my_cookie a = None then a\<lparr>a_my_cookie := Some new_cookie\<rparr> else a);
            init_ack = (case a_my_cookie a of
                Some my_cookie \<Rightarrow> init_ack\<lparr>ci_params := [ParamStateCookie my_cookie]\<rparr>
              | None \<Rightarrow> init_ack);
            init_ack = set_supported_extensions init_ack
        in (Inr [create_packet a [ChunkInit init_ack]], a))"

text \<open>The last cookie of the parameters of an INIT ACK.\<close>

definition cookie_param :: "param list \<Rightarrow> bytes option" where
  "cookie_param ps = foldl (\<lambda>c p. case p of ParamStateCookie v \<Rightarrow> Some v | _ \<Rightarrow> c) None ps"

definition handle_init_ack :: "association \<Rightarrow> packet \<Rightarrow> chunk_init \<Rightarrow> nat \<Rightarrow> packet list result \<times> association" where
  "handle_init_ack a p i now =
     (if a_state a \<noteq> CookieWait then (Inr [], a)
      else
        let a = a\<lparr>
              a_my_max_num_inbound_streams := min (ci_num_inbound_streams i) (a_my_max_num_inbound_streams a),
              a_my_max_num_outbound_streams := min (ci_num_outbound_streams i) (a_my_max_num_outbound_streams a),
              a_peer_verification_tag := ci_initiate_tag i,
              a_peer_last_tsn := (if ci_initial_tsn i = 0 then - 1 else ci_initial_tsn i - 1)\<rparr>
        in if a_source_port a \<noteq> cm_destination_port (pk_common_header p) \<or>
              a_destination_port a \<noteq> cm_source_port (pk_common_header p)
           then (Inr [], a)
           else
             let a = a\<lparr>a_rwnd := ci_advertised_receiver_window_credit i\<rparr>;
                 a = a\<lparr>a_ssthresh := a_rwnd a\<rparr>;
                 a = a\<lparr>a_timers := tt_stop (a_timers a) T1Init, a_stored_init := None\<rparr>;
                 a = a\<lparr>a_use_forward_tsn := a_use_forward_tsn a \<or> list_ex supports_forward_tsn (ci_params i)\<rparr>
             in case cookie_param (ci_params i) of
                  Some v \<Rightarrow>
                    let a = a\<lparr>a_stored_cookie_echo := Some v\<rparr> in
                    (case send_cookie_echo a of
                       (Inl e, a) \<Rightarrow> (Inl e, a)
                     | (Inr _, a) \<Rightarrow>
                         let a = a\<lparr>a_timers := tt_start (a_timers a) T1Cookie now (rm_get_rto (a_rto_mgr a))\<rparr>;
                             a = set_state a CookieEchoed
                         in (Inr [], a))
                | None \<Rightarrow> (Inl (Err ''ErrInitAckNoCookie''), a))"

definition handle_heartbeat :: "association \<Rightarrow> param list \<Rightarrow> packet list result" where
  "handle_heartbeat a params =
     (case params of
        ParamHeartbeatInfo heartbeat_information # _ \<Rightarrow>
          Inr [create_packet a [ChunkHeartbeatAck [ParamHeartbeatInfo heartbeat_information]]]
      | _ \<Rightarrow> Inr [])"

definition handle_cookie_echo :: "association \<Rightarrow> bytes \<Rightarrow> packet list result \<times> association" where
  "handle_cookie_echo a cookie =
     (case a_my_cookie a of
        None \<Rightarrow> (Inr [], a)
      | Some my_cookie \<Rightarrow>
          if a_state a = Established then
            if my_cookie \<noteq> cookie then (Inr [], a) else (Inr [create_packet a [ChunkCookieAck]], a)
          else if a_state a = Closed \<or> a_state a = CookieWait \<or> a_state a = CookieEchoed then
            if my_cookie \<noteq> cookie then (Inr [], a)
            else
              let a = a\<lparr>a_timers := tt_stop (a_timers a) T1Init, a_stored_init := None\<rparr>;
                  a = a\<lparr>a_timers := tt_stop (a_timers a) T1Cookie, a_stored_cookie_echo := None\<rparr>;
                  a = a\<lparr>a_events := a_events a @ [Connected]\<rparr>;
                  a = set_state a Established;
                  a = a\<lparr>a_handshake_completed := True\<rparr>
              in (Inr [create_packet a [ChunkCookieAck]], a)
          else (Inr [], a))"

definition handle_cookie_ack :: "association \<Rightarrow> packet list result \<times> association" where
  "handle_cookie_ack a =
     (if a_state a \<noteq> CookieEchoed then (Inr [], a)
      else
        let a = a\<lparr>a_timers := tt_stop (a_timers a) T1Cookie, a_stored_cookie_echo := None\<rparr>;
            a = a\<lparr>a_events := a_events a @ [Connected]\<rparr>;
            a = set_state a Established;
            a = a\<lparr>a_handshake_completed := True\<rparr>
        in (Inr [], a))"

section \<open>Shutdown\<close>

definition handle_shutdown :: "association \<Rightarrow> packet list result \<times> association" where
  "handle_shutdown a =
     (if a_state a = Established then
        if \<not> pq_is_empty (a_inflight_queue a) then (Inr [], set_state a ShutdownReceived)
        else (Inr [], set_state (a\<lparr>a_will_send_shutdown_ack := True\<rparr>) ShutdownAckSent)
      else if a_state a = ShutdownSent then
        (Inr [], set_state (a\<lparr>a_will_send_shutdown_ack := True\<rparr>) ShutdownAckSent)
      else (Inr [], a))"

definition handle_shutdown_ack :: "association \<Rightarrow> packet list result \<times> association" where
  "handle_shutdown_ack a =
     (if a_state a = ShutdownSent \<or> a_state a = ShutdownAckSent then
        (Inr [], a\<lparr>a_timers := tt_stop (a_timers a) T2Shutdown, a_will_send_shutdown_complete := True\<rparr>)
      else (Inr [], a))"

definition handle_shutdown_complete :: "association \<Rightarrow> packet list result \<times> association" where
  "handle_shutdown_complete a =
     (if a_state a = ShutdownAckSent then
        let a = a\<lparr>a_timers := tt_stop (a_timers a) T2Shutdown\<rparr>; a = close a in (Inr [], a)
      else (Inr [], a))"

end
