(* ===== verification/Sctp_Assoc_Recv.thy ===== *)
theory Sctp_Assoc_Recv
  imports Sctp_Assoc
begin

text \<open>
  \<^verbatim>\<open>rtc-sctp/src/association/mod.rs\<close>, the receiving half: DATA, FORWARD TSN and RECONFIG chunks, the
  advance of the cumulative TSN, and the read operation of \<^verbatim>\<open>stream.rs\<close>. The relation \<open>delivery\<close>
  runs a receiver on the chunks of a peer; \<open>queue_ok\<close> is its invariant.
\<close>

section \<open>Stream reset\<close>

definition reset_stream_step :: "bool \<Rightarrow> u16 list \<times> association \<Rightarrow> u16 \<Rightarrow> u16 list \<times> association" where
  "reset_stream_step respond = (\<lambda>(sis_to_reset, a) id.
     if map_of (a_streams a) id \<noteq> None
     then (if respond then sis_to_reset @ [id] else sis_to_reset, unregister_stream a id)
     else (sis_to_reset, a))"

text \<open>The packets that \<^verbatim>\<open>reset_streams_if_any\<close> appends to the reply are its result.\<close>

definition reset_streams_if_any :: "association \<Rightarrow> reset_request \<Rightarrow> bool \<Rightarrow> packet list \<times> association" where
  "reset_streams_if_any a p respond =
     (let (request_sn, response_sn, sender_last_tsn, stream_identifiers) = p;
          (result, sis_to_reset, a) =
            (if sna32lte sender_last_tsn (a_peer_last_tsn a) then
               let (sis_to_reset, a) = foldl (reset_stream_step respond) ([], a) stream_identifiers
               in (SuccessPerformed, sis_to_reset,
                   a\<lparr>a_reconfig_requests := AList.delete request_sn (a_reconfig_requests a)\<rparr>)
             else (InProgress, [], a));
          (reply, a) =
            (if sis_to_reset \<noteq> [] then
               let (rsn, a) = generate_next_rsn a;
                   tsn = a_my_next_tsn a - 1;
                   c = \<lparr>rc_param_a = Some (ParamOutgoingResetRequest rsn request_sn tsn sis_to_reset),
                        rc_param_b = None\<rparr>;
                   a = a\<lparr>a_reconfigs := AList.update rsn c (a_reconfigs a)\<rparr>
               in ([create_packet a [ChunkReconfig c]], a)
             else ([], a));
          packet = create_packet a
            [ChunkReconfig \<lparr>rc_param_a = Some (ParamReconfigResponse request_sn result), rc_param_b = None\<rparr>]
      in (reply @ [packet], a))"

lemma reset_stream_steps_frame:
  "a_payload_queue (snd (foldl (reset_stream_step respond) (sis, a) ids)) = a_payload_queue a \<and>
   a_peer_last_tsn (snd (foldl (reset_stream_step respond) (sis, a) ids)) = a_peer_last_tsn a"
  by (induction ids arbitrary: sis a) (simp_all add: reset_stream_step_def unregister_stream_def)

lemma reset_streams_if_any_frame [simp]:
  "a_payload_queue (snd (reset_streams_if_any a p respond)) = a_payload_queue a"
  "a_peer_last_tsn (snd (reset_streams_if_any a p respond)) = a_peer_last_tsn a"
proof -
  obtain rq rs t ids where p: "p = (rq, rs, t, ids)" by (cases p)
  obtain sis b where f: "foldl (reset_stream_step respond) ([], a) ids = (sis, b)" by fastforce
  have b: "a_payload_queue b = a_payload_queue a" "a_peer_last_tsn b = a_peer_last_tsn a"
    using reset_stream_steps_frame [of respond "[]" a ids] f by simp_all
  show "a_payload_queue (snd (reset_streams_if_any a p respond)) = a_payload_queue a"
    by (simp add: reset_streams_if_any_def generate_next_rsn_def p f b Let_def)
  show "a_peer_last_tsn (snd (reset_streams_if_any a p respond)) = a_peer_last_tsn a"
    by (simp add: reset_streams_if_any_def generate_next_rsn_def p f b Let_def)
qed

definition reset_step :: "packet list \<times> association \<Rightarrow> reset_request \<Rightarrow> packet list \<times> association" where
  "reset_step = (\<lambda>(reply, a) rst_req.
     let (pp, a) = reset_streams_if_any a rst_req False in (reply @ pp, a))"

lemma reset_steps_frame:
  "a_payload_queue (snd (foldl reset_step (reply, a) reqs)) = a_payload_queue a \<and>
   a_peer_last_tsn (snd (foldl reset_step (reply, a) reqs)) = a_peer_last_tsn a"
  by (induction reqs arbitrary: reply a) (simp_all add: reset_step_def case_prod_beta Let_def)

section \<open>Advancing the cumulative TSN\<close>

text \<open>The loop pops the chunk after the last one received in sequence as long as there is one.\<close>

function advance_peer_last_tsn :: "packet list \<Rightarrow> association \<Rightarrow> packet list \<times> association" where
  "advance_peer_last_tsn reply a =
     (case pq_pop (a_payload_queue a) (a_peer_last_tsn a + 1) of
        (None, q) \<Rightarrow> (reply, a\<lparr>a_payload_queue := q\<rparr>)
      | (Some _, q) \<Rightarrow>
          let a = a\<lparr>a_payload_queue := q, a_peer_last_tsn := a_peer_last_tsn a + 1\<rparr>;
              rst_reqs = map snd (a_reconfig_requests a);
              r = foldl reset_step (reply, a) rst_reqs
          in advance_peer_last_tsn (fst r) (snd r))"
  by pat_completeness auto
termination
  by (relation "measure (\<lambda>(reply, a). length (pq_sorted (a_payload_queue a)))")
    (auto simp: reset_steps_frame case_prod_beta intro: pq_pop_shorter [OF sym])

declare advance_peer_last_tsn.simps [simp del]

definition handle_peer_last_tsn_and_acknowledgement :: "association \<Rightarrow> bool \<Rightarrow> packet list result \<times> association" where
  "handle_peer_last_tsn_and_acknowledgement a sack_immediately =
     (let (reply, a) = advance_peer_last_tsn [] a;
          has_packet_loss = (\<not> pq_is_empty (a_payload_queue a));
          a = (if (a_ack_state a \<noteq> AS_Immediate \<and> \<not> sack_immediately \<and> \<not> has_packet_loss \<and>
                   a_ack_mode a = AM_Normal) \<or> a_ack_mode a = AM_AlwaysDelay then
                 if a_ack_state a = AS_Idle then a\<lparr>a_delayed_ack_triggered := True\<rparr>
                 else a\<lparr>a_immediate_ack_triggered := True\<rparr>
               else a\<lparr>a_immediate_ack_triggered := True\<rparr>)
      in (Inr reply, a))"

section \<open>DATA\<close>

text \<open>The argument \<open>clock\<close> is the time the reassembly queue stamps on a new set of fragments.\<close>

definition stream_handle_data :: "nat \<Rightarrow> association \<Rightarrow> chunk_payload_data \<Rightarrow> association" where
  "stream_handle_data clock a d =
     (case map_of (a_streams a) (pd_stream_identifier d) of
        Some s \<Rightarrow>
          let a = a\<lparr>a_events := a_events a @ [DatagramReceived]\<rparr>;
              (ok, s) = ss_handle_data clock s d;
              a = a\<lparr>a_streams := AList.update (pd_stream_identifier d) s (a_streams a)\<rparr>
          in if ok \<and> rq_is_readable (ss_reassembly_queue s)
             then a\<lparr>a_events := a_events a @ [StreamEv (Readable (ss_stream_identifier s))]\<rparr> else a
      | None \<Rightarrow> a)"

definition handle_data :: "nat \<Rightarrow> association \<Rightarrow> chunk_payload_data \<Rightarrow> packet list result \<times> association" where
  "handle_data clock a d =
     (let a = a\<lparr>a_stats := inc_datas (a_stats a)\<rparr>;
          can_push = pq_can_push (a_payload_queue a) d (a_peer_last_tsn a);
          (stream_handle, a) =
            (if can_push then
               let a = get_or_create_stream a (pd_stream_identifier d) in
               if get_my_receiver_window_credit a > 0 then
                 (True, a\<lparr>a_payload_queue := snd (pq_push (a_payload_queue a) d (a_peer_last_tsn a))\<rparr>)
               else
                 (case pq_get_last_tsn_received (a_payload_queue a) of
                    Some last_tsn \<Rightarrow>
                      if sna32lt (pd_tsn d) last_tsn
                      then (True, a\<lparr>a_payload_queue := snd (pq_push (a_payload_queue a) d (a_peer_last_tsn a))\<rparr>)
                      else (False, a)
                  | None \<Rightarrow> (False, a))
             else (False, a));
          a = (if stream_handle then stream_handle_data clock a d else a)
      in handle_peer_last_tsn_and_acknowledgement a (pd_immediate_sack d))"

section \<open>FORWARD TSN\<close>

function forward_peer_last_tsn :: "u32 \<Rightarrow> association \<Rightarrow> association" where
  "forward_peer_last_tsn new_cumulative_tsn a =
     (if sna32lt (a_peer_last_tsn a) new_cumulative_tsn then
        forward_peer_last_tsn new_cumulative_tsn
          (a\<lparr>a_payload_queue := snd (pq_pop (a_payload_queue a) (a_peer_last_tsn a + 1)),
             a_peer_last_tsn := a_peer_last_tsn a + 1\<rparr>)
      else a)"
  by pat_completeness auto
termination
proof (relation "measure (\<lambda>(t, a). unat (t - a_peer_last_tsn a))", goal_cases)
  case (2 t a)
  then have "t - a_peer_last_tsn a \<noteq> 0" by (auto simp: tsn.lt_dist)
  then have "unat (t - a_peer_last_tsn a - 1) < unat (t - a_peer_last_tsn a)"
    by (metis diff_less less_one unat_gt_0 unat_minus_one)
  then show ?case by (simp add: diff_diff_eq)
qed simp

declare forward_peer_last_tsn.simps [simp del]

definition readable_event :: "association \<Rightarrow> stream_state \<Rightarrow> association" where
  "readable_event a s =
     (if rq_is_readable (ss_reassembly_queue s)
      then a\<lparr>a_events := a_events a @ [StreamEv (Readable (ss_stream_identifier s))]\<rparr> else a)"

definition forward_ordered_step :: "association \<Rightarrow> forward_tsn_stream \<Rightarrow> association" where
  "forward_ordered_step a forwarded =
     (case map_of (a_streams a) (fts_identifier forwarded) of
        Some s \<Rightarrow>
          let s = ss_handle_forward_tsn_for_ordered s (fts_sequence forwarded)
          in readable_event (a\<lparr>a_streams := AList.update (fts_identifier forwarded) s (a_streams a)\<rparr>) s
      | None \<Rightarrow> a)"

definition forward_unordered_step :: "u32 \<Rightarrow> association \<Rightarrow> u16 \<times> stream_state \<Rightarrow> association" where
  "forward_unordered_step new_cumulative_tsn a = (\<lambda>(si, s).
     let s = ss_handle_forward_tsn_for_unordered s new_cumulative_tsn
     in readable_event (a\<lparr>a_streams := AList.update si s (a_streams a)\<rparr>) s)"

definition handle_forward_tsn :: "association \<Rightarrow> chunk_forward_tsn \<Rightarrow> packet list result \<times> association" where
  "handle_forward_tsn a c =
     (if \<not> a_use_forward_tsn a then
        (Inr [create_packet a [ChunkError [\<lparr>ec_code = 0, ec_raw = []\<rparr>]]], a)
      else if sna32lte (ft_new_cumulative_tsn c) (a_peer_last_tsn a) then
        (Inr [], a\<lparr>a_ack_state := AS_Immediate, a_timers := tt_stop (a_timers a) Ack\<rparr>)
      else
        let a = forward_peer_last_tsn (ft_new_cumulative_tsn c) a;
            a = foldl forward_ordered_step a (ft_streams c);
            a = foldl (forward_unordered_step (ft_new_cumulative_tsn c)) a (a_streams a)
        in handle_peer_last_tsn_and_acknowledgement a False)"

section \<open>RECONFIG\<close>

definition handle_reconfig_param :: "association \<Rightarrow> param \<Rightarrow> packet list \<Rightarrow> packet list result \<times> association" where
  "handle_reconfig_param a raw reply =
     (case raw of
        ParamOutgoingResetRequest request_sn response_sn sender_last_tsn stream_identifiers \<Rightarrow>
          let p = (request_sn, response_sn, sender_last_tsn, stream_identifiers);
              a = a\<lparr>a_reconfig_requests := AList.update request_sn p (a_reconfig_requests a)\<rparr>;
              (pp, a) = reset_streams_if_any a p True
          in (Inr (reply @ pp), a)
      | ParamReconfigResponse response_sn result \<Rightarrow>
          let a = a\<lparr>a_reconfigs := AList.delete response_sn (a_reconfigs a)\<rparr>;
              a = (if a_reconfigs a = [] then a\<lparr>a_timers := tt_stop (a_timers a) Reconfig\<rparr> else a)
          in (Inr reply, a)
      | _ \<Rightarrow> (Inl (Err ''ErrParameterType''), a))"

definition handle_reconfig :: "association \<Rightarrow> chunk_reconfig \<Rightarrow> packet list result \<times> association" where
  "handle_reconfig a c =
     (case (case rc_param_a c of Some param_a \<Rightarrow> handle_reconfig_param a param_a [] | None \<Rightarrow> (Inr [], a)) of
        (Inl e, a) \<Rightarrow> (Inl e, a)
      | (Inr pp, a) \<Rightarrow>
          (case rc_param_b c of Some param_b \<Rightarrow> handle_reconfig_param a param_b pp | None \<Rightarrow> (Inr pp, a)))"

section \<open>Reading a stream\<close>

definition read_sctp :: "association \<Rightarrow> u16 \<Rightarrow> chunks option result \<times> association" where
  "read_sctp a stream_identifier =
     (case map_of (a_streams a) stream_identifier of
        Some s \<Rightarrow>
          if ss_state s = RS_ReadWritable \<or> ss_state s = RS_Readable then
            let (r, q) = rq_read (ss_reassembly_queue s)
            in (Inr r, a\<lparr>a_streams := AList.update stream_identifier (s\<lparr>ss_reassembly_queue := q\<rparr>) (a_streams a)\<rparr>)
          else (Inl (Err ''ErrStreamClosed''), a)
      | None \<Rightarrow> (Inl (Err ''ErrStreamClosed''), a))"


section \<open>The receive queue\<close>

text \<open>
  The chunks of the peer by their index from the TSN \<open>t0\<close> on. When those with the indices \<open>D\<close> have been
  accepted, the first \<open>n\<close> are acknowledged and the queue holds the others.
\<close>

definition queue_ok :: "u32 \<Rightarrow> nat set \<Rightarrow> nat \<Rightarrow> association \<Rightarrow> bool" where
  "queue_ok t0 D n a \<longleftrightarrow>
     {..<n} \<subseteq> D \<and> (\<forall>k \<in> D. k < 2147483648) \<and> a_peer_last_tsn a + 1 = tsn_at t0 n \<and>
     pq_inv (tsn_at t0 n) (a_payload_queue a) \<and>
     dom (pq_chunk_map (a_payload_queue a)) = tsn_at t0 ` (D - {..<n})"

lemma queue_ok_mem:
  assumes "queue_ok t0 D n a" "k < 2147483648"
  shows "tsn_at t0 k \<in> dom (pq_chunk_map (a_payload_queue a)) \<longleftrightarrow> k \<in> D \<and> n \<le> k"
proof -
  have "tsn_at t0 k \<in> tsn_at t0 ` (D - {..<n}) \<longleftrightarrow> k \<in> D - {..<n}"
    using assms tsn_at_eq [of k _ t0] by (auto simp: queue_ok_def)
  then show ?thesis using assms(1) by (auto simp: queue_ok_def)
qed

lemma queue_ok_le: "queue_ok t0 D n a \<Longrightarrow> n \<le> 2147483648"
  unfolding queue_ok_def by (meson lessThan_iff less_irrefl linorder_not_le subsetD)

lemma queue_ok_window:
  assumes "queue_ok t0 D n a" "k < 2147483648"
  shows "sna32lte (tsn_at t0 k) (a_peer_last_tsn a) \<longleftrightarrow> k < n"
proof -
  note n = queue_ok_le [OF assms(1)]
  have "sna32gt (tsn_at t0 k) (a_peer_last_tsn a) \<longleftrightarrow> unat (tsn_at t0 k - tsn_at t0 n) < 2147483648"
    using assms(1) by (simp add: tsn.gt_window tsn.window_def queue_ok_def)
  also have "\<dots> \<longleftrightarrow> n \<le> k"
  proof (cases "n \<le> k")
    case False
    then have "unat (tsn_at t0 n - tsn_at t0 k) = n - k" using n by (intro tsn_at_diff) auto
    moreover from this False have "tsn_at t0 n - tsn_at t0 k \<noteq> 0" by (auto simp: unat_eq_zero)
    ultimately have "unat (tsn_at t0 k - tsn_at t0 n) = 4294967296 - (n - k)"
      using unat_minus [of "tsn_at t0 n - tsn_at t0 k"] by simp
    then show ?thesis using False n by simp
  qed (use tsn_at_diff [of n k t0] assms(2) in simp)
  finally show ?thesis by (auto simp: tsn.gt_lte)
qed

lemma advance_queue_ok:
  assumes "queue_ok t0 D n a" "a_reconfig_requests a = []" "\<exists>k < 2147483648. k \<notin> D"
  shows "fst (advance_peer_last_tsn reply a) = reply \<and>
    snd (advance_peer_last_tsn reply a) =
      a\<lparr>a_payload_queue := a_payload_queue (snd (advance_peer_last_tsn reply a)),
        a_peer_last_tsn := a_peer_last_tsn (snd (advance_peer_last_tsn reply a))\<rparr> \<and>
    (\<exists>n' \<ge> n. queue_ok t0 D n' (snd (advance_peer_last_tsn reply a)) \<and> n' \<notin> D)"
  using assms
proof (induction reply a arbitrary: n rule: advance_peer_last_tsn.induct)
  case (1 reply a)
  let ?q = "a_payload_queue a" and ?t = "a_peer_last_tsn a + 1"
  obtain o' q' where p: "pq_pop ?q ?t = (o', q')" by fastforce
  have t: "?t = tsn_at t0 n" "pq_inv ?t ?q" using 1(2) by (simp_all add: queue_ok_def)
  note pop = pq_pop_base [OF t(2), unfolded p fst_conv snd_conv, unfolded t(1) tsn_at_Suc]
  have D: "{..<n} \<subseteq> D" using 1(2) by (simp add: queue_ok_def)
  obtain k where "k < 2147483648" "k \<notin> D" using 1(4) by blast
  with D have n: "n < 2147483648" by (metis lessThan_iff linorder_not_le order_le_less_trans subsetD)
  note mem = queue_ok_mem [OF 1(2) n]
  show ?case
  proof (cases o')
    case None
    then have eq: "advance_peer_last_tsn reply a = (reply, a\<lparr>a_payload_queue := q'\<rparr>)"
      using p by (simp add: advance_peer_last_tsn.simps)
    have "n \<notin> D" using mem None t pop(1) by (auto simp: domIff)
    moreover have "q' = ?q" using pq_pop_missing [OF t(2), of ?t] pop(1) None p t(1) by simp
    ultimately show ?thesis unfolding eq using 1(2) by auto
  next
    case (Some c)
    let ?a = "a\<lparr>a_payload_queue := q', a_peer_last_tsn := ?t\<rparr>"
    have eq: "advance_peer_last_tsn reply a = advance_peer_last_tsn reply ?a"
      using p Some 1(3) by (subst advance_peer_last_tsn.simps) simp
    have "n \<in> D" using mem Some t pop(1) by (auto simp: domIff)
    then have "D - {..<Suc n} = D - {..<n} - {n}" "{..<Suc n} \<subseteq> D" 
      using D by (auto simp: less_Suc_eq)
    moreover have dom: "dom ((pq_chunk_map ?q)(?t := None)) = tsn_at t0 ` (D - {..<Suc n})"
    proof -
      have "\<forall>k \<in> D - {..<n}. k < 2147483648" using 1(2) unfolding queue_ok_def by blast
      from tsn_at_remove [OF this n, of t0] show ?thesis
        using 1(2) calculation(1) t(1) by (simp add: queue_ok_def)
    qed
    ultimately have "queue_ok t0 D (Suc n) ?a"
      using 1(2) pop(2,3) t(1) tsn_at_Suc [of t0 n] dom by (simp add: queue_ok_def)
    with 1(1) [OF p [symmetric] Some refl refl refl] 1(3,4) obtain n' where
      "Suc n \<le> n'" "queue_ok t0 D n' (snd (advance_peer_last_tsn reply ?a))" "n' \<notin> D"
      "fst (advance_peer_last_tsn reply ?a) = reply"
      "snd (advance_peer_last_tsn reply ?a) = ?a\<lparr>a_payload_queue := a_payload_queue (snd (advance_peer_last_tsn reply ?a)),
        a_peer_last_tsn := a_peer_last_tsn (snd (advance_peer_last_tsn reply ?a))\<rparr>"
      by auto
    then show ?thesis unfolding eq by (intro conjI exI [of _ n']) simp_all
  qed
qed

section \<open>What a DATA chunk does\<close>

definition data_accepted :: "association \<Rightarrow> chunk_payload_data \<Rightarrow> bool" where
  "data_accepted a d \<longleftrightarrow>
     pq_can_push (a_payload_queue a) d (a_peer_last_tsn a) \<and>
     (get_my_receiver_window_credit (get_or_create_stream a (pd_stream_identifier d)) > 0 \<or>
      (\<exists>t. pq_get_last_tsn_received (a_payload_queue a) = Some t \<and> sna32lt (pd_tsn d) t))"

text \<open>The reassembly queue of a stream; a stream that is not there yet starts with an empty one.\<close>

definition queue_of :: "association \<Rightarrow> u16 \<Rightarrow> reassembly_queue" where
  "queue_of a si = (case map_of (a_streams a) si of Some s \<Rightarrow> ss_reassembly_queue s | None \<Rightarrow> rq_new si)"

lemma create_stream_frame [simp]:
  "a_payload_queue (get_or_create_stream a si) = a_payload_queue a"
  "a_peer_last_tsn (get_or_create_stream a si) = a_peer_last_tsn a"
  "a_reconfig_requests (get_or_create_stream a si) = a_reconfig_requests a"
  "map_of (a_streams (get_or_create_stream a si)) si \<noteq> None"
  "queue_of (get_or_create_stream a si) x = queue_of a x"
  by (auto simp: get_or_create_stream_def create_stream_def Let_def queue_of_def update_conv' ss_new_def)

lemma stats_frame [simp]:
  "get_or_create_stream (a\<lparr>a_stats := s\<rparr>) si = (get_or_create_stream a si)\<lparr>a_stats := s\<rparr>"
  "get_my_receiver_window_credit (a\<lparr>a_stats := s\<rparr>) = get_my_receiver_window_credit a"
  "queue_of (a\<lparr>a_stats := s\<rparr>) x = queue_of a x"
  by (simp_all add: get_or_create_stream_def create_stream_def get_my_receiver_window_credit_def queue_of_def Let_def)

lemma stream_handle_data_frame [simp]:
  "a_payload_queue (stream_handle_data clock a d) = a_payload_queue a"
  "a_peer_last_tsn (stream_handle_data clock a d) = a_peer_last_tsn a"
  "a_reconfig_requests (stream_handle_data clock a d) = a_reconfig_requests a"
  by (auto simp: stream_handle_data_def ss_handle_data_def case_prod_beta Let_def split: option.split)

lemma stream_handle_data_queue:
  assumes "map_of (a_streams a) (pd_stream_identifier d) \<noteq> None"
  shows "queue_of (stream_handle_data clock a d) x =
    (if x = pd_stream_identifier d then snd (rq_push clock (queue_of a x) d) else queue_of a x)"
  using assms
  by (auto simp: stream_handle_data_def ss_handle_data_def case_prod_beta Let_def queue_of_def update_conv' split: option.split)

definition data_taken :: "nat \<Rightarrow> association \<Rightarrow> chunk_payload_data \<Rightarrow> association" where
  "data_taken clock a d =
     (let b = get_or_create_stream a (pd_stream_identifier d) in
      if data_accepted a d
      then stream_handle_data clock (b\<lparr>a_payload_queue := pq_push_no_check (a_payload_queue a) d\<rparr>) d
      else if pq_can_push (a_payload_queue a) d (a_peer_last_tsn a) then b else a)"

lemma handle_data_eq:
  "handle_data clock a d =
     handle_peer_last_tsn_and_acknowledgement (data_taken clock (a\<lparr>a_stats := inc_datas (a_stats a)\<rparr>) d) (pd_immediate_sack d)"
  by (auto simp: handle_data_def data_taken_def data_accepted_def Let_def pq_push_eq split: option.split)

lemma data_accepted_stats [simp]: "data_accepted (a\<lparr>a_stats := s\<rparr>) d = data_accepted a d"
  by (simp add: data_accepted_def)

lemma data_taken_frame:
  "a_payload_queue (data_taken clock a d) =
     (if data_accepted a d then pq_push_no_check (a_payload_queue a) d else a_payload_queue a)"
  "a_peer_last_tsn (data_taken clock a d) = a_peer_last_tsn a"
  "a_reconfig_requests (data_taken clock a d) = a_reconfig_requests a"
  by (auto simp: data_taken_def Let_def)

lemma data_taken_queue:
  "queue_of (data_taken clock a d) x =
     (if data_accepted a d \<and> x = pd_stream_identifier d then snd (rq_push clock (queue_of a x) d)
      else queue_of a x)"
proof -
  let ?b = "(get_or_create_stream a (pd_stream_identifier d))\<lparr>a_payload_queue := pq_push_no_check (a_payload_queue a) d\<rparr>"
  have "queue_of ?b x = queue_of a x"
    using create_stream_frame(5) [of a "pd_stream_identifier d" x] by (simp add: queue_of_def)
  moreover have "map_of (a_streams ?b) (pd_stream_identifier d) \<noteq> None" using create_stream_frame(4) by simp
  ultimately show ?thesis using stream_handle_data_queue [of ?b d clock x] by (auto simp: data_taken_def Let_def)
qed

lemma acknowledgement_frame:
  "a_payload_queue (snd (handle_peer_last_tsn_and_acknowledgement a i)) = a_payload_queue (snd (advance_peer_last_tsn [] a))"
  "a_peer_last_tsn (snd (handle_peer_last_tsn_and_acknowledgement a i)) = a_peer_last_tsn (snd (advance_peer_last_tsn [] a))"
  "a_reconfig_requests (snd (handle_peer_last_tsn_and_acknowledgement a i)) = a_reconfig_requests (snd (advance_peer_last_tsn [] a))"
  "a_streams (snd (handle_peer_last_tsn_and_acknowledgement a i)) = a_streams (snd (advance_peer_last_tsn [] a))"
  "fst (handle_peer_last_tsn_and_acknowledgement a i) = Inr (fst (advance_peer_last_tsn [] a))"
  by (simp_all add: handle_peer_last_tsn_and_acknowledgement_def case_prod_beta Let_def)

lemma data_accepted_iff:
  assumes ok: "queue_ok t0 D n a" and k: "pd_tsn d = tsn_at t0 k" "k < 2147483648" and acc: "data_accepted a d"
  shows "k \<notin> D" "n \<le> k"
proof -
  have "\<not> sna32lte (pd_tsn d) (a_peer_last_tsn a)" "pd_tsn d \<notin> dom (pq_chunk_map (a_payload_queue a))"
    using acc by (simp_all add: data_accepted_def pq_can_push_def)
  then show "n \<le> k" using queue_ok_window [OF ok k(2)] k(1) by simp
  then show "k \<notin> D" using queue_ok_mem [OF ok k(2)] k(1) \<open>pd_tsn d \<notin> _\<close> by simp
qed

lemma data_taken_queue_ok:
  assumes ok: "queue_ok t0 D n a" and k: "pd_tsn d = tsn_at t0 k" "k < 2147483648"
  shows "queue_ok t0 (if data_accepted a d then insert k D else D) n (data_taken clock a d)"
proof (cases "data_accepted a d")
  case True
  note new = data_accepted_iff [OF ok k True]
  have "pq_inv (tsn_at t0 n) (pq_push_no_check (a_payload_queue a) d)"
  proof (rule pq_push_no_check_inv)
    show "pq_inv (tsn_at t0 n) (a_payload_queue a)" using ok by (simp add: queue_ok_def)
    show "pd_tsn d \<notin> dom (pq_chunk_map (a_payload_queue a))"
      using True by (simp add: data_accepted_def pq_can_push_def)
    show "tsn.window (tsn_at t0 n) (pd_tsn d)"
      using tsn_at_diff [of n k t0] new k by (simp add: tsn.window_def)
  qed
  moreover have "dom (pq_chunk_map (pq_push_no_check (a_payload_queue a) d)) = tsn_at t0 ` (insert k D - {..<n})"
    using ok new k(1) by (simp add: queue_ok_def pq_push_no_check_def pq_update_sorted_keys_def insert_Diff_if)
  ultimately show ?thesis using ok True k(2) by (auto simp: queue_ok_def data_taken_frame)
qed (use ok in \<open>simp add: queue_ok_def data_taken_frame\<close>)

lemma handle_data_queue_ok:
  fixes clock :: nat
  assumes ok: "queue_ok t0 D n a" "a_reconfig_requests a = []"
    and k: "pd_tsn d = tsn_at t0 k" "k < N" "D \<subseteq> {..<N}" "N < 2147483648"
  defines "a' \<equiv> snd (handle_data clock a d)" and "D' \<equiv> if data_accepted a d then insert k D else D"
  shows "(\<exists>n' \<ge> n. queue_ok t0 D' n' a' \<and> n' \<notin> D') \<and> a_reconfig_requests a' = [] \<and> D' \<subseteq> {..<N} \<and>
    (\<forall>x. queue_of a' x = (if data_accepted a d \<and> x = pd_stream_identifier d
       then snd (rq_push clock (queue_of a x) d) else queue_of a x))"
proof -
  let ?a = "a\<lparr>a_stats := inc_datas (a_stats a)\<rparr>"
  let ?b = "data_taken clock ?a d"
  have "queue_ok t0 D n ?a" using ok(1) by (simp add: queue_ok_def)
  from data_taken_queue_ok [OF this k(1)] k(2,4) have q: "queue_ok t0 D' n ?b" by (simp add: D'_def)
  have r: "a_reconfig_requests ?b = []" using ok(2) by (simp add: data_taken_frame)
  have D': "D' \<subseteq> {..<N}" using k(2,3) by (simp add: D'_def)
  then have "N \<notin> D'" by auto
  with k(4) have "\<exists>j < 2147483648. j \<notin> D'" by blast
  note adv = advance_queue_ok [OF q r this, of "[]"]
  have s: "a_streams (snd (advance_peer_last_tsn [] ?b)) = a_streams ?b"
    "a_reconfig_requests (snd (advance_peer_last_tsn [] ?b)) = a_reconfig_requests ?b"
    by (subst adv [THEN conjunct2, THEN conjunct1], simp)+
  have a': "a' = snd (handle_peer_last_tsn_and_acknowledgement ?b (pd_immediate_sack d))"
    by (simp add: a'_def handle_data_eq)
  have "queue_of a' x = queue_of ?b x" for x
    by (simp add: a' queue_of_def acknowledgement_frame s)
  moreover have "queue_ok t0 D' m a' \<longleftrightarrow> queue_ok t0 D' m (snd (advance_peer_last_tsn [] ?b))" for m
    by (simp add: queue_ok_def a' acknowledgement_frame)
  ultimately show ?thesis
    using adv D' r s by (simp add: a' acknowledgement_frame data_taken_queue)
qed

section \<open>Delivery\<close>

lemma distinct_concat_nth:
  "distinct (concat ms) \<Longrightarrow> i < length ms \<Longrightarrow> j < length (ms ! i) \<Longrightarrow> i' < length ms \<Longrightarrow> j' < length (ms ! i') \<Longrightarrow>
   ms ! i ! j = ms ! i' ! j' \<longleftrightarrow> i = i' \<and> j = j'"
proof (induction ms arbitrary: i i')
  case (Cons m ms)
  have new: "ms ! a ! b \<noteq> m ! c" if "a < length ms" "b < length (ms ! a)" "c < length m" for a b c
    using Cons.prems(1) nth_mem [OF that(1)] nth_mem [OF that(2)] nth_mem [OF that(3)] by force
  show ?case
  proof (cases i)
    case 0
    then show ?thesis
      using Cons.prems new [of "i' - 1" j' j] by (cases i') (auto simp: nth_eq_iff_index_eq)
  next
    case (Suc n)
    then show ?thesis
      using Cons.prems Cons.IH [of n "i' - 1"] new [of n j j'] by (cases i') auto
  qed
qed simp

text \<open>The fragments of the messages \<open>ms\<close> among the chunks of \<open>cs\<close> with the indices \<open>D\<close>.\<close>

definition frags :: "chunk_payload_data list \<Rightarrow> chunk_payload_data list list \<Rightarrow> nat set \<Rightarrow> (nat \<times> nat) set" where
  "frags cs ms D = {(i, j). i < length ms \<and> j < length (ms ! i) \<and> (\<exists>k \<in> D. cs ! k = ms ! i ! j)}"

text \<open>
  The peer has sent the chunks \<open>cs\<close>, on any streams and with consecutive TSNs from \<open>t0\<close> on; the
  ordered ones of stream \<open>si\<close> are the fragments of the messages \<open>ms\<close>.
\<close>

definition sent_on :: "u32 \<Rightarrow> u16 \<Rightarrow> chunk_payload_data list \<Rightarrow> chunk_payload_data list list \<Rightarrow> bool" where
  "sent_on t0 si cs ms \<longleftrightarrow>
     length cs < 2147483648 \<and> (\<forall>k < length cs. pd_tsn (cs ! k) = tsn_at t0 k) \<and> ordered_stream si ms \<and>
     filter (\<lambda>c. pd_stream_identifier c = si \<and> \<not> pd_unordered c) cs = concat ms"

lemma sent_on_distinct:
  assumes "sent_on t0 si cs ms"
  shows "distinct cs" "distinct (concat ms)"
proof -
  show "distinct cs"
    unfolding distinct_conv_nth
  proof (intro allI impI notI)
    fix i j assume ij: "i < length cs" "j < length cs" "i \<noteq> j" "cs ! i = cs ! j"
    then have "tsn_at t0 i = tsn_at t0 j" using assms by (metis sent_on_def)
    with ij assms tsn_at_eq [of i j t0] show False by (simp add: sent_on_def)
  qed
  then have "distinct (filter (\<lambda>c. pd_stream_identifier c = si \<and> \<not> pd_unordered c) cs)" by simp
  then show "distinct (concat ms)" using assms by (simp add: sent_on_def)
qed

lemma sent_on_fragment:
  assumes "sent_on t0 si cs ms"
  shows "c \<in> set cs \<and> pd_stream_identifier c = si \<and> \<not> pd_unordered c \<longleftrightarrow>
    (\<exists>i j. i < length ms \<and> j < length (ms ! i) \<and> c = ms ! i ! j)"
proof -
  have f: "filter (\<lambda>c. pd_stream_identifier c = si \<and> \<not> pd_unordered c) cs = concat ms"
    using assms by (simp add: sent_on_def)
  have "set (concat ms) = {c \<in> set cs. pd_stream_identifier c = si \<and> \<not> pd_unordered c}"
    unfolding f [symmetric] set_filter ..
  moreover have "c \<in> set (concat ms) \<longleftrightarrow> (\<exists>m \<in> set ms. c \<in> set m)" by simp
  moreover have "\<dots> \<longleftrightarrow> (\<exists>i j. i < length ms \<and> j < length (ms ! i) \<and> c = ms ! i ! j)"
    by (metis in_set_conv_nth)
  ultimately show ?thesis by blast
qed

lemma frags_insert:
  assumes s: "sent_on t0 si cs ms" and k: "k < length cs" "k \<notin> D" "D \<subseteq> {..<length cs}"
  shows "i < length ms \<Longrightarrow> j < length (ms ! i) \<Longrightarrow> cs ! k = ms ! i ! j \<Longrightarrow>
      frags cs ms (insert k D) = insert (i, j) (frags cs ms D) \<and> (i, j) \<notin> frags cs ms D"
    and "\<not> (pd_stream_identifier (cs ! k) = si \<and> \<not> pd_unordered (cs ! k)) \<Longrightarrow> frags cs ms (insert k D) = frags cs ms D"
proof -
  note d = sent_on_distinct [OF s]
  assume ij: "i < length ms" "j < length (ms ! i)" "cs ! k = ms ! i ! j"
  have "cs ! k \<noteq> cs ! k'" if "k' \<in> D" for k'
    using d(1) k that by (metis lessThan_iff nth_eq_iff_index_eq subsetD)
  moreover have "(i', j') = (i, j)" if "i' < length ms" "j' < length (ms ! i')" "cs ! k = ms ! i' ! j'" for i' j'
    using distinct_concat_nth [OF d(2) ij(1,2) that(1,2)] ij(3) that(3) by simp
  ultimately show "frags cs ms (insert k D) = insert (i, j) (frags cs ms D) \<and> (i, j) \<notin> frags cs ms D"
    using ij unfolding frags_def by fastforce
next
  assume "\<not> (pd_stream_identifier (cs ! k) = si \<and> \<not> pd_unordered (cs ! k))"
  then show "frags cs ms (insert k D) = frags cs ms D"
    using sent_on_fragment [OF s, of "cs ! k"] k(1) unfolding frags_def by blast
qed

lemma frags_all:
  assumes s: "sent_on t0 si cs ms" and D: "{..<length cs} \<subseteq> D"
  shows "\<forall>i < length ms. \<forall>j < length (ms ! i). (i, j) \<in> frags cs ms D"
proof (intro allI impI)
  fix i j assume ij: "i < length ms" "j < length (ms ! i)"
  then have "ms ! i ! j \<in> set cs" using sent_on_fragment [OF s, of "ms ! i ! j"] by blast
  then obtain k where "k < length cs" "cs ! k = ms ! i ! j" by (metis in_set_conv_nth)
  with D ij show "(i, j) \<in> frags cs ms D" by (auto simp: frags_def)
qed

text \<open>
  A run of the receiver: DATA chunks the peer has sent arrive in any order, any number of times,
  and the streams are read at any time. The peer stays less than 32768 messages ahead of the
  reader of the stream. \<open>outs\<close> is what has been read from stream \<open>si\<close>.
\<close>

inductive delivery ::
    "u16 \<Rightarrow> chunk_payload_data list \<Rightarrow> chunk_payload_data list list \<Rightarrow> association \<Rightarrow> association \<Rightarrow> chunks list \<Rightarrow> bool"
  for si cs ms a0 where
  delivery_start: "delivery si cs ms a0 a0 []"
| delivery_data: "delivery si cs ms a0 a outs \<Longrightarrow> d \<in> set cs \<Longrightarrow>
    \<forall>i < length ms. d \<in> set (ms ! i) \<longrightarrow> i < length (filter is_ordered outs) + 32768 \<Longrightarrow>
    delivery si cs ms a0 (snd (handle_data clock a d)) outs"
| delivery_read: "delivery si cs ms a0 a outs \<Longrightarrow> read_sctp a si = (Inr (Some c), a') \<Longrightarrow>
    delivery si cs ms a0 a' (outs @ [c])"
| delivery_other: "delivery si cs ms a0 a outs \<Longrightarrow> x \<noteq> si \<Longrightarrow> delivery si cs ms a0 (snd (read_sctp a x)) outs"

lemma read_sctp_frame:
  "a_payload_queue (snd (read_sctp a x)) = a_payload_queue a"
  "a_peer_last_tsn (snd (read_sctp a x)) = a_peer_last_tsn a"
  "a_reconfig_requests (snd (read_sctp a x)) = a_reconfig_requests a"
  "y \<noteq> x \<Longrightarrow> queue_of (snd (read_sctp a x)) y = queue_of a y"
  "read_sctp a x = (Inr (Some c), a') \<Longrightarrow> rq_read (queue_of a x) = (Some c, queue_of a' x)"
  by (auto simp: read_sctp_def case_prod_beta Let_def queue_of_def update_conv' prod_eq_iff split: option.splits if_splits)

lemma delivery_inv:
  assumes s: "sent_on t0 si cs ms" and "delivery si cs ms a0 a outs"
    and a0: "queue_ok t0 {} 0 a0" "a_reconfig_requests a0 = []" "queue_of a0 si = rq_new si"
  shows "\<exists>D n. D \<subseteq> {..<length cs} \<and> queue_ok t0 D n a \<and> n \<notin> D \<and> a_reconfig_requests a = [] \<and>
    received si ms (queue_of a si) (frags cs ms D) outs"
  using assms(2)
proof (induction rule: delivery.induct)
  case delivery_start
  have "frags cs ms {} = {}" by (simp add: frags_def)
  then show ?case
    using a0 received.start [of si ms] by (intro exI [of _ "{}"] exI [of _ 0]) simp
next
  case (delivery_data a outs d clock)
  then obtain D n where D: "D \<subseteq> {..<length cs}" "queue_ok t0 D n a" "a_reconfig_requests a = []"
    "received si ms (queue_of a si) (frags cs ms D) outs" by blast
  obtain k where k: "k < length cs" "d = cs ! k" using delivery_data.hyps(2) by (metis in_set_conv_nth)
  have len: "length cs < 2147483648" "pd_tsn d = tsn_at t0 k" using s k by (simp_all add: sent_on_def)
  let ?D = "if data_accepted a d then insert k D else D"
  let ?a = "snd (handle_data clock a d)"
  note hd = handle_data_queue_ok [OF D(2,3) len(2) k(1) D(1) len(1), of clock]
  have "received si ms (queue_of ?a si) (frags cs ms ?D) outs"
  proof (cases "data_accepted a d")
    case True
    have "k \<notin> D" using data_accepted_iff [OF D(2) len(2) _ True] k(1) len(1) by simp
    note fr = frags_insert [OF s k(1) this D(1)]
    show ?thesis
    proof (cases "pd_stream_identifier d = si \<and> \<not> pd_unordered d")
      case frag: True
      then obtain i j where ij: "i < length ms" "j < length (ms ! i)" "d = ms ! i ! j"
        using sent_on_fragment [OF s, of d] delivery_data.hyps(2) by blast
      then have "i < length (filter is_ordered outs) + 32768" using delivery_data.hyps(3) by simp
      from received.arrive [OF D(4) ij(1,2) _ this, of clock] fr(1) [OF ij(1,2)] ij(3) k(2) hd True frag
      show ?thesis by simp
    next
      case False
      with received.arrive_unordered [OF D(4), of d clock] fr(2) k(2) hd True D(4)
      show ?thesis by (cases "pd_stream_identifier d = si") simp_all
    qed
  qed (use hd D(4) in simp)
  then show ?case using hd by blast
next
  case (delivery_read a outs c a')
  have a': "a' = snd (read_sctp a si)" using delivery_read.hyps(2) by simp
  from delivery_read.IH obtain D n where D: "D \<subseteq> {..<length cs}" "queue_ok t0 D n a" "n \<notin> D"
    "a_reconfig_requests a = []" "received si ms (queue_of a si) (frags cs ms D) outs" by blast
  have "queue_ok t0 D n a'" using D(2) by (simp add: queue_ok_def a' read_sctp_frame(1-3))
  moreover have "a_reconfig_requests a' = []" using D(4) by (simp add: a' read_sctp_frame(1-3))
  ultimately show ?case
    using D received.read [OF D(5) read_sctp_frame(5) [OF delivery_read.hyps(2)]] by blast
next
  case (delivery_other a outs x)
  from delivery_other.IH obtain D n where D: "D \<subseteq> {..<length cs}" "queue_ok t0 D n a" "n \<notin> D"
    "a_reconfig_requests a = []" "received si ms (queue_of a si) (frags cs ms D) outs" by blast
  have "queue_ok t0 D n (snd (read_sctp a x))" using D(2) by (simp add: queue_ok_def read_sctp_frame(1-3))
  moreover have "queue_of (snd (read_sctp a x)) si = queue_of a si"
    using delivery_other.hyps(2) by (intro read_sctp_frame(4)) auto
  ultimately show ?case using D read_sctp_frame(3) by auto
qed

text \<open>The state of a receiver after the handshake, before the first DATA chunk.\<close>

definition fresh_receiver :: "association \<Rightarrow> u16 \<Rightarrow> bool" where
  "fresh_receiver a si \<longleftrightarrow>
     a_payload_queue a = pq_new \<and> a_reconfig_requests a = [] \<and> map_of (a_streams a) si = None"

lemma fresh_receiver_ok:
  "fresh_receiver a si \<Longrightarrow> queue_ok (a_peer_last_tsn a + 1) {} 0 a \<and> a_reconfig_requests a = [] \<and> queue_of a si = rq_new si"
  using pq_new_inv by (simp add: fresh_receiver_def queue_ok_def tsn_at_def queue_of_def) (simp add: pq_new_def)

lemma delivery_ok:
  assumes "fresh_receiver a0 si" "sent_on (a_peer_last_tsn a0 + 1) si cs ms" "delivery si cs ms a0 a outs"
  obtains D n where "D \<subseteq> {..<length cs}" "queue_ok (a_peer_last_tsn a0 + 1) D n a" "n \<notin> D"
    "n \<le> length cs" "a_peer_last_tsn a = a_peer_last_tsn a0 + of_nat n" "a_reconfig_requests a = []"
    "received si ms (queue_of a si) (frags cs ms D) outs"
proof -
  obtain D n where D: "D \<subseteq> {..<length cs}" "queue_ok (a_peer_last_tsn a0 + 1) D n a" "n \<notin> D"
    "a_reconfig_requests a = []" "received si ms (queue_of a si) (frags cs ms D) outs"
    using delivery_inv [OF assms(2,3)] fresh_receiver_ok [OF assms(1)] by blast
  moreover have "{..<n} \<subseteq> D" using D(2) by (simp add: queue_ok_def)
  from order_trans [OF this D(1)] have "n \<le> length cs" by simp
  moreover have "a_peer_last_tsn a = a_peer_last_tsn a0 + of_nat n"
    using D(2) by (simp add: queue_ok_def tsn_at_def algebra_simps)
  ultimately show ?thesis using that by simp
qed

lemma base_lt_last:
  assumes inv: "pq_inv base q" and "base \<notin> dom (pq_chunk_map q)" "pq_chunk_map q \<noteq> Map.empty"
  shows "\<exists>t. pq_get_last_tsn_received q = Some t \<and> sna32lt base t"
proof -
  have ne: "pq_sorted q \<noteq> []" using inv assms(3) by (auto simp: pq_inv_def dest: sym)
  then have "last (pq_sorted q) \<in> set (pq_sorted q)" by simp
  then have "tsn.window base (last (pq_sorted q))" "last (pq_sorted q) \<noteq> base"
    using inv assms(2) unfolding pq_inv_def by blast+
  then show ?thesis using ne by (auto simp: pq_get_last_tsn_received_def tsn.lt_dist tsn.window_def)
qed

lemma next_chunk_accepted:
  assumes ok: "queue_ok t0 D n a" "n \<notin> D" "n < 2147483648" and d: "pd_tsn d = a_peer_last_tsn a + 1"
    and room: "0 < get_my_receiver_window_credit (get_or_create_stream a (pd_stream_identifier d)) \<or>
      pq_chunk_map (a_payload_queue a) \<noteq> Map.empty"
  shows "data_accepted a d"
proof -
  have t: "pd_tsn d = tsn_at t0 n" "pq_inv (pd_tsn d) (a_payload_queue a)"
    using ok(1) d by (simp_all add: queue_ok_def)
  have new: "pd_tsn d \<notin> dom (pq_chunk_map (a_payload_queue a))"
    using queue_ok_mem [OF ok(1,3)] ok(2) t(1) by simp
  moreover have "\<not> sna32lte (pd_tsn d) (a_peer_last_tsn a)" using queue_ok_window [OF ok(1,3)] t(1) by simp
  ultimately show ?thesis
    using room base_lt_last [OF t(2) new] by (auto simp: data_accepted_def pq_can_push_def)
qed

text \<open>
  A chunk that has been received before is not pushed, so that the queue never records it and no SACK
  reports a duplicate TSN.
\<close>

lemma advance_dups:
  "pq_dup_tsn (a_payload_queue (snd (advance_peer_last_tsn reply a))) = pq_dup_tsn (a_payload_queue a)"
proof (induction reply a rule: advance_peer_last_tsn.induct)
  case (1 reply a)
  have "pq_dup_tsn (snd (pq_pop (a_payload_queue a) (a_peer_last_tsn a + 1))) = pq_dup_tsn (a_payload_queue a)"
    by (auto simp: pq_pop_def Let_def split: option.split)
  then show ?case
    using 1 by (subst advance_peer_last_tsn.simps) (auto simp: reset_steps_frame Let_def split: prod.split option.split)
qed

lemma duplicates_not_recorded:
  "pq_dup_tsn (a_payload_queue (snd (handle_data clock a d))) = pq_dup_tsn (a_payload_queue a)"
  by (simp add: handle_data_eq acknowledgement_frame advance_dups data_taken_frame pq_push_no_check_def
      pq_update_sorted_keys_def)

text \<open>A receiver with a buffer of 1000 bytes and the one chunk its peer sends.\<close>

lemma example_receiver:
  defines "a \<equiv> association_default\<lparr>a_max_receive_buffer_size := 1000\<rparr>"
    and "c \<equiv> pd_default\<lparr>pd_beginning_fragment := True, pd_ending_fragment := True, pd_tsn := 1, pd_user_data := [7]\<rparr>"
  shows "fresh_receiver a 0" "sent_on 1 0 [c] [[c]]" "a_peer_last_tsn (snd (handle_data 0 a c)) = 1"
    "0 < get_my_receiver_window_credit (get_or_create_stream a (pd_stream_identifier c))"
proof -
  show f: "fresh_receiver a 0" by (simp add: fresh_receiver_def a_def association_default_def)
  show "sent_on 1 0 [c] [[c]]"
    by (simp add: sent_on_def tsn_at_def c_def pd_default_def ordered_stream_def ordered_message_def)
  show credit: "0 < get_my_receiver_window_credit (get_or_create_stream a (pd_stream_identifier c))"
    by (simp add: a_def c_def association_default_def get_or_create_stream_def create_stream_def pd_default_def
        get_my_receiver_window_credit_def ss_new_def ss_get_num_bytes_in_reassembly_queue_def rq_new_def rq_get_num_bytes_def)
  have ok: "queue_ok 1 {} 0 a" "a_reconfig_requests a = []"
    using fresh_receiver_ok [OF f] by (simp_all add: a_def association_default_def)
  moreover have t: "pd_tsn c = tsn_at 1 0" "pd_tsn c = a_peer_last_tsn a + 1"
    by (simp_all add: c_def tsn_at_def a_def association_default_def)
  moreover have "data_accepted a c" using next_chunk_accepted [OF ok(1) _ _ t(2)] credit by simp
  ultimately obtain n where n: "queue_ok 1 {0} n (snd (handle_data 0 a c))" "n \<notin> {0}"
    using handle_data_queue_ok [of 1 "{}" 0 a c 0 1 0] by auto
  then have "{..<n} \<subseteq> {0}" by (simp add: queue_ok_def)
  then have "n = 1" using n(2) by (cases n) (auto simp: lessThan_Suc)
  with n(1) show "a_peer_last_tsn (snd (handle_data 0 a c)) = 1" by (simp add: queue_ok_def tsn_at_def)
qed

section \<open>Properties\<close>

text \<open>
  C4. What the receiver acknowledges it delivers. The peer sends chunks with consecutive TSNs on any
  number of streams; they reach the association in any order, lost, repeated, or refused because the
  receive buffer is full, and the application reads at any time. Then the ordered messages read
  from a stream are the first messages sent on it, fragment by fragment; the cumulative TSN
  acknowledges a prefix of the chunks sent; and once it acknowledges all of them, reading on
  returns every message of the stream.
\<close>

theorem acked_is_delivered:
  assumes "fresh_receiver a0 si" "sent_on (a_peer_last_tsn a0 + 1) si cs ms" "delivery si cs ms a0 a outs"
  shows "map cs_chunks (filter is_ordered outs) = take (length (filter is_ordered outs)) ms \<and>
    (\<exists>n \<le> length cs. a_peer_last_tsn a = a_peer_last_tsn a0 + of_nat n) \<and>
    (a_peer_last_tsn a = a_peer_last_tsn a0 + of_nat (length cs) \<longrightarrow>
      map cs_chunks (filter is_ordered (outs @ rq_drain (length (rq_unordered (queue_of a si)) + length ms) (queue_of a si))) = ms)"
proof (intro conjI impI)
  have str: "ordered_stream si ms" using assms(2) by (simp add: sent_on_def)
  obtain D n where D: "D \<subseteq> {..<length cs}" "queue_ok (a_peer_last_tsn a0 + 1) D n a" "n \<notin> D"
    "n \<le> length cs" "a_peer_last_tsn a = a_peer_last_tsn a0 + of_nat n" "a_reconfig_requests a = []"
    "received si ms (queue_of a si) (frags cs ms D) outs"
    using delivery_ok [OF assms] .
  show "map cs_chunks (filter is_ordered outs) = take (length (filter is_ordered outs)) ms"
    using received_inv [OF str D(7)] by simp
  show "\<exists>n \<le> length cs. a_peer_last_tsn a = a_peer_last_tsn a0 + of_nat n" using D(4,5) by blast
  assume "a_peer_last_tsn a = a_peer_last_tsn a0 + of_nat (length cs)"
  then have "tsn_at 0 n = tsn_at 0 (length cs)" using D(5) by (simp add: tsn_at_def)
  moreover have "length cs < 2147483648" using assms(2) by (simp add: sent_on_def)
  ultimately have "n = length cs" using tsn_at_eq [of n "length cs" 0] D(4) by simp
  then have "{..<length cs} \<subseteq> D" using D(2) by (simp add: queue_ok_def)
  note all = frags_all [OF assms(2) this]
  show "map cs_chunks (filter is_ordered (outs @ rq_drain (length (rq_unordered (queue_of a si)) + length ms) (queue_of a si))) = ms"
    by (rule drain_all [OF str D(7) all]) simp
qed

theorem acked_is_delivered_witness:
  "\<exists>c a. fresh_receiver (association_default\<lparr>a_max_receive_buffer_size := 1000\<rparr>) 0 \<and>
     delivery 0 [c] [[c]] (association_default\<lparr>a_max_receive_buffer_size := 1000\<rparr>) a [] \<and> a_peer_last_tsn a = 1 \<and>
     map cs_chunks (filter is_ordered (rq_drain (length (rq_unordered (queue_of a 0)) + 1) (queue_of a 0))) = [[c]]"
proof -
  let ?a = "association_default\<lparr>a_max_receive_buffer_size := 1000\<rparr>"
  let ?c = "pd_default\<lparr>pd_beginning_fragment := True, pd_ending_fragment := True, pd_tsn := 1, pd_user_data := [7]\<rparr>"
  note ex = example_receiver
  have "delivery 0 [?c] [[?c]] ?a (snd (handle_data 0 ?a ?c)) []"
    by (rule delivery_data [OF delivery_start]) simp_all
  moreover from acked_is_delivered [OF ex(1) _ this] ex(2,3)
  have "map cs_chunks (filter is_ordered (rq_drain (length (rq_unordered (queue_of (snd (handle_data 0 ?a ?c)) 0)) + 1)
      (queue_of (snd (handle_data 0 ?a ?c)) 0))) = [[?c]]"
    by (simp add: association_default_def del: rq_drain.simps)
  ultimately show ?thesis using ex(1,3) by (intro exI conjI)
qed

text \<open>
  C19. The receiver is never stuck: in every state it reaches, the chunk that follows the cumulative TSN
  is accepted if the receive buffer has room or if later chunks are waiting for it, and moves the
  cumulative TSN forward.
\<close>

theorem receiver_progress:
  assumes "fresh_receiver a0 si" "sent_on (a_peer_last_tsn a0 + 1) si cs ms" "delivery si cs ms a0 a outs"
    and "d \<in> set cs" "pd_tsn d = a_peer_last_tsn a + 1"
    and "0 < get_my_receiver_window_credit (get_or_create_stream a (pd_stream_identifier d)) \<or>
      \<not> pq_is_empty (a_payload_queue a)"
  shows "sna32gt (a_peer_last_tsn (snd (handle_data clock a d))) (a_peer_last_tsn a)"
proof -
  let ?t = "a_peer_last_tsn a0 + 1"
  obtain D n where D: "D \<subseteq> {..<length cs}" "queue_ok ?t D n a" "n \<notin> D" "n \<le> length cs" "a_reconfig_requests a = []"
    by (rule delivery_ok [OF assms(1-3)])
  have len: "length cs < 2147483648" using assms(2) by (simp add: sent_on_def)
  obtain k where k: "k < length cs" "d = cs ! k" using assms(4) by (metis in_set_conv_nth)
  have t: "pd_tsn d = tsn_at ?t k" "pd_tsn d = tsn_at ?t n"
    using assms(2,5) k D(2) by (simp_all add: sent_on_def queue_ok_def)
  then have n: "n = k" using tsn_at_eq [of n k ?t] len k(1) D(4) by simp
  have "pq_chunk_map (a_payload_queue a) \<noteq> Map.empty" if "\<not> pq_is_empty (a_payload_queue a)"
    using that by (auto simp: pq_is_empty_def pq_len_def)
  then have acc: "data_accepted a d"
    using next_chunk_accepted [OF D(2,3) _ assms(5)] assms(6) len D(4) by auto
  from handle_data_queue_ok [OF D(2,5) t(1) k(1) D(1) len, of clock] acc obtain n' where
    n': "n \<le> n'" "queue_ok ?t (insert k D) n' (snd (handle_data clock a d))" "n' \<notin> insert k D" "insert k D \<subseteq> {..<length cs}"
    by auto
  then have "n < n'" using n by (auto simp: le_less)
  have "{..<n'} \<subseteq> insert k D" using n'(2) by (simp add: queue_ok_def)
  from order_trans [OF this n'(4)] have "n' \<le> length cs" by simp
  have "a_peer_last_tsn (snd (handle_data clock a d)) = tsn_at ?t (n' - 1)"
    using n'(2) \<open>n < n'\<close> by (cases n') (auto simp: queue_ok_def tsn_at_def)
  moreover have "unat (tsn_at ?t (n' - 1) - tsn_at ?t n) = n' - 1 - n"
    using \<open>n < n'\<close> \<open>n' \<le> length cs\<close> len by (intro tsn_at_diff) auto
  ultimately show ?thesis
    using \<open>n' \<le> length cs\<close> len t(2) assms(5) by (simp add: tsn.gt_window tsn.window_def)
qed

theorem receiver_progress_witness:
  "sna32gt (a_peer_last_tsn (snd (handle_data 0 (association_default\<lparr>a_max_receive_buffer_size := 1000\<rparr>)
     (pd_default\<lparr>pd_beginning_fragment := True, pd_ending_fragment := True, pd_tsn := 1, pd_user_data := [7]\<rparr>)))) 0"
proof -
  let ?a = "association_default\<lparr>a_max_receive_buffer_size := 1000\<rparr>"
  let ?c = "pd_default\<lparr>pd_beginning_fragment := True, pd_ending_fragment := True, pd_tsn := 1, pd_user_data := [7]\<rparr>"
  have "a_peer_last_tsn ?a = 0" by (simp add: association_default_def)
  with receiver_progress [OF example_receiver(1) _ delivery_start, of "[?c]" "[[?c]]" ?c 0] example_receiver(2,4)
  show ?thesis by simp
qed

end
