(* ===== verification/Sctp_Assoc_Sack.thy ===== *)
theory Sctp_Assoc_Sack
  imports Sctp_Assoc
begin

text \<open>
  \<^verbatim>\<open>rtc-sctp/src/association/mod.rs\<close>, the acknowledgements: the SACK handler with the retransmission
  queue, the congestion window, the fast retransmission and the advanced ack point of partial
  reliability. \<open>flight_ok\<close> and \<open>sender_ok\<close> are the invariants of the chunks in flight.
\<close>

section \<open>Acknowledged chunks\<close>

text \<open>The bytes acknowledged per stream, in the order the streams were met.\<close>

type_synonym acked_bytes = "(u16 \<times> int) list"

definition add_acked :: "acked_bytes \<Rightarrow> u16 \<Rightarrow> int \<Rightarrow> acked_bytes" where
  "add_acked bytes si n =
     (case map_of bytes si of
        Some amount \<Rightarrow> AList.update si (amount + n) bytes
      | None \<Rightarrow> AList.update si n bytes)"

definition measure_rtt :: "association \<Rightarrow> chunk_payload_data \<Rightarrow> nat \<Rightarrow> association" where
  "measure_rtt a c now =
     (let a = a\<lparr>a_min_tsn2measure_rtt := a_my_next_tsn a\<rparr> in
      case pd_since c of
        Some since \<Rightarrow>
          let rtt = now - since
          in a\<lparr>a_rto_mgr := snd (rm_set_new_rtt (a_rto_mgr a) (of_nat (as_millis rtt)))\<rparr>
      | None \<Rightarrow> a)"

definition ack_chunk :: "nat \<Rightarrow> u32 \<Rightarrow> chunk_payload_data \<Rightarrow> acked_bytes \<Rightarrow> association \<Rightarrow> acked_bytes \<times> association" where
  "ack_chunk now i c bytes a =
     (let (bytes, a) =
        (if \<not> pd_acked c then
           let a = (if i = a_cumulative_tsn_ack_point a + 1
                    then a\<lparr>a_timers := tt_stop (a_timers a) T3RTX\<rparr> else a);
               n_bytes_acked = int (length (pd_user_data c));
               bytes = add_acked bytes (pd_stream_identifier c) n_bytes_acked;
               a = (if pd_nsent c = 1 \<and> sna32gte (pd_tsn c) (a_min_tsn2measure_rtt a)
                    then measure_rtt a c now else a)
           in (bytes, a)
         else (bytes, a));
        a = (if a_in_fast_recovery a \<and> pd_tsn c = a_fast_recover_exit_point a
             then a\<lparr>a_in_fast_recovery := False\<rparr> else a)
      in (bytes, a))"

lemma ack_chunk_inflight [simp]: "a_inflight_queue (snd (ack_chunk now i c bytes a)) = a_inflight_queue a"
  by (simp add: ack_chunk_def measure_rtt_def Let_def case_prod_beta split: option.split)

text \<open>The loop over the chunks up to the cumulative TSN of the SACK.\<close>

function ack_cumulative :: "nat \<Rightarrow> u32 \<Rightarrow> u32 \<Rightarrow> acked_bytes \<Rightarrow> association \<Rightarrow> acked_bytes result \<times> association" where
  "ack_cumulative now cum i bytes a =
     (if sna32lte i cum then
        case pq_pop (a_inflight_queue a) i of
          (Some c, q) \<Rightarrow>
            let r = ack_chunk now i c bytes (a\<lparr>a_inflight_queue := q\<rparr>)
            in ack_cumulative now cum (i + 1) (fst r) (snd r)
        | (None, q) \<Rightarrow> (Inl (Err ''ErrInflightQueueTsnPop''), a\<lparr>a_inflight_queue := q\<rparr>)
      else (Inr bytes, a))"
  by pat_completeness auto
termination
  by (relation "measure (\<lambda>(now, cum, i, bytes, a). length (pq_sorted (a_inflight_queue a)))")
    (auto simp: case_prod_beta intro: pq_pop_shorter [OF sym])

declare ack_cumulative.simps [simp del]

definition sack_gap ::
    "nat \<Rightarrow> u32 \<Rightarrow> acked_bytes \<Rightarrow> u32 \<Rightarrow> association \<Rightarrow> (acked_bytes \<times> u32) result \<times> association" where
  "sack_gap now tsn bytes htna a =
     (let (is_existed, is_acked) =
            (case pq_get (a_inflight_queue a) tsn of Some c \<Rightarrow> (True, pd_acked c) | None \<Rightarrow> (False, False));
          (n_bytes_acked, a) =
            (if is_existed \<and> \<not> is_acked then
               let (n, q) = pq_mark_as_acked (a_inflight_queue a) tsn in (int n, a\<lparr>a_inflight_queue := q\<rparr>)
             else (0, a))
      in case pq_get (a_inflight_queue a) tsn of
           Some c \<Rightarrow>
             if \<not> is_acked then
               let bytes = add_acked bytes (pd_stream_identifier c) n_bytes_acked;
                   a = (if pd_nsent c = 1 then measure_rtt a c now else a);
                   htna = (if sna32lt htna tsn then tsn else htna)
               in (Inr (bytes, htna), a)
             else (Inr (bytes, htna), a)
         | None \<Rightarrow> (Inl (Err ''ErrTsnRequestNotExist''), a))"

text \<open>The offsets of the gap ack blocks in the order in which the two loops run through them.\<close>

definition gap_offsets :: "gap_ack_block list \<Rightarrow> nat list" where
  "gap_offsets gs = concat (map (\<lambda>g. [unat (gab_start g)..<Suc (unat (gab_end g))]) gs)"

fun sack_gaps ::
    "nat \<Rightarrow> u32 \<Rightarrow> nat list \<Rightarrow> acked_bytes \<Rightarrow> u32 \<Rightarrow> association \<Rightarrow> (acked_bytes \<times> u32) result \<times> association" where
  "sack_gaps now cum [] bytes htna a = (Inr (bytes, htna), a)"
| "sack_gaps now cum (i # is) bytes htna a =
     (case sack_gap now (cum + of_nat i) bytes htna a of
        (Inl e, a) \<Rightarrow> (Inl e, a)
      | (Inr (bytes, htna), a) \<Rightarrow> sack_gaps now cum is bytes htna a)"

definition process_selective_ack ::
    "association \<Rightarrow> chunk_selective_ack \<Rightarrow> nat \<Rightarrow> (acked_bytes \<times> u32) result \<times> association" where
  "process_selective_ack a d now =
     (case ack_cumulative now (sa_cumulative_tsn_ack d) (a_cumulative_tsn_ack_point a + 1) [] a of
        (Inl e, a) \<Rightarrow> (Inl e, a)
      | (Inr bytes, a) \<Rightarrow>
          sack_gaps now (sa_cumulative_tsn_ack d) (gap_offsets (sa_gap_ack_blocks d)) bytes (sa_cumulative_tsn_ack d) a)"

section \<open>Congestion control\<close>

definition on_cumulative_tsn_ack_point_advanced :: "association \<Rightarrow> int \<Rightarrow> nat \<Rightarrow> association" where
  "on_cumulative_tsn_ack_point_advanced a total_bytes_acked now =
     (let a = (if pq_is_empty (a_inflight_queue a) then a\<lparr>a_timers := tt_stop (a_timers a) T3RTX\<rparr>
               else a\<lparr>a_timers := tt_restart_if_stale (a_timers a) T3RTX now (rm_get_rto (a_rto_mgr a))\<rparr>)
      in if a_cwnd a \<le> a_ssthresh a then
           if \<not> a_in_fast_recovery a \<and> \<not> pn_is_empty (a_pending_queue a)
           then a\<lparr>a_cwnd := a_cwnd a + min (of_int total_bytes_acked) (a_cwnd a)\<rparr>
           else a
         else
           let a = a\<lparr>a_partial_bytes_acked := a_partial_bytes_acked a + of_int total_bytes_acked\<rparr> in
           if a_partial_bytes_acked a \<ge> a_cwnd a \<and> \<not> pn_is_empty (a_pending_queue a) then
             let a = a\<lparr>a_partial_bytes_acked := a_partial_bytes_acked a - a_cwnd a\<rparr>
             in a\<lparr>a_cwnd := a_cwnd a + a_mtu a\<rparr>
           else a)"

text \<open>One chunk of the loop of the fast retransmission.\<close>

definition miss_chunk :: "u32 \<Rightarrow> u32 \<Rightarrow> chunk_payload_data \<Rightarrow> association \<Rightarrow> association" where
  "miss_chunk htna tsn c a =
     (if \<not> pd_acked c \<and> \<not> pd_is_abandoned c \<and> pd_miss_indicator c < 3 then
        let a = a\<lparr>a_inflight_queue := pq_get_mut (a_inflight_queue a) tsn
                    (\<lambda>c. c\<lparr>pd_miss_indicator := pd_miss_indicator c + 1\<rparr>)\<rparr>
        in if pd_miss_indicator c + 1 = 3 \<and> \<not> a_in_fast_recovery a then
             let a = a\<lparr>a_in_fast_recovery := True, a_fast_recover_exit_point := htna\<rparr>;
                 a = a\<lparr>a_ssthresh := max (a_cwnd a div 2) (4 * a_mtu a)\<rparr>;
                 a = a\<lparr>a_cwnd := a_ssthresh a\<rparr>
             in a\<lparr>a_partial_bytes_acked := 0, a_will_retransmit_fast := True\<rparr>
           else a
      else a)"

function miss_loop :: "u32 \<Rightarrow> u32 \<Rightarrow> u32 \<Rightarrow> association \<Rightarrow> unit result \<times> association" where
  "miss_loop htna max_tsn tsn a =
     (if sna32lt tsn max_tsn then
        case pq_get (a_inflight_queue a) tsn of
          Some c \<Rightarrow> miss_loop htna max_tsn (tsn + 1) (miss_chunk htna tsn c a)
        | None \<Rightarrow> (Inl (Err ''ErrTsnRequestNotExist''), a)
      else (Inr (), a))"
  by pat_completeness auto
termination
proof (relation "measure (\<lambda>(htna, max_tsn, tsn, a). unat (max_tsn - tsn))", goal_cases)
  case (2 htna max_tsn tsn a c)
  then have "max_tsn - tsn \<noteq> 0" by (auto simp: tsn.lt_dist)
  then have "unat (max_tsn - tsn - 1) < unat (max_tsn - tsn)"
    by (metis diff_less less_one unat_gt_0 unat_minus_one)
  then show ?case by (simp add: diff_diff_eq)
qed simp

declare miss_loop.simps [simp del]

definition process_fast_retransmission :: "association \<Rightarrow> u32 \<Rightarrow> u32 \<Rightarrow> bool \<Rightarrow> unit result \<times> association" where
  "process_fast_retransmission a cum_tsn_ack_point htna cum_tsn_ack_point_advanced =
     (let r = (if \<not> a_in_fast_recovery a \<or> cum_tsn_ack_point_advanced then
                 let max_tsn = (if \<not> a_in_fast_recovery a then htna
                                else cum_tsn_ack_point + of_nat (pq_len (a_inflight_queue a)) + 1)
                 in miss_loop htna max_tsn (cum_tsn_ack_point + 1) a
               else (Inr (), a))
      in case r of
           (Inl e, a) \<Rightarrow> (Inl e, a)
         | (Inr _, a) \<Rightarrow>
             (Inr (), if a_in_fast_recovery a \<and> cum_tsn_ack_point_advanced
                      then a\<lparr>a_will_retransmit_fast := True\<rparr> else a))"

definition postprocess_sack :: "association \<Rightarrow> association_state \<Rightarrow> nat \<Rightarrow> association" where
  "postprocess_sack a state now =
     (if \<not> pq_is_empty (a_inflight_queue a)
      then a\<lparr>a_timers := tt_restart_if_stale (a_timers a) T3RTX now (rm_get_rto (a_rto_mgr a))\<rparr>
      else if state = ShutdownPending then set_state (a\<lparr>a_will_send_shutdown := True\<rparr>) ShutdownSent
      else if state = ShutdownReceived then set_state (a\<lparr>a_will_send_shutdown_ack := True\<rparr>) ShutdownAckSent
      else a)"

section \<open>SACK\<close>

definition release_step :: "association \<Rightarrow> u16 \<times> int \<Rightarrow> association" where
  "release_step a = (\<lambda>(si, n_bytes_acked).
     case map_of (a_streams a) si of
       Some s \<Rightarrow>
         let (low, s) = ss_on_buffer_released s n_bytes_acked;
             a = a\<lparr>a_streams := AList.update si s (a_streams a)\<rparr>
         in if low then a\<lparr>a_events := a_events a @ [StreamEv (BufferedAmountLow si)]\<rparr> else a
     | None \<Rightarrow> a)"

text \<open>
  The loop that moves the advanced ack point over abandoned chunks. It finds at most as many chunks
  as the queue holds, so the first argument bounds its rounds.
\<close>

fun skip_abandoned :: "nat \<Rightarrow> payload_queue \<Rightarrow> u32 \<Rightarrow> u32" where
  "skip_abandoned 0 q advanced = advanced"
| "skip_abandoned (Suc n) q advanced =
     (case pq_get q (advanced + 1) of
        Some c \<Rightarrow> if pd_is_abandoned c then skip_abandoned n q (advanced + 1) else advanced
      | None \<Rightarrow> advanced)"

definition advance_peer_ack_point :: "association \<Rightarrow> association" where
  "advance_peer_ack_point a =
     (if a_use_forward_tsn a then
        let a = (if sna32lt (a_advanced_peer_tsn_ack_point a) (a_cumulative_tsn_ack_point a)
                 then a\<lparr>a_advanced_peer_tsn_ack_point := a_cumulative_tsn_ack_point a\<rparr> else a);
            a = a\<lparr>a_advanced_peer_tsn_ack_point :=
                    skip_abandoned (length (pq_sorted (a_inflight_queue a))) (a_inflight_queue a)
                      (a_advanced_peer_tsn_ack_point a)\<rparr>
        in if sna32gt (a_advanced_peer_tsn_ack_point a) (a_cumulative_tsn_ack_point a)
           then a\<lparr>a_will_send_forward_tsn := True\<rparr> else a
      else a)"

definition handle_sack :: "association \<Rightarrow> chunk_selective_ack \<Rightarrow> nat \<Rightarrow> packet list result \<times> association" where
  "handle_sack a d now =
     (let state = a_state a in
      if state \<noteq> Established \<and> state \<noteq> ShutdownPending \<and> state \<noteq> ShutdownReceived then (Inr [], a)
      else
        let a = a\<lparr>a_stats := inc_sacks (a_stats a)\<rparr> in
        if sna32gt (a_cumulative_tsn_ack_point a) (sa_cumulative_tsn_ack d) then (Inr [], a)
        else
          case process_selective_ack a d now of
            (Inl e, a) \<Rightarrow> (Inl e, a)
          | (Inr (bytes_acked_per_stream, htna), a) \<Rightarrow>
              let total_bytes_acked = sum_list (map snd bytes_acked_per_stream);
                  advanced = sna32lt (a_cumulative_tsn_ack_point a) (sa_cumulative_tsn_ack d);
                  a = (if advanced then
                         on_cumulative_tsn_ack_point_advanced
                           (a\<lparr>a_cumulative_tsn_ack_point := sa_cumulative_tsn_ack d\<rparr>) total_bytes_acked now
                       else a);
                  a = foldl release_step a bytes_acked_per_stream;
                  bytes_outstanding = of_nat (pq_get_num_bytes (a_inflight_queue a));
                  a = (if bytes_outstanding \<ge> sa_advertised_receiver_window_credit d then a\<lparr>a_rwnd := 0\<rparr>
                       else a\<lparr>a_rwnd := sa_advertised_receiver_window_credit d - bytes_outstanding\<rparr>)
              in case process_fast_retransmission a (sa_cumulative_tsn_ack d) htna advanced of
                   (Inl e, a) \<Rightarrow> (Inl e, a)
                 | (Inr _, a) \<Rightarrow> (Inr [], postprocess_sack (advance_peer_ack_point a) state now))"

section \<open>The chunks in flight\<close>

text \<open>\<open>n\<close> chunks with consecutive TSNs from \<open>base\<close> on.\<close>

definition flight_ok :: "u32 \<Rightarrow> nat \<Rightarrow> payload_queue \<Rightarrow> bool" where
  "flight_ok base n q \<longleftrightarrow>
     n < 2147483648 \<and> pq_inv base q \<and> dom (pq_chunk_map q) = tsn_at base ` {..<n}"

lemma tsn_at_add: "tsn_at (tsn_at base m) k = tsn_at base (m + k)"
  by (simp add: tsn_at_def add.assoc)

lemma tsn_at_0 [simp]: "tsn_at base 0 = base"
  by (simp add: tsn_at_def)

lemma flight_mem:
  assumes "flight_ok base n q" "k < 2147483648"
  shows "tsn_at base k \<in> dom (pq_chunk_map q) \<longleftrightarrow> k < n"
proof -
  have "tsn_at base k = tsn_at base j \<longleftrightarrow> k = j" if "j < n" for j
    using that assms by (intro tsn_at_eq) (auto simp: flight_ok_def)
  then show ?thesis using assms(1) by (auto simp: flight_ok_def)
qed

lemma flight_pop:
  assumes "flight_ok base (Suc n) q"
  obtains c q' where "pq_pop q base = (Some c, q')" "flight_ok (base + 1) n q'"
    "pq_chunk_map q' = (pq_chunk_map q)(base := None)"
proof -
  have inv: "pq_inv base q" using assms by (simp add: flight_ok_def)
  note pop = pq_pop_base [OF inv]
  have "base \<in> dom (pq_chunk_map q)" using flight_mem [OF assms, of 0] by simp
  then obtain c where c: "fst (pq_pop q base) = Some c" using pop(1) by auto
  have "tsn_at base ` ({..<Suc n} - {0}) = tsn_at base ` {..<Suc n} - {tsn_at base 0}"
    using assms by (intro tsn_at_remove) (auto simp: flight_ok_def)
  moreover have "{..<Suc n} - {0} = Suc ` {..<n}" by (auto simp: lessThan_Suc_eq_insert_0)
  ultimately have "dom ((pq_chunk_map q)(base := None)) = tsn_at base ` Suc ` {..<n}"
    using assms by (simp add: flight_ok_def)
  also have "\<dots> = tsn_at (base + 1) ` {..<n}" by (simp add: image_image tsn_at_def algebra_simps)
  finally have "flight_ok (base + 1) n (snd (pq_pop q base))"
    using pop(2,3) assms by (simp add: flight_ok_def)
  then show ?thesis using that [of c "snd (pq_pop q base)"] c pop(3) by (metis prod.collapse)
qed

text \<open>The fields that the processing of acknowledgements leaves alone.\<close>

definition same_ack :: "association \<Rightarrow> association \<Rightarrow> bool" where
  "same_ack a b \<longleftrightarrow>
     a_my_next_tsn b = a_my_next_tsn a \<and> a_cumulative_tsn_ack_point b = a_cumulative_tsn_ack_point a \<and>
     a_state b = a_state a \<and> a_pending_queue b = a_pending_queue a \<and> a_streams b = a_streams a \<and>
     a_mtu b = a_mtu a \<and> a_cwnd b = a_cwnd a \<and> a_ssthresh b = a_ssthresh a"

lemma same_ack_refl: "same_ack a a" by (simp add: same_ack_def)

lemma same_ack_trans: "same_ack a b \<Longrightarrow> same_ack b c \<Longrightarrow> same_ack a c"
  by (simp add: same_ack_def)

lemma ack_chunk_same: "same_ack (a\<lparr>a_inflight_queue := q\<rparr>) b \<Longrightarrow> same_ack a b"
  by (simp add: same_ack_def)

lemma measure_rtt_same: "same_ack a (measure_rtt a c now)"
  by (simp add: measure_rtt_def same_ack_def Let_def split: option.split)

lemma measure_rtt_inflight [simp]: "a_inflight_queue (measure_rtt a c now) = a_inflight_queue a"
  by (simp add: measure_rtt_def Let_def split: option.split)

lemma ack_chunk_frame: "same_ack a (snd (ack_chunk now i c bytes a))"
  by (simp add: ack_chunk_def same_ack_def Let_def measure_rtt_def case_prod_beta split: option.split)

lemma ack_cumulative_ok:
  assumes "flight_ok base n (a_inflight_queue a)" "m \<le> n" "cum + 1 = tsn_at base m"
  shows "\<exists>bytes' b. ack_cumulative now cum base bytes a = (Inr bytes', b) \<and> same_ack a b \<and>
    flight_ok (tsn_at base m) (n - m) (a_inflight_queue b) \<and>
    (\<forall>k < n - m. pq_chunk_map (a_inflight_queue b) (tsn_at base (m + k)) = pq_chunk_map (a_inflight_queue a) (tsn_at base (m + k)))"
  using assms
proof (induction m arbitrary: base n a bytes)
  case 0
  have "sna32gt base cum" using 0(3) by (simp add: tsn.gt_window tsn.window_def)
  then have "\<not> sna32lte base cum" by (simp add: tsn.gt_lte)
  then show ?case using 0 by (subst ack_cumulative.simps) (simp add: same_ack_refl)
next
  case (Suc m)
  then obtain n' where n': "n = Suc n'" by (cases n) auto
  with Suc.prems(1) have fl: "flight_ok base (Suc n') (a_inflight_queue a)" by simp
  obtain c q where p: "pq_pop (a_inflight_queue a) base = (Some c, q)" "flight_ok (base + 1) n' q"
    "pq_chunk_map q = (pq_chunk_map (a_inflight_queue a))(base := None)"
    using flight_pop [OF fl] .
  have "unat (cum - base) = m"
  proof -
    have "cum = tsn_at base m" using Suc.prems(3) by (simp add: tsn_at_def)
    then show ?thesis using tsn_at_diff [of 0 m base] fl Suc.prems(2) n' by (simp add: flight_ok_def)
  qed
  then have le: "sna32lte base cum" using Suc.prems(2) fl n' by (simp add: tsn.lte_lt tsn.lt_dist flight_ok_def)
  let ?r = "ack_chunk now base c bytes (a\<lparr>a_inflight_queue := q\<rparr>)"
  have "flight_ok (base + 1) n' (a_inflight_queue (snd ?r))" using p(2) by simp
  moreover have "cum + 1 = tsn_at (base + 1) m" using Suc.prems(3) by (simp add: tsn_at_def)
  ultimately obtain bytes' b where IH: "ack_cumulative now cum (base + 1) (fst ?r) (snd ?r) = (Inr bytes', b)"
    "same_ack (snd ?r) b" "flight_ok (tsn_at (base + 1) m) (n' - m) (a_inflight_queue b)"
    "\<forall>k < n' - m. pq_chunk_map (a_inflight_queue b) (tsn_at (base + 1) (m + k)) = pq_chunk_map q (tsn_at (base + 1) (m + k))"
    using Suc.IH [of "base + 1" n' "snd ?r" "fst ?r"] Suc.prems(2) n' by (simp split: if_splits) blast
  have e: "tsn_at (base + 1) k = tsn_at base (Suc k)" for k by (simp add: tsn_at_def)
  have "tsn_at base (Suc (m + k)) \<noteq> base" if "k < n' - m" for k
  proof -
    have "Suc (m + k) < 2147483648" using that fl unfolding flight_ok_def by linarith
    then show ?thesis using tsn_at_eq [of "Suc (m + k)" 0 base] by simp
  qed
  then have "\<forall>k < n - Suc m. pq_chunk_map (a_inflight_queue b) (tsn_at base (Suc m + k)) =
      pq_chunk_map (a_inflight_queue a) (tsn_at base (Suc m + k))"
    using IH(4) p(3) n' by (simp add: e)
  moreover have "ack_cumulative now cum base bytes a = (Inr bytes', b)"
    using le p(1) IH(1) by (subst ack_cumulative.simps) simp
  moreover have "same_ack a b"
    using same_ack_trans [OF ack_chunk_frame IH(2)] ack_chunk_same by blast
  ultimately show ?case using IH(3) n' by (simp add: e)
qed

text \<open>Acknowledged chunks of the queue.\<close>

definition acked_at :: "payload_queue \<Rightarrow> u32 \<Rightarrow> bool" where
  "acked_at q t \<longleftrightarrow> (\<exists>c. pq_chunk_map q t = Some c \<and> pd_acked c)"

lemma mark_as_acked_at:
  assumes "t \<in> dom (pq_chunk_map q)"
  shows "acked_at (snd (pq_mark_as_acked q t)) u \<longleftrightarrow> acked_at q u \<or> u = t"
    and "dom (pq_chunk_map (snd (pq_mark_as_acked q t))) = dom (pq_chunk_map q)"
  using assms by (auto simp: pq_mark_as_acked_def acked_at_def Let_def split: if_splits)

lemma sack_gap_ok:
  assumes "flight_ok base n (a_inflight_queue a)" "t \<in> dom (pq_chunk_map (a_inflight_queue a))"
  shows "\<exists>bytes' b. sack_gap now t bytes htna a = (Inr (bytes', if \<not> acked_at (a_inflight_queue a) t \<and> sna32lt htna t then t else htna), b) \<and>
    same_ack a b \<and> flight_ok base n (a_inflight_queue b) \<and>
    (\<forall>u. acked_at (a_inflight_queue b) u \<longleftrightarrow> acked_at (a_inflight_queue a) u \<or> u = t)"
proof -
  let ?q = "a_inflight_queue a"
  obtain c where c: "pq_chunk_map ?q t = Some c" using assms(2) by auto
  show ?thesis
  proof (cases "pd_acked c")
    case True
    then have "sack_gap now t bytes htna a = (Inr (bytes, htna), a)"
      using c by (simp add: sack_gap_def pq_get_def)
    moreover have "acked_at ?q t" using c True by (simp add: acked_at_def)
    ultimately show ?thesis using assms(1) same_ack_refl by auto
  next
    case False
    let ?p = "snd (pq_mark_as_acked ?q t)" and ?b = "a\<lparr>a_inflight_queue := snd (pq_mark_as_acked ?q t)\<rparr>"
    obtain c' where c': "pq_chunk_map ?p t = Some c'" using mark_as_acked_at(2) [OF assms(2)] assms(2) by (metis domD)
    have "flight_ok base n ?p"
      using assms mark_as_acked_at(2) [OF assms(2)] pq_mark_as_acked_inv [of base ?q t] by (simp add: flight_ok_def)
    moreover define r where "r = (if pd_nsent c' = 1 then measure_rtt ?b c' now else ?b)"
    then have "a_inflight_queue r = ?p" by simp
    moreover have "\<exists>bytes'. sack_gap now t bytes htna a = (Inr (bytes', if sna32lt htna t then t else htna), r)"
      using c c' False by (simp add: sack_gap_def pq_get_def case_prod_beta Let_def r_def)
    moreover have "same_ack a r"
      using measure_rtt_same [of ?b c' now] by (simp add: same_ack_def r_def)
    moreover have "\<not> acked_at ?q t" using c False by (simp add: acked_at_def)
    ultimately show ?thesis using mark_as_acked_at(1) [OF assms(2)] by auto
  qed
qed

lemma sack_gap_missing:
  "t \<notin> dom (pq_chunk_map (a_inflight_queue a)) \<Longrightarrow> sack_gap now t bytes htna a = (Inl (Err ''ErrTsnRequestNotExist''), a)"
  by (auto simp: sack_gap_def pq_get_def domIff)

text \<open>The highest newly acknowledged TSN is the cumulative one or one of the gaps.\<close>

lemma sack_gaps_ok:
  assumes "flight_ok base n (a_inflight_queue a)" "\<forall>i \<in> set is. cum + of_nat i \<in> dom (pq_chunk_map (a_inflight_queue a))"
  shows "\<exists>bytes' htna' b. sack_gaps now cum is bytes htna a = (Inr (bytes', htna'), b) \<and> same_ack a b \<and>
    flight_ok base n (a_inflight_queue b) \<and> (htna' = htna \<or> (\<exists>i \<in> set is. htna' = cum + of_nat i)) \<and>
    (\<forall>u. acked_at (a_inflight_queue b) u \<longleftrightarrow> acked_at (a_inflight_queue a) u \<or> (\<exists>i \<in> set is. u = cum + of_nat i))"
  using assms
proof (induction "is" arbitrary: bytes htna a)
  case (Cons i "is")
  let ?t = "cum + of_nat i"
  obtain bytes1 h1 a1 where g: "sack_gap now ?t bytes htna a = (Inr (bytes1, h1), a1)" "h1 = ?t \<or> h1 = htna"
    "same_ack a a1" "flight_ok base n (a_inflight_queue a1)"
    "\<forall>u. acked_at (a_inflight_queue a1) u \<longleftrightarrow> acked_at (a_inflight_queue a) u \<or> u = ?t"
    using sack_gap_ok [OF Cons.prems(1), of ?t now bytes htna] Cons.prems(2) by (force split: if_splits)
  have "dom (pq_chunk_map (a_inflight_queue a1)) = dom (pq_chunk_map (a_inflight_queue a))"
    using g(4) Cons.prems(1) by (simp add: flight_ok_def)
  with Cons.IH [OF g(4), of bytes1 h1] Cons.prems(2) obtain bytes' htna' b where
    IH: "sack_gaps now cum is bytes1 h1 a1 = (Inr (bytes', htna'), b)" "same_ack a1 b"
    "flight_ok base n (a_inflight_queue b)" "htna' = h1 \<or> (\<exists>i \<in> set is. htna' = cum + of_nat i)"
    "\<forall>u. acked_at (a_inflight_queue b) u \<longleftrightarrow> acked_at (a_inflight_queue a1) u \<or> (\<exists>i \<in> set is. u = cum + of_nat i)"
    by auto
  have "sack_gaps now cum (i # is) bytes htna a = (Inr (bytes', htna'), b)" using g(1) IH(1) by simp
  moreover have "same_ack a b" using same_ack_trans [OF g(3) IH(2)] .
  moreover have "htna' = htna \<or> (\<exists>i \<in> set (i # is). htna' = cum + of_nat i)" using g(2) IH(4) by auto
  moreover have "\<forall>u. acked_at (a_inflight_queue b) u \<longleftrightarrow> acked_at (a_inflight_queue a) u \<or> (\<exists>i \<in> set (i # is). u = cum + of_nat i)"
    using g(5) IH(5) by auto
  ultimately show ?case using IH(3) by blast
qed (simp add: same_ack_refl)

lemma sack_gaps_missing:
  assumes "flight_ok base n (a_inflight_queue a)" "\<exists>i \<in> set is. cum + of_nat i \<notin> dom (pq_chunk_map (a_inflight_queue a))"
  shows "\<exists>b. sack_gaps now cum is bytes htna a = (Inl (Err ''ErrTsnRequestNotExist''), b)"
  using assms
proof (induction "is" arbitrary: bytes htna a)
  case (Cons i "is")
  show ?case
  proof (cases "cum + of_nat i \<in> dom (pq_chunk_map (a_inflight_queue a))")
    case True
    obtain bytes1 h1 a1 where g: "sack_gap now (cum + of_nat i) bytes htna a = (Inr (bytes1, h1), a1)"
      "flight_ok base n (a_inflight_queue a1)"
      using sack_gap_ok [OF Cons.prems(1) True, of now bytes htna] by blast
    moreover have "dom (pq_chunk_map (a_inflight_queue a1)) = dom (pq_chunk_map (a_inflight_queue a))"
      using g(2) Cons.prems(1) by (simp add: flight_ok_def)
    ultimately show ?thesis using Cons.IH [OF g(2)] Cons.prems(2) True by auto
  qed (use sack_gap_missing in simp)
qed simp

section \<open>Frames\<close>

lemma on_advanced_frame [simp]:
  "a_inflight_queue (on_cumulative_tsn_ack_point_advanced a t now) = a_inflight_queue a"
  "a_my_next_tsn (on_cumulative_tsn_ack_point_advanced a t now) = a_my_next_tsn a"
  "a_cumulative_tsn_ack_point (on_cumulative_tsn_ack_point_advanced a t now) = a_cumulative_tsn_ack_point a"
  "a_state (on_cumulative_tsn_ack_point_advanced a t now) = a_state a"
  by (simp_all add: on_cumulative_tsn_ack_point_advanced_def Let_def)

lemma release_step_frame [simp]:
  "a_inflight_queue (release_step a x) = a_inflight_queue a"
  "a_my_next_tsn (release_step a x) = a_my_next_tsn a"
  "a_cumulative_tsn_ack_point (release_step a x) = a_cumulative_tsn_ack_point a"
  "a_state (release_step a x) = a_state a"
  by (simp_all add: release_step_def Let_def case_prod_beta split: option.split)

lemma release_steps_frame [simp]:
  "a_inflight_queue (foldl release_step a xs) = a_inflight_queue a"
  "a_my_next_tsn (foldl release_step a xs) = a_my_next_tsn a"
  "a_cumulative_tsn_ack_point (foldl release_step a xs) = a_cumulative_tsn_ack_point a"
  "a_state (foldl release_step a xs) = a_state a"
  by (induction xs arbitrary: a) simp_all

lemma advance_peer_ack_point_frame [simp]:
  "a_inflight_queue (advance_peer_ack_point a) = a_inflight_queue a"
  "a_my_next_tsn (advance_peer_ack_point a) = a_my_next_tsn a"
  "a_cumulative_tsn_ack_point (advance_peer_ack_point a) = a_cumulative_tsn_ack_point a"
  "a_rwnd (advance_peer_ack_point a) = a_rwnd a"
  by (simp_all add: advance_peer_ack_point_def Let_def)

lemma postprocess_sack_frame [simp]:
  "a_inflight_queue (postprocess_sack a s now) = a_inflight_queue a"
  "a_my_next_tsn (postprocess_sack a s now) = a_my_next_tsn a"
  "a_cumulative_tsn_ack_point (postprocess_sack a s now) = a_cumulative_tsn_ack_point a"
  "a_rwnd (postprocess_sack a s now) = a_rwnd a"
  by (simp_all add: postprocess_sack_def set_state_def)

lemma pq_get_mut_frame:
  assumes "\<And>c. pd_tsn (f c) = pd_tsn c" "\<And>c. pd_user_data (f c) = pd_user_data c" "\<And>c. pd_acked (f c) = pd_acked c"
  shows "acked_at (pq_get_mut q t f) u = acked_at q u" "flight_ok base n q \<Longrightarrow> flight_ok base n (pq_get_mut q t f)"
    "pq_n_bytes (pq_get_mut q t f) = pq_n_bytes q"
proof -
  show "acked_at (pq_get_mut q t f) u = acked_at q u" "pq_n_bytes (pq_get_mut q t f) = pq_n_bytes q"
    using assms(3) by (auto simp: acked_at_def pq_get_mut_def split: option.split)
  have "dom (pq_chunk_map (pq_get_mut q t f)) = dom (pq_chunk_map q)"
    by (auto simp: pq_get_mut_def split: option.split if_splits)
  then show "flight_ok base n (pq_get_mut q t f)" if "flight_ok base n q"
    using that pq_get_mut_inv [of base q f t] assms(1,2) by (simp add: flight_ok_def)
qed

lemma miss_chunk_frame:
  "a_my_next_tsn (miss_chunk htna t c a) = a_my_next_tsn a"
  "a_cumulative_tsn_ack_point (miss_chunk htna t c a) = a_cumulative_tsn_ack_point a"
  "a_state (miss_chunk htna t c a) = a_state a"
  "a_rwnd (miss_chunk htna t c a) = a_rwnd a"
  by (simp_all add: miss_chunk_def Let_def)

lemma miss_chunk_queue:
  assumes "flight_ok base n (a_inflight_queue a)"
  shows "flight_ok base n (a_inflight_queue (miss_chunk htna t c a))"
    "acked_at (a_inflight_queue (miss_chunk htna t c a)) u = acked_at (a_inflight_queue a) u"
    "pq_n_bytes (a_inflight_queue (miss_chunk htna t c a)) = pq_n_bytes (a_inflight_queue a)"
  using assms pq_get_mut_frame [of "\<lambda>c. c\<lparr>pd_miss_indicator := pd_miss_indicator c + 1\<rparr>"]
  by (simp_all add: miss_chunk_def Let_def)

definition same_flow :: "u32 \<Rightarrow> nat \<Rightarrow> association \<Rightarrow> association \<Rightarrow> bool" where
  "same_flow base n a b \<longleftrightarrow>
     a_my_next_tsn b = a_my_next_tsn a \<and> a_cumulative_tsn_ack_point b = a_cumulative_tsn_ack_point a \<and>
     a_state b = a_state a \<and> a_rwnd b = a_rwnd a \<and> flight_ok base n (a_inflight_queue b) \<and>
     acked_at (a_inflight_queue b) = acked_at (a_inflight_queue a) \<and>
     pq_n_bytes (a_inflight_queue b) = pq_n_bytes (a_inflight_queue a)"

lemma miss_loop_ok:
  assumes "flight_ok base n (a_inflight_queue a)" "j \<le> k" "k \<le> n"
  shows "\<exists>b. miss_loop htna (tsn_at base k) (tsn_at base j) a = (Inr (), b) \<and> same_flow base n a b"
  using assms
proof (induction "k - j" arbitrary: j a)
  case 0
  then have "j = k" by simp
  then show ?case using 0(2) by (subst miss_loop.simps) (simp add: tsn.lt_dist same_flow_def)
next
  case (Suc x)
  have x: "x = k - Suc j" using Suc.hyps(2) by simp
  have lt: "j < k" "k < 2147483648" using Suc.hyps(2) Suc.prems(1,3) by (auto simp: flight_ok_def)
  have "sna32lt (tsn_at base j) (tsn_at base k)"
    using tsn_at_diff [of j k base] lt tsn_at_eq [of j k base] by (simp add: tsn.lt_dist)
  moreover have "tsn_at base j \<in> dom (pq_chunk_map (a_inflight_queue a))"
    using flight_mem [OF Suc.prems(1), of j] lt Suc.prems(3) by simp
  then obtain c where c: "pq_chunk_map (a_inflight_queue a) (tsn_at base j) = Some c" by blast
  let ?a = "miss_chunk htna (tsn_at base j) c a"
  have "flight_ok base n (a_inflight_queue ?a)" using miss_chunk_queue(1) [OF Suc.prems(1)] .
  with Suc.hyps(1) [OF x, of ?a] lt Suc.prems(3) obtain b where
    b: "miss_loop htna (tsn_at base k) (tsn_at base (Suc j)) ?a = (Inr (), b)" "same_flow base n ?a b" by auto
  ultimately have "miss_loop htna (tsn_at base k) (tsn_at base j) a = (Inr (), b)"
    using c by (subst miss_loop.simps) (simp add: pq_get_def tsn_at_Suc)
  moreover have "same_flow base n a b"
    using b(2) miss_chunk_frame miss_chunk_queue [OF Suc.prems(1)] by (auto simp: same_flow_def)
  ultimately show ?case by blast
qed

lemma flight_len: "flight_ok base n q \<Longrightarrow> pq_len q = n"
proof -
  assume f: "flight_ok base n q"
  then have "inj_on (tsn_at base) {..<n}" by (intro inj_onI) (auto simp: flight_ok_def tsn_at_eq)
  with f show ?thesis by (simp add: pq_len_def flight_ok_def card_image)
qed

lemma process_fast_retransmission_ok:
  assumes "flight_ok (cum + 1) n (a_inflight_queue a)" "htna = cum \<or> (\<exists>k < n. htna = tsn_at (cum + 1) k)"
  shows "\<exists>b. process_fast_retransmission a cum htna adv = (Inr (), b) \<and> same_flow (cum + 1) n a b"
proof -
  let ?max = "if \<not> a_in_fast_recovery a then htna else cum + of_nat (pq_len (a_inflight_queue a)) + 1"
  have refl: "same_flow (cum + 1) n a a" using assms(1) by (simp add: same_flow_def)
  have "\<exists>b. miss_loop htna ?max (cum + 1) a = (Inr (), b) \<and> same_flow (cum + 1) n a b"
  proof (cases "\<not> a_in_fast_recovery a \<and> htna = cum")
    case True
    have "\<not> sna32lt (cum + 1) cum" using tsn.lt_asym tsn.lt_Suc by blast
    then have "miss_loop htna ?max (cum + 1) a = (Inr (), a)" using True by (subst miss_loop.simps) simp
    then show ?thesis using refl by blast
  next
    case False
    have "?max = tsn_at (cum + 1) n" if "a_in_fast_recovery a"
      using that flight_len [OF assms(1)] by (simp add: tsn_at_def add_ac)
    then obtain k where "k \<le> n" "?max = tsn_at (cum + 1) k" using False assms(2) by (cases "a_in_fast_recovery a") (auto dest!: less_imp_le)
    then show ?thesis using miss_loop_ok [OF assms(1), of 0 k htna] by simp
  qed
  then obtain b where b: "miss_loop htna ?max (cum + 1) a = (Inr (), b)" "same_flow (cum + 1) n a b" by blast
  show ?thesis
  proof (cases "\<not> a_in_fast_recovery a \<or> adv")
    case True
    then have "process_fast_retransmission a cum htna adv =
        (Inr (), if a_in_fast_recovery b \<and> adv then b\<lparr>a_will_retransmit_fast := True\<rparr> else b)"
      using b(1) by (simp only: process_fast_retransmission_def Let_def if_True prod.case sum.case)
    with b(2) show ?thesis by (auto simp: same_flow_def)
  qed (use refl in \<open>auto simp: process_fast_retransmission_def\<close>)
qed

text \<open>
  The bound of \<open>skip_abandoned\<close> is enough: where it stops there is no further abandoned chunk.
\<close>

lemma skip_abandoned_run:
  "\<exists>j \<le> n. skip_abandoned n q t = tsn_at t j \<and> (\<forall>i < j. tsn_at t (Suc i) \<in> dom (pq_chunk_map q)) \<and>
     (j < n \<longrightarrow> \<not> (\<exists>c. pq_get q (tsn_at t j + 1) = Some c \<and> pd_is_abandoned c))"
proof (induction n arbitrary: t)
  case (Suc n)
  show ?case
  proof (cases "\<exists>c. pq_get q (t + 1) = Some c \<and> pd_is_abandoned c")
    case True
    from Suc.IH [of "t + 1"] obtain j where j: "j \<le> n" "skip_abandoned n q (t + 1) = tsn_at t (Suc j)"
      "\<forall>i < j. tsn_at t (Suc (Suc i)) \<in> dom (pq_chunk_map q)"
      "j < n \<longrightarrow> \<not> (\<exists>c. pq_get q (tsn_at t (Suc j) + 1) = Some c \<and> pd_is_abandoned c)"
      by (auto simp: tsn_at_def add.assoc)
    moreover have "tsn_at t (Suc i) \<in> dom (pq_chunk_map q)" if "i < Suc j" for i
      using that j(3) True by (cases i) (auto simp: pq_get_def tsn_at_def)
    ultimately show ?thesis using True by (intro exI [of _ "Suc j"]) auto
  qed (intro exI [of _ 0], auto split: option.split)
qed simp

lemma skip_abandoned_done:
  assumes "pq_inv base q"
  shows "\<not> (\<exists>c. pq_get q (skip_abandoned (length (pq_sorted q)) q t + 1) = Some c \<and> pd_is_abandoned c)"
proof
  let ?n = "length (pq_sorted q)"
  assume stop: "\<exists>c. pq_get q (skip_abandoned ?n q t + 1) = Some c \<and> pd_is_abandoned c"
  obtain j where j: "j \<le> ?n" "skip_abandoned ?n q t = tsn_at t j" "\<forall>i < j. tsn_at t (Suc i) \<in> dom (pq_chunk_map q)"
    "j < ?n \<longrightarrow> \<not> (\<exists>c. pq_get q (tsn_at t j + 1) = Some c \<and> pd_is_abandoned c)"
    using skip_abandoned_run by blast
  have n: "j = ?n" using j stop by (metis le_neq_implies_less)
  have sub: "tsn_at t ` {1..Suc ?n} \<subseteq> dom (pq_chunk_map q)"
  proof (rule image_subsetI)
    fix k assume k: "k \<in> {1..Suc ?n}"
    then obtain i where i: "k = Suc i" by (cases k) auto
    have "tsn_at t (Suc ?n) \<in> dom (pq_chunk_map q)" using stop j(2) n by (auto simp: pq_get_def tsn_at_Suc)
    with j(3) n i k show "tsn_at t k \<in> dom (pq_chunk_map q)" by (cases "i < ?n") auto
  qed
  have dom: "dom (pq_chunk_map q) = set (pq_sorted q)" "card (set (pq_sorted q)) = ?n"
    using assms distinct_card [of "pq_sorted q"] by (simp_all add: pq_inv_def)
  have "unat (x - base) < 2147483648" if "x \<in> set (pq_sorted q)" for x
    using assms that by (simp add: pq_inv_def tsn.window_def)
  then have "(\<lambda>x. unat (x - base)) ` set (pq_sorted q) \<subseteq> {..<2147483648}" by blast
  moreover have "inj_on (\<lambda>x. unat (x - base)) (set (pq_sorted q))"
    by (rule inj_onI) (metis diff_add_cancel word_unat_eq_iff)
  ultimately have "?n \<le> 2147483648" using card_inj_on_le [of _ _ "{..<2147483648 :: nat}"] dom(2) by fastforce
  then have "inj_on (tsn_at t) {1..Suc ?n}"
  proof (intro inj_onI)
    fix x y assume *: "?n \<le> 2147483648" "x \<in> {1..Suc ?n}" "y \<in> {1..Suc ?n}" "tsn_at t x = tsn_at t y"
    then have "x - 0 = unat (tsn_at t x - tsn_at t 0)" by (intro tsn_at_diff [symmetric]) auto
    also have "\<dots> = y - 0" unfolding *(4) using * by (intro tsn_at_diff) auto
    finally show "x = y" by simp
  qed
  from card_image [OF this] card_mono [OF _ sub] dom show False by simp
qed

section \<open>Which SACKs are accepted\<close>

text \<open>The invariant of a sender with \<open>n\<close> chunks in flight.\<close>

definition sender_ok :: "nat \<Rightarrow> association \<Rightarrow> bool" where
  "sender_ok n a \<longleftrightarrow>
     flight_ok (a_cumulative_tsn_ack_point a + 1) n (a_inflight_queue a) \<and>
     a_my_next_tsn a = tsn_at (a_cumulative_tsn_ack_point a + 1) n"

text \<open>A SACK that moves the cumulative TSN by \<open>m\<close> and whose gaps name only chunks in flight.\<close>

definition sack_covers :: "nat \<Rightarrow> nat \<Rightarrow> chunk_selective_ack \<Rightarrow> bool" where
  "sack_covers n m d \<longleftrightarrow> m \<le> n \<and> (\<forall>i \<in> set (gap_offsets (sa_gap_ack_blocks d)). 0 < i \<and> i \<le> n - m)"

lemma ack_cumulative_beyond:
  assumes "flight_ok base n (a_inflight_queue a)" "n < m" "m < 2147483648" "cum + 1 = tsn_at base m"
  shows "\<exists>b. ack_cumulative now cum base bytes a = (Inl (Err ''ErrInflightQueueTsnPop''), b)"
  using assms
proof (induction n arbitrary: base m a bytes)
  case 0
  then obtain k where k: "m = Suc k" by (cases m) auto
  have "cum = tsn_at base k" using 0(4) k by (simp add: tsn_at_def)
  then have "unat (cum - base) = k" using tsn_at_diff [of 0 k base] 0(3) k by simp
  then have "sna32lte base cum" using 0(3) k by (simp add: tsn.lte_lt tsn.lt_dist)
  moreover have "pq_chunk_map (a_inflight_queue a) base = None" using flight_mem [OF 0(1), of 0] by auto
  then have "pq_pop (a_inflight_queue a) base = (None, a_inflight_queue a)"
    using 0(1) by (intro pq_pop_missing [of base]) (simp_all add: flight_ok_def)
  ultimately show ?case by (subst ack_cumulative.simps) simp
next
  case (Suc n)
  then obtain k where k: "m = Suc k" by (cases m) auto
  obtain c q where p: "pq_pop (a_inflight_queue a) base = (Some c, q)" "flight_ok (base + 1) n q"
    using flight_pop [OF Suc.prems(1)] by blast
  have "cum = tsn_at base k" using Suc.prems(4) k by (simp add: tsn_at_def)
  then have "unat (cum - base) = k" using tsn_at_diff [of 0 k base] Suc.prems(3) k by simp
  then have "sna32lte base cum" using Suc.prems(3) k by (simp add: tsn.lte_lt tsn.lt_dist)
  moreover have "cum + 1 = tsn_at (base + 1) k" using Suc.prems(4) k by (simp add: tsn_at_def)
  ultimately show ?case
    using Suc.IH [of "base + 1" "snd (ack_chunk now base c bytes (a\<lparr>a_inflight_queue := q\<rparr>))" k] Suc.prems p k
    by (subst ack_cumulative.simps) (simp add: Let_def)
qed

lemma gap_in_flight:
  assumes "flight_ok (cum + 1) n q" "i < 2147483648"
  shows "cum + of_nat i \<in> dom (pq_chunk_map q) \<longleftrightarrow> 0 < i \<and> i \<le> n"
proof (cases i)
  case 0
  have "cum \<noteq> tsn_at (cum + 1) k" if "k < n" for k
  proof
    assume "cum = tsn_at (cum + 1) k"
    then have "tsn_at cum (Suc k) = tsn_at cum 0" by (simp add: tsn_at_def)
    then show False using tsn_at_diff [of 0 "Suc k" cum] that assms(1) by (simp add: flight_ok_def)
  qed
  then show ?thesis using 0 assms(1) by (auto simp: flight_ok_def)
next
  case (Suc k)
  then have "cum + of_nat i = tsn_at (cum + 1) k" by (simp add: tsn_at_def)
  then show ?thesis using flight_mem [OF assms(1), of k] assms(2) Suc by auto
qed

lemma gap_offsets_bound: "i \<in> set (gap_offsets gs) \<Longrightarrow> i < 65536"
proof -
  assume "i \<in> set (gap_offsets gs)"
  then obtain g where "g \<in> set gs" "i \<le> unat (gab_end g)" by (auto simp: gap_offsets_def)
  moreover have "unat (gab_end g) < 65536" using unsigned_less [of "gab_end g"] by simp
  ultimately show ?thesis by simp
qed

lemma process_selective_ack_ok:
  assumes ok: "sender_ok n a" and cov: "sack_covers n m d"
    and cum: "sa_cumulative_tsn_ack d = a_cumulative_tsn_ack_point a + of_nat m"
  defines "C \<equiv> sa_cumulative_tsn_ack d"
  shows "\<exists>bytes htna b. process_selective_ack a d now = (Inr (bytes, htna), b) \<and> same_ack a b \<and>
    flight_ok (C + 1) (n - m) (a_inflight_queue b) \<and> (htna = C \<or> (\<exists>k < n - m. htna = tsn_at (C + 1) k)) \<and>
    (\<forall>k < n - m. acked_at (a_inflight_queue b) (tsn_at (C + 1) k) \<longleftrightarrow>
       acked_at (a_inflight_queue a) (tsn_at (C + 1) k) \<or> Suc k \<in> set (gap_offsets (sa_gap_ack_blocks d)))"
proof -
  let ?b = "a_cumulative_tsn_ack_point a + 1" and ?is = "gap_offsets (sa_gap_ack_blocks d)"
  have fl: "flight_ok ?b n (a_inflight_queue a)" and m: "m \<le> n" using ok cov by (simp_all add: sender_ok_def sack_covers_def)
  have C: "C + 1 = tsn_at ?b m" by (simp add: C_def cum tsn_at_def)
  obtain bytes1 a1 where a1: "ack_cumulative now C ?b [] a = (Inr bytes1, a1)" "same_ack a a1"
    "flight_ok (C + 1) (n - m) (a_inflight_queue a1)"
    "\<forall>k < n - m. pq_chunk_map (a_inflight_queue a1) (tsn_at ?b (m + k)) = pq_chunk_map (a_inflight_queue a) (tsn_at ?b (m + k))"
    using ack_cumulative_ok [OF fl m C] unfolding C by blast
  have small: "i < 2147483648" if "i \<in> set ?is" for i using gap_offsets_bound [OF that] by simp
  have "\<forall>i \<in> set ?is. C + of_nat i \<in> dom (pq_chunk_map (a_inflight_queue a1))"
    using gap_in_flight [OF a1(3) small] cov by (simp add: sack_covers_def)
  from sack_gaps_ok [OF a1(3) this] obtain bytes htna b where
    g: "sack_gaps now C ?is bytes1 C a1 = (Inr (bytes, htna), b)" "same_ack a1 b" "flight_ok (C + 1) (n - m) (a_inflight_queue b)"
    "htna = C \<or> (\<exists>i \<in> set ?is. htna = C + of_nat i)"
    "\<forall>u. acked_at (a_inflight_queue b) u \<longleftrightarrow> acked_at (a_inflight_queue a1) u \<or> (\<exists>i \<in> set ?is. u = C + of_nat i)"
    by blast
  have e: "C + of_nat i = tsn_at (C + 1) (i - 1)" "i - 1 < n - m" if "i \<in> set ?is" for i
    using cov that by (cases i; force simp: sack_covers_def tsn_at_def)+
  have "process_selective_ack a d now = (Inr (bytes, htna), b)"
    using a1(1) g(1) by (simp add: process_selective_ack_def C_def)
  moreover have "htna = C \<or> (\<exists>k < n - m. htna = tsn_at (C + 1) k)" using g(4) e by blast
  moreover have "acked_at (a_inflight_queue b) (tsn_at (C + 1) k) \<longleftrightarrow>
       acked_at (a_inflight_queue a) (tsn_at (C + 1) k) \<or> Suc k \<in> set ?is" if k: "k < n - m" for k
  proof -
    have "tsn_at (C + 1) k = C + of_nat i \<longleftrightarrow> i = Suc k" if "i \<in> set ?is" for i
    proof -
      have "0 < i" "i \<le> n - m" using cov that by (simp_all add: sack_covers_def)
      moreover have "k < 2147483648" "i - 1 < 2147483648" using k e(2) [OF that] fl unfolding flight_ok_def by linarith+
      ultimately show ?thesis using e(1) [OF that] tsn_at_eq [of k "i - 1" "C + 1"] by auto
    qed
    then have "(\<exists>i \<in> set ?is. tsn_at (C + 1) k = C + of_nat i) \<longleftrightarrow> Suc k \<in> set ?is" by auto
    moreover have "acked_at (a_inflight_queue a1) (tsn_at (C + 1) k) = acked_at (a_inflight_queue a) (tsn_at (C + 1) k)"
      using a1(4) k by (simp add: acked_at_def C tsn_at_add)
    ultimately show ?thesis using g(5) by simp
  qed
  ultimately show ?thesis using g(3) same_ack_trans [OF a1(2) g(2)] by blast
qed

lemma process_selective_ack_bad:
  assumes ok: "sender_ok n a" and bad: "\<not> sack_covers n m d" "m < 2147483648"
    and cum: "sa_cumulative_tsn_ack d = a_cumulative_tsn_ack_point a + of_nat m"
  shows "\<exists>e b. process_selective_ack a d now = (Inl e, b)"
proof -
  let ?b = "a_cumulative_tsn_ack_point a + 1" and ?C = "sa_cumulative_tsn_ack d"
  have fl: "flight_ok ?b n (a_inflight_queue a)" using ok by (simp add: sender_ok_def)
  have C: "?C + 1 = tsn_at ?b m" by (simp add: cum tsn_at_def)
  show ?thesis
  proof (cases "m \<le> n")
    case True
    obtain bytes1 a1 where a1: "ack_cumulative now ?C ?b [] a = (Inr bytes1, a1)"
      "flight_ok (?C + 1) (n - m) (a_inflight_queue a1)"
      using ack_cumulative_ok [OF fl True C] unfolding C by blast
    have "\<exists>i \<in> set (gap_offsets (sa_gap_ack_blocks d)). ?C + of_nat i \<notin> dom (pq_chunk_map (a_inflight_queue a1))"
    proof -
      obtain i where i: "i \<in> set (gap_offsets (sa_gap_ack_blocks d))" "\<not> (0 < i \<and> i \<le> n - m)"
        using bad(1) True by (auto simp: sack_covers_def)
      then show ?thesis using gap_in_flight [OF a1(2), of i] gap_offsets_bound [OF i(1)] by auto
    qed
    from sack_gaps_missing [OF a1(2) this] a1(1) show ?thesis by (fastforce simp: process_selective_ack_def)
  next
    case False
    then show ?thesis
      using ack_cumulative_beyond [OF fl _ bad(2) C, of now "[]"] by (fastforce simp: process_selective_ack_def)
  qed
qed

text \<open>The state \<open>b\<close> after a SACK \<open>d\<close> has acknowledged the first \<open>m\<close> of the \<open>n\<close> chunks in flight in state \<open>a\<close>.\<close>

definition sack_processed :: "nat \<Rightarrow> nat \<Rightarrow> chunk_selective_ack \<Rightarrow> association \<Rightarrow> association \<Rightarrow> bool" where
  "sack_processed n m d a b \<longleftrightarrow>
     sender_ok (n - m) b \<and> a_my_next_tsn b = a_my_next_tsn a \<and>
     a_cumulative_tsn_ack_point b = sa_cumulative_tsn_ack d \<and>
     (\<forall>k < n - m. let t = sa_cumulative_tsn_ack d + of_nat (Suc k) in
        acked_at (a_inflight_queue b) t \<longleftrightarrow>
        acked_at (a_inflight_queue a) t \<or> Suc k \<in> set (gap_offsets (sa_gap_ack_blocks d))) \<and>
     (let out = of_nat (pq_get_num_bytes (a_inflight_queue b)); w = sa_advertised_receiver_window_credit d
      in a_rwnd b = (if out \<ge> w then 0 else w - out))"

lemma handle_sack_covered:
  assumes ok: "sender_ok n a" and cov: "sack_covers n m d" "m < 2147483648"
    and st: "a_state a \<in> {Established, ShutdownPending, ShutdownReceived}"
    and ngt: "\<not> sna32gt (a_cumulative_tsn_ack_point a) (sa_cumulative_tsn_ack d)"
    and cum: "sa_cumulative_tsn_ack d = a_cumulative_tsn_ack_point a + of_nat m"
  shows "\<exists>b. handle_sack a d now = (Inr [], b) \<and> sack_processed n m d a b"
proof -
  let ?a = "a\<lparr>a_stats := inc_sacks (a_stats a)\<rparr>" and ?C = "sa_cumulative_tsn_ack d"
  have ok': "sender_ok n ?a" and cum': "?C = a_cumulative_tsn_ack_point ?a + of_nat m"
    using ok cum by (simp_all add: sender_ok_def)
  obtain bytes htna b where b: "process_selective_ack ?a d now = (Inr (bytes, htna), b)" "same_ack ?a b"
    "flight_ok (?C + 1) (n - m) (a_inflight_queue b)" "htna = ?C \<or> (\<exists>k < n - m. htna = tsn_at (?C + 1) k)"
    "\<forall>k < n - m. acked_at (a_inflight_queue b) (tsn_at (?C + 1) k) \<longleftrightarrow>
       acked_at (a_inflight_queue ?a) (tsn_at (?C + 1) k) \<or> Suc k \<in> set (gap_offsets (sa_gap_ack_blocks d))"
    using process_selective_ack_ok [OF ok' cov(1) cum', of now] by blast
  define adv w where "adv = sna32lt (a_cumulative_tsn_ack_point b) ?C" and "w = sa_advertised_receiver_window_credit d"
  define c where "c = foldl release_step (if adv then on_cumulative_tsn_ack_point_advanced
    (b\<lparr>a_cumulative_tsn_ack_point := ?C\<rparr>) (sum_list (map snd bytes)) now else b) bytes"
  define out where "out = (of_nat (pq_get_num_bytes (a_inflight_queue c)) :: u32)"
  define c' where "c' = (if out \<ge> w then c\<lparr>a_rwnd := 0\<rparr> else c\<lparr>a_rwnd := w - out\<rparr>)"
  have c: "a_inflight_queue c' = a_inflight_queue b" "a_my_next_tsn c' = a_my_next_tsn a"
    "a_cumulative_tsn_ack_point c' = ?C" "a_rwnd c' = (if out \<ge> w then 0 else w - out)"
    using b(2) ngt tsn.trichotomy [of "a_cumulative_tsn_ack_point a" ?C]
    by (auto simp: c'_def c_def same_ack_def adv_def)
  obtain e where e: "process_fast_retransmission c' ?C htna adv = (Inr (), e)" "same_flow (?C + 1) (n - m) c' e"
    using process_fast_retransmission_ok [of ?C "n - m" c' htna adv] b(3,4) c(1) by auto
  have r: "handle_sack a d now = (Inr [], postprocess_sack (advance_peer_ack_point e) (a_state a) now)"
    using st ngt b(1) e(1)
    by (auto simp: handle_sack_def Let_def c'_def out_def c_def adv_def w_def split: if_splits)
  have "out = of_nat (pq_get_num_bytes (a_inflight_queue e))"
    using e(2) c(1) by (simp add: same_flow_def out_def pq_get_num_bytes_def c'_def split: if_splits)
  moreover have "a_my_next_tsn a = tsn_at (?C + 1) (n - m)"
    using ok cum cov by (simp add: sender_ok_def sack_covers_def tsn_at_def of_nat_diff)
  moreover have "?C + of_nat (Suc k) = tsn_at (?C + 1) k" for k by (simp add: tsn_at_def)
  ultimately have "sack_processed n m d a (postprocess_sack (advance_peer_ack_point e) (a_state a) now)"
    using e(2) b(5) c by (simp add: sack_processed_def same_flow_def sender_ok_def Let_def w_def del: of_nat_Suc)
  with r show ?thesis by blast
qed

section \<open>Properties\<close>

text \<open>
  C7. A SACK is processed exactly when it acknowledges chunks in flight. The sender keeps the chunks
  from the cumulative ack point up to its next TSN. A SACK whose cumulative TSN and gaps lie among
  them moves the ack point, keeps the invariant, marks exactly the chunks of the gaps in addition
  to those marked before, and leaves the window the peer advertises less what is outstanding. Any
  other SACK ahead of the ack point is an error.
\<close>

theorem sack_checked:
  assumes "sender_ok n a" "a_state a \<in> {Established, ShutdownPending, ShutdownReceived}" "m < 2147483648"
    and "sa_cumulative_tsn_ack d = a_cumulative_tsn_ack_point a + of_nat m"
  shows "if sack_covers n m d
    then \<exists>b. handle_sack a d now = (Inr [], b) \<and> sack_processed n m d a b
    else \<exists>e. fst (handle_sack a d now) = Inl e"
proof -
  let ?a = "a\<lparr>a_stats := inc_sacks (a_stats a)\<rparr>" and ?C = "sa_cumulative_tsn_ack d"
  have ok: "sender_ok n ?a" and cum: "?C = a_cumulative_tsn_ack_point ?a + of_nat m"
    using assms(1,4) by (simp_all add: sender_ok_def)
  have "unat (?C - a_cumulative_tsn_ack_point a) = m" using assms(3,4) unat_of_nat32 [of m] by simp
  then have ngt: "\<not> sna32gt (a_cumulative_tsn_ack_point a) ?C"
    using assms(3) by (auto simp: tsn.gt_lte tsn.lte_lt tsn.lt_dist)
  show ?thesis
  proof (cases "sack_covers n m d")
    case False
    obtain e b where "process_selective_ack ?a d now = (Inl e, b)"
      using process_selective_ack_bad [OF ok False assms(3) cum] by blast
    then show ?thesis using False assms(2) ngt by (auto simp: handle_sack_def)
  qed (use handle_sack_covered [OF assms(1) _ assms(3,2) ngt assms(4)] in simp)
qed

lemma example_sender:
  fixes c1 c2 :: chunk_payload_data
  defines "q \<equiv> pq_push_no_check (pq_push_no_check pq_new c1) c2"
  assumes "pd_tsn c1 = 1" "pd_tsn c2 = 2"
  shows "sender_ok 2 (association_default\<lparr>a_state := Established, a_my_next_tsn := 3, a_inflight_queue := q\<rparr>)"
proof -
  have "pq_inv 1 q" unfolding q_def using assms(2,3)
    by (intro pq_push_no_check_inv pq_new_inv)
      (auto simp: tsn.window_def pq_new_def pq_push_no_check_def pq_update_sorted_keys_def)
  moreover have "dom (pq_chunk_map q) = tsn_at 1 ` {..<2}"
    using assms(2,3) by (auto simp: q_def pq_push_no_check_def pq_update_sorted_keys_def pq_new_def tsn_at_def numeral_2_eq_2 lessThan_Suc)
  ultimately show ?thesis by (simp add: sender_ok_def flight_ok_def tsn_at_def association_default_def)
qed

theorem sack_checked_witness:
  "\<exists>q b. sender_ok 2 (association_default\<lparr>a_state := Established, a_my_next_tsn := 3, a_inflight_queue := q\<rparr>) \<and>
     handle_sack (association_default\<lparr>a_state := Established, a_my_next_tsn := 3, a_inflight_queue := q\<rparr>)
       \<lparr>sa_cumulative_tsn_ack = 1, sa_advertised_receiver_window_credit = 100, sa_gap_ack_blocks = [\<lparr>gab_start = 1, gab_end = 1\<rparr>],
        sa_duplicate_tsn = []\<rparr> 0 = (Inr [], b) \<and> a_cumulative_tsn_ack_point b = 1 \<and> acked_at (a_inflight_queue b) 2"
proof -
  let ?d = "\<lparr>sa_cumulative_tsn_ack = 1, sa_advertised_receiver_window_credit = 100, sa_gap_ack_blocks = [\<lparr>gab_start = 1, gab_end = 1\<rparr>],
        sa_duplicate_tsn = []\<rparr>"
  let ?q = "pq_push_no_check (pq_push_no_check pq_new (pd_default\<lparr>pd_tsn := 1\<rparr>)) (pd_default\<lparr>pd_tsn := 2\<rparr>)"
  let ?a = "association_default\<lparr>a_state := Established, a_my_next_tsn := 3, a_inflight_queue := ?q\<rparr>"
  have ok: "sender_ok 2 ?a" by (rule example_sender) simp_all
  have "sack_covers 2 1 ?d" by (simp add: sack_covers_def gap_offsets_def)
  with sack_checked [OF ok, of 1 ?d 0] obtain b where b: "handle_sack ?a ?d 0 = (Inr [], b)" "sack_processed 2 1 ?d ?a b"
    by (auto simp: association_default_def)
  from b(2) have "a_cumulative_tsn_ack_point b = 1" "acked_at (a_inflight_queue b) 2"
    by (simp_all add: sack_processed_def gap_offsets_def)
  with ok b(1) show ?thesis by blast
qed

end
