(* ===== verification/Sctp_Assoc_Send.thy ===== *)
theory Sctp_Assoc_Send
  imports Sctp_Assoc_Sack
begin

unbundle bit_operations_syntax

text \<open>
The sending half of the association (rtc-sctp/src/association/mod.rs): the chunks that move from the
pending queue into flight under the congestion and receiver windows, bundling into packets,
retransmission, FORWARD TSN, SACK and shutdown packets, poll_transmit, and the operations of the
Stream handle that write (rtc-sctp/src/association/stream.rs).  The scans over the chunks in flight
run at most once per stored chunk; retransmit_loop_enough and fast_retrans_loop_enough show that more
rounds change nothing.
\<close>

section \<open>Partial reliability\<close>

definition check_partial_reliability_status ::
    "nat \<Rightarrow> bool \<Rightarrow> (u16 \<times> stream_state) list \<Rightarrow> chunk_payload_data \<Rightarrow> chunk_payload_data" where
  "check_partial_reliability_status now use_forward_tsn streams c =
     (if \<not> use_forward_tsn then c
      else if pd_payload_type c = PPI_Dcep then c
      else
        case map_of streams (pd_stream_identifier c) of
          Some s \<Rightarrow>
            let reliability_type = ss_reliability_type s; reliability_value = ss_reliability_value s in
            if reliability_type = Rexmit then
              if pd_nsent c \<ge> reliability_value then pd_set_abandoned True c else c
            else if reliability_type = Timed then
              case pd_since c of
                Some since \<Rightarrow>
                  let elapsed = now - since in
                  if of_nat (as_millis elapsed) \<ge> reliability_value then pd_set_abandoned True c else c
              | None \<Rightarrow> c
            else c
        | None \<Rightarrow> c)"

section \<open>From the pending queue to the chunks in flight\<close>

definition move_pending_data_chunk_to_inflight_queue ::
    "association \<Rightarrow> bool \<Rightarrow> bool \<Rightarrow> nat \<Rightarrow> chunk_payload_data option \<times> association" where
  "move_pending_data_chunk_to_inflight_queue a beginning_fragment unordered now =
     (case pn_pop (a_pending_queue a) beginning_fragment unordered of
        (Some c, q) \<Rightarrow>
          let a = a\<lparr>a_pending_queue := q\<rparr>;
              c = (if pd_ending_fragment c then pd_set_all_inflight c else c);
              (tsn, a) = generate_next_tsn a;
              c = c\<lparr>pd_tsn := tsn, pd_since := Some now, pd_nsent := 1\<rparr>;
              c = check_partial_reliability_status now (a_use_forward_tsn a) (a_streams a) c
          in (Some c, a\<lparr>a_inflight_queue := pq_push_no_check (a_inflight_queue a) c\<rparr>)
      | (None, q) \<Rightarrow> (None, a\<lparr>a_pending_queue := q\<rparr>))"

text \<open>
  The loop over the pending chunks. It does not end when it finds an empty chunk that it cannot
  pop; a chunk with data that it cannot pop uses up the receiver window.
\<close>

lemma pn_pop_shorter:
  "pn_pop q b u = (Some c, q') \<Longrightarrow>
   length (pn_unordered_queue q') + length (pn_ordered_queue q') < length (pn_unordered_queue q) + length (pn_ordered_queue q)"
  by (cases "pn_unordered_queue q"; cases "pn_ordered_queue q")
    (auto simp: pn_pop_def Let_def split: if_splits option.splits)

lemma pn_pop_not_longer:
  "pn_pop q b u = (x, q') \<Longrightarrow>
   length (pn_unordered_queue q') + length (pn_ordered_queue q') \<le> length (pn_unordered_queue q) + length (pn_ordered_queue q)"
  by (cases "pn_unordered_queue q"; cases "pn_ordered_queue q")
    (auto simp: pn_pop_def Let_def split: if_splits option.splits)

lemma move_pending_size:
  assumes "move_pending_data_chunk_to_inflight_queue a b u now = (x, a')"
  shows "a_rwnd a' = a_rwnd a"
    "length (pn_unordered_queue (a_pending_queue a')) + length (pn_ordered_queue (a_pending_queue a')) \<le>
     length (pn_unordered_queue (a_pending_queue a)) + length (pn_ordered_queue (a_pending_queue a))"
  using assms pn_pop_not_longer [of "a_pending_queue a" b u]
  by (auto simp: move_pending_data_chunk_to_inflight_queue_def generate_next_tsn_def Let_def split: prod.splits option.splits)

lemma window_after: "n \<le> unat (w :: u32) \<Longrightarrow> unat (w - of_nat n) + n = unat w"
proof -
  assume n: "n \<le> unat w"
  moreover have "unat w < 4294967296" using unsigned_less [of w] by simp
  ultimately have "unat (of_nat n :: u32) = n" by (intro unat_of_nat32) simp
  with n show ?thesis by (simp add: unat_sub word_le_nat_alt)
qed

lemma window_shrinks: "0 < n \<Longrightarrow> n \<le> unat w \<Longrightarrow> unat (w - of_nat n :: u32) < unat w"
  using window_after [of n w] by linarith

function pop_pending_loop ::
    "nat \<Rightarrow> chunk_payload_data list \<Rightarrow> u16 list \<Rightarrow> association \<Rightarrow> (chunk_payload_data list \<times> u16 list) result \<times> association" where
  "pop_pending_loop now chunks sis_to_reset a =
     (case pn_peek (a_pending_queue a) of
        None \<Rightarrow> (Inr (chunks, sis_to_reset), a)
      | Some c \<Rightarrow>
          let data_len = length (pd_user_data c) in
          if data_len = 0 then
            case pn_pop (a_pending_queue a) (pd_beginning_fragment c) (pd_unordered c) of
              (None, q) \<Rightarrow> (Inl Hang, a)
            | (Some _, q) \<Rightarrow>
                pop_pending_loop now chunks (sis_to_reset @ [pd_stream_identifier c]) (a\<lparr>a_pending_queue := q\<rparr>)
          else if pq_get_num_bytes (a_inflight_queue a) + data_len > unat (a_cwnd a) then
            (Inr (chunks, sis_to_reset), a)
          else if data_len > unat (a_rwnd a) then (Inr (chunks, sis_to_reset), a)
          else
            case move_pending_data_chunk_to_inflight_queue (a\<lparr>a_rwnd := a_rwnd a - of_nat data_len\<rparr>)
                   (pd_beginning_fragment c) (pd_unordered c) now of
              (Some chunk, a) \<Rightarrow> pop_pending_loop now (chunks @ [chunk]) sis_to_reset a
            | (None, a) \<Rightarrow> pop_pending_loop now chunks sis_to_reset a)"
  by pat_completeness auto

termination
proof (relation "measures [\<lambda>(now, chunks, sis, a). length (pn_unordered_queue (a_pending_queue a)) + length (pn_ordered_queue (a_pending_queue a)),
    \<lambda>(now, chunks, sis, a). unat (a_rwnd a)]", goal_cases)
  case (2 now chunks sis a c n x q p)
  then show ?case using pn_pop_shorter [of "a_pending_queue a" "pd_beginning_fragment c" "pd_unordered c" p q] by simp
next
  case (3 now chunks sis a c n x a')
  then show ?case
    using move_pending_size [OF sym [OF 3(6)]] window_shrinks [of n "a_rwnd a"] by (simp add: not_less) linarith
next
  case (4 now chunks sis a c n x a')
  then show ?case
    using move_pending_size [OF sym [OF 4(6)]] window_shrinks [of n "a_rwnd a"] by (simp add: not_less) linarith
qed simp_all

declare pop_pending_loop.simps [simp del]

definition pop_pending_data_chunks_to_send ::
    "association \<Rightarrow> nat \<Rightarrow> (chunk_payload_data list \<times> u16 list) result \<times> association" where
  "pop_pending_data_chunks_to_send a now =
     (if \<not> pn_is_empty (a_pending_queue a) then
        case pop_pending_loop now [] [] a of
          (Inl e, a) \<Rightarrow> (Inl e, a)
        | (Inr (chunks, sis_to_reset), a) \<Rightarrow>
            if chunks = [] \<and> pq_is_empty (a_inflight_queue a) then
              case pn_peek (a_pending_queue a) of
                Some c \<Rightarrow>
                  (case move_pending_data_chunk_to_inflight_queue a (pd_beginning_fragment c) (pd_unordered c) now of
                     (Some chunk, a) \<Rightarrow> (Inr (chunks @ [chunk], sis_to_reset), a)
                   | (None, a) \<Rightarrow> (Inr (chunks, sis_to_reset), a))
              | None \<Rightarrow> (Inr (chunks, sis_to_reset), a)
            else (Inr (chunks, sis_to_reset), a)
      else (Inr ([], []), a))"

section \<open>Packets\<close>

fun bundle_loop :: "association \<Rightarrow> packet list \<Rightarrow> chunk list \<Rightarrow> u32 \<Rightarrow> chunk_payload_data list \<Rightarrow> packet list" where
  "bundle_loop a packets chunks_to_send bytes_in_packet [] =
     (if chunks_to_send \<noteq> [] then packets @ [create_packet a chunks_to_send] else packets)"
| "bundle_loop a packets chunks_to_send bytes_in_packet (c # cs) =
     (let n = of_nat (length (pd_user_data c));
          (packets, chunks_to_send, bytes_in_packet) =
            (if bytes_in_packet + n > a_mtu a
             then (packets @ [create_packet a chunks_to_send], [], COMMON_HEADER_SIZE)
             else (packets, chunks_to_send, bytes_in_packet))
      in bundle_loop a packets (chunks_to_send @ [ChunkPayloadData c])
           (bytes_in_packet + (DATA_CHUNK_HEADER_SIZE + n)) cs)"

definition bundle_data_chunks_into_packets :: "association \<Rightarrow> chunk_payload_data list \<Rightarrow> packet list" where
  "bundle_data_chunks_into_packets a chunks = bundle_loop a [] [] COMMON_HEADER_SIZE chunks"

text \<open>
  The scan over the chunks in flight that are marked for retransmission. The chunks follow each
  other from the cumulative ack point, so the number of chunks held, the first argument, is
  enough rounds.
\<close>

fun retransmit_loop ::
    "nat \<Rightarrow> nat \<Rightarrow> u32 \<Rightarrow> u32 \<Rightarrow> nat \<Rightarrow> association \<Rightarrow> chunk_payload_data list \<times> association" where
  "retransmit_loop 0 now awnd i bytes_to_send a = ([], a)"
| "retransmit_loop (Suc n) now awnd i bytes_to_send a =
     (let tsn = a_cumulative_tsn_ack_point a + i + 1 in
      case pq_get (a_inflight_queue a) tsn of
        None \<Rightarrow> ([], a)
      | Some c \<Rightarrow>
          if \<not> pd_retransmit c then retransmit_loop n now awnd (i + 1) bytes_to_send a
          else
            let len = length (pd_user_data c);
                probe = (i = 0 \<and> a_rwnd a < of_nat len) in
            if \<not> probe \<and> bytes_to_send + len > unat awnd then ([], a)
            else
              let c = c\<lparr>pd_retransmit := False, pd_nsent := pd_nsent c + 1\<rparr>;
                  c = check_partial_reliability_status now (a_use_forward_tsn a) (a_streams a) c;
                  a = a\<lparr>a_inflight_queue := pq_get_mut (a_inflight_queue a) tsn (\<lambda>_. c)\<rparr>
              in if probe then ([c], a)
                 else let (cs, a) = retransmit_loop n now awnd (i + 1) (bytes_to_send + len) a in (c # cs, a))"

definition get_data_packets_to_retransmit :: "association \<Rightarrow> nat \<Rightarrow> packet list \<times> association" where
  "get_data_packets_to_retransmit a now =
     (let awnd = min (a_cwnd a) (a_rwnd a);
          (chunks, a) = retransmit_loop (length (pq_sorted (a_inflight_queue a))) now awnd 0 0 a
      in (bundle_data_chunks_into_packets a chunks, a))"

definition create_selective_ack_chunk :: "association \<Rightarrow> chunk_selective_ack \<times> association" where
  "create_selective_ack_chunk a =
     (let (dups, q) = pq_pop_duplicates (a_payload_queue a) in
      (\<lparr>sa_cumulative_tsn_ack = a_peer_last_tsn a,
        sa_advertised_receiver_window_credit = get_my_receiver_window_credit a,
        sa_gap_ack_blocks = pq_get_gap_ack_blocks (a_payload_queue a) (a_peer_last_tsn a),
        sa_duplicate_tsn = dups\<rparr>, a\<lparr>a_payload_queue := q\<rparr>))"

text \<open>The greatest stream sequence number per stream among the chunks that are skipped.\<close>

definition skip_stream :: "(u16 \<times> u16) list \<Rightarrow> chunk_payload_data \<Rightarrow> (u16 \<times> u16) list" where
  "skip_stream stream_map c =
     (case map_of stream_map (pd_stream_identifier c) of
        Some ssn \<Rightarrow>
          if sna16lt ssn (pd_stream_sequence_number c)
          then AList.update (pd_stream_identifier c) (pd_stream_sequence_number c) stream_map
          else stream_map
      | None \<Rightarrow> AList.update (pd_stream_identifier c) (pd_stream_sequence_number c) stream_map)"

function skip_streams :: "association \<Rightarrow> u32 \<Rightarrow> (u16 \<times> u16) list \<Rightarrow> (u16 \<times> u16) list" where
  "skip_streams a i stream_map =
     (if sna32lte i (a_advanced_peer_tsn_ack_point a) then
        case pq_get (a_inflight_queue a) i of
          Some c \<Rightarrow> skip_streams a (i + 1) (skip_stream stream_map c)
        | None \<Rightarrow> stream_map
      else stream_map)"
  by pat_completeness auto
termination
proof (relation "measure (\<lambda>(a, i, m). unat (a_advanced_peer_tsn_ack_point a + 1 - i))", goal_cases)
  case (2 a i m c)
  let ?t = "a_advanced_peer_tsn_ack_point a + 1 - i"
  have "?t \<noteq> 0"
  proof
    assume "?t = 0"
    then have "sna32gt i (a_advanced_peer_tsn_ack_point a)" by (simp add: tsn.gt_window tsn.window_def)
    with 2 show False by (simp add: tsn.gt_lte)
  qed
  then have "unat (?t - 1) < unat ?t" by (metis diff_less less_one unat_gt_0 unat_minus_one)
  then show ?case by (simp add: diff_diff_eq)
qed simp

declare skip_streams.simps [simp del]

definition create_forward_tsn :: "association \<Rightarrow> chunk_forward_tsn" where
  "create_forward_tsn a =
     (let stream_map = skip_streams a (a_cumulative_tsn_ack_point a + 1) [] in
      \<lparr>ft_new_cumulative_tsn = a_advanced_peer_tsn_ack_point a,
       ft_streams = map (\<lambda>(si, ssn). \<lparr>fts_identifier = si, fts_sequence = ssn\<rparr>) stream_map\<rparr>)"

section \<open>Gathering the packets\<close>

text \<open>The packets that do not marshal are left out. The checksum is the parameter \<open>crc\<close>.\<close>

definition push_raw :: "(bytes \<Rightarrow> u32) \<Rightarrow> bytes list \<Rightarrow> packet \<Rightarrow> bytes list" where
  "push_raw crc raw_packets p =
     (case packet_marshal crc p of Inr raw \<Rightarrow> raw_packets @ [raw] | Inl _ \<Rightarrow> raw_packets)"

definition gather_data_packets_to_retransmit ::
    "(bytes \<Rightarrow> u32) \<Rightarrow> association \<Rightarrow> bytes list \<Rightarrow> nat \<Rightarrow> bytes list \<times> association" where
  "gather_data_packets_to_retransmit crc a raw_packets now =
     (let (ps, a) = get_data_packets_to_retransmit a now in (foldl (push_raw crc) raw_packets ps, a))"

definition gather_outbound_data_and_reconfig_packets ::
    "(bytes \<Rightarrow> u32) \<Rightarrow> association \<Rightarrow> bytes list \<Rightarrow> nat \<Rightarrow> bytes list result \<times> association" where
  "gather_outbound_data_and_reconfig_packets crc a raw_packets now =
     (case pop_pending_data_chunks_to_send a now of
        (Inl e, a) \<Rightarrow> (Inl e, a)
      | (Inr (chunks, sis_to_reset), a) \<Rightarrow>
          let (raw_packets, a) =
            (if chunks \<noteq> [] then
               let a = a\<lparr>a_timers := tt_restart_if_stale (a_timers a) T3RTX now (rm_get_rto (a_rto_mgr a))\<rparr>
               in (foldl (push_raw crc) raw_packets (bundle_data_chunks_into_packets a chunks), a)
             else (raw_packets, a));
            (raw_packets, a) =
            (if sis_to_reset \<noteq> [] \<or> a_will_retransmit_reconfig a then
               let (raw_packets, a) =
                 (if a_will_retransmit_reconfig a then
                    let a = a\<lparr>a_will_retransmit_reconfig := False\<rparr>
                    in (foldl (push_raw crc) raw_packets
                          (map (\<lambda>(_, c). create_packet a [ChunkReconfig c]) (a_reconfigs a)), a)
                  else (raw_packets, a));
                 (raw_packets, a) =
                 (if sis_to_reset \<noteq> [] then
                    let (rsn, a) = generate_next_rsn a;
                        tsn = a_my_next_tsn a - 1;
                        c = \<lparr>rc_param_a = Some (ParamOutgoingResetRequest rsn 0 tsn sis_to_reset), rc_param_b = None\<rparr>;
                        a = a\<lparr>a_reconfigs := AList.update rsn c (a_reconfigs a)\<rparr>
                    in (push_raw crc raw_packets (create_packet a [ChunkReconfig c]), a)
                  else (raw_packets, a))
               in (raw_packets,
                   if a_reconfigs a \<noteq> [] then a\<lparr>a_timers := tt_start (a_timers a) Reconfig now (rm_get_rto (a_rto_mgr a))\<rparr>
                   else a)
             else (raw_packets, a))
          in (Inr raw_packets, a))"

fun fast_retrans_loop ::
    "nat \<Rightarrow> nat \<Rightarrow> u32 \<Rightarrow> u32 \<Rightarrow> association \<Rightarrow> chunk list \<times> association" where
  "fast_retrans_loop 0 now i fast_retrans_size a = ([], a)"
| "fast_retrans_loop (Suc n) now i fast_retrans_size a =
     (let tsn = a_cumulative_tsn_ack_point a + i + 1 in
      case pq_get (a_inflight_queue a) tsn of
        None \<Rightarrow> ([], a)
      | Some c \<Rightarrow>
          if pd_acked c \<or> pd_is_abandoned c \<or> pd_nsent c > 1 \<or> pd_miss_indicator c < 3
          then fast_retrans_loop n now (i + 1) fast_retrans_size a
          else
            let data_chunk_size = DATA_CHUNK_HEADER_SIZE + of_nat (length (pd_user_data c)) in
            if a_mtu a < fast_retrans_size + data_chunk_size then ([], a)
            else
              let a = a\<lparr>a_stats := inc_fast_retrans (a_stats a)\<rparr>;
                  c = c\<lparr>pd_nsent := pd_nsent c + 1\<rparr>;
                  c = check_partial_reliability_status now (a_use_forward_tsn a) (a_streams a) c;
                  a = a\<lparr>a_inflight_queue := pq_get_mut (a_inflight_queue a) tsn (\<lambda>_. c)\<rparr>;
                  (cs, a) = fast_retrans_loop n now (i + 1) (fast_retrans_size + data_chunk_size) a
              in (ChunkPayloadData c # cs, a))"

definition gather_outbound_fast_retransmission_packets ::
    "(bytes \<Rightarrow> u32) \<Rightarrow> association \<Rightarrow> bytes list \<Rightarrow> nat \<Rightarrow> bytes list \<times> association" where
  "gather_outbound_fast_retransmission_packets crc a raw_packets now =
     (if a_will_retransmit_fast a then
        let a = a\<lparr>a_will_retransmit_fast := False\<rparr>;
            (to_fast_retrans, a) =
              fast_retrans_loop (length (pq_sorted (a_inflight_queue a))) now 0 COMMON_HEADER_SIZE a
        in (if to_fast_retrans \<noteq> [] then push_raw crc raw_packets (create_packet a to_fast_retrans)
            else raw_packets, a)
      else (raw_packets, a))"

definition gather_outbound_sack_packets ::
    "(bytes \<Rightarrow> u32) \<Rightarrow> association \<Rightarrow> bytes list \<Rightarrow> bytes list \<times> association" where
  "gather_outbound_sack_packets crc a raw_packets =
     (if a_ack_state a = AS_Immediate then
        let a = a\<lparr>a_ack_state := AS_Idle\<rparr>;
            (sack, a) = create_selective_ack_chunk a
        in (push_raw crc raw_packets (create_packet a [ChunkSelectiveAck sack]), a)
      else (raw_packets, a))"

definition gather_outbound_forward_tsn_packets ::
    "(bytes \<Rightarrow> u32) \<Rightarrow> association \<Rightarrow> bytes list \<Rightarrow> bytes list \<times> association" where
  "gather_outbound_forward_tsn_packets crc a raw_packets =
     (if a_will_send_forward_tsn a then
        let a = a\<lparr>a_will_send_forward_tsn := False\<rparr> in
        (if sna32gt (a_advanced_peer_tsn_ack_point a) (a_cumulative_tsn_ack_point a)
         then push_raw crc raw_packets (create_packet a [ChunkForwardTsn (create_forward_tsn a)])
         else raw_packets, a)
      else (raw_packets, a))"

definition gather_outbound_shutdown_packets ::
    "(bytes \<Rightarrow> u32) \<Rightarrow> association \<Rightarrow> bytes list \<Rightarrow> nat \<Rightarrow> (bytes list \<times> bool) \<times> association" where
  "gather_outbound_shutdown_packets crc a raw_packets now =
     (if a_will_send_shutdown a then
        let a = a\<lparr>a_will_send_shutdown := False\<rparr> in
        case packet_marshal crc (create_packet a [ChunkShutdown (a_cumulative_tsn_ack_point a)]) of
          Inr raw \<Rightarrow>
            ((raw_packets @ [raw], True),
             a\<lparr>a_timers := tt_start (a_timers a) T2Shutdown now (rm_get_rto (a_rto_mgr a))\<rparr>)
        | Inl _ \<Rightarrow> ((raw_packets, True), a)
      else if a_will_send_shutdown_ack a then
        let a = a\<lparr>a_will_send_shutdown_ack := False\<rparr> in
        case packet_marshal crc (create_packet a [ChunkShutdownAck]) of
          Inr raw \<Rightarrow>
            ((raw_packets @ [raw], True),
             a\<lparr>a_timers := tt_start (a_timers a) T2Shutdown now (rm_get_rto (a_rto_mgr a))\<rparr>)
        | Inl _ \<Rightarrow> ((raw_packets, True), a)
      else if a_will_send_shutdown_complete a then
        let a = a\<lparr>a_will_send_shutdown_complete := False\<rparr> in
        case packet_marshal crc (create_packet a [ChunkShutdownComplete]) of
          Inr raw \<Rightarrow> ((raw_packets @ [raw], False), a)
        | Inl _ \<Rightarrow> ((raw_packets, True), a)
      else ((raw_packets, True), a))"

definition gather_outbound :: "(bytes \<Rightarrow> u32) \<Rightarrow> association \<Rightarrow> nat \<Rightarrow> (bytes list \<times> bool) result \<times> association" where
  "gather_outbound crc a now =
     (let raw_packets = foldl (push_raw crc) [] (a_control_queue a);
          a = a\<lparr>a_control_queue := []\<rparr>;
          state = a_state a in
      if state = Established then
        let (raw_packets, a) = gather_data_packets_to_retransmit crc a raw_packets now in
        case gather_outbound_data_and_reconfig_packets crc a raw_packets now of
          (Inl e, a) \<Rightarrow> (Inl e, a)
        | (Inr raw_packets, a) \<Rightarrow>
            let (raw_packets, a) = gather_outbound_fast_retransmission_packets crc a raw_packets now;
                (raw_packets, a) = gather_outbound_sack_packets crc a raw_packets;
                (raw_packets, a) = gather_outbound_forward_tsn_packets crc a raw_packets
            in (Inr (raw_packets, True), a)
      else if state = ShutdownPending \<or> state = ShutdownSent \<or> state = ShutdownReceived then
        let (raw_packets, a) = gather_data_packets_to_retransmit crc a raw_packets now;
            (raw_packets, a) = gather_outbound_fast_retransmission_packets crc a raw_packets now;
            (raw_packets, a) = gather_outbound_sack_packets crc a raw_packets;
            (r, a) = gather_outbound_shutdown_packets crc a raw_packets now
        in (Inr r, a)
      else if state = ShutdownAckSent then
        let (r, a) = gather_outbound_shutdown_packets crc a raw_packets now in (Inr r, a)
      else (Inr (raw_packets, True), a))"

text \<open>The datagrams of a \<^verbatim>\<open>Transmit\<close>; the addresses are those of the association.\<close>

definition poll_transmit :: "(bytes \<Rightarrow> u32) \<Rightarrow> association \<Rightarrow> nat \<Rightarrow> bytes list option result \<times> association" where
  "poll_transmit crc a now =
     (case gather_outbound crc a now of
        (Inl e, a) \<Rightarrow> (Inl e, a)
      | (Inr (contents, _), a) \<Rightarrow> (Inr (if contents = [] then None else Some contents), a))"

section \<open>Writing to a stream\<close>

definition send_reset_request :: "association \<Rightarrow> u16 \<Rightarrow> unit result \<times> association" where
  "send_reset_request a stream_identifier =
     (if a_state a \<noteq> Established then (Inl (Err ''ErrResetPacketInStateNotExist''), a)
      else
        let c = pd_default\<lparr>pd_stream_identifier := stream_identifier, pd_beginning_fragment := True,
                  pd_ending_fragment := True, pd_user_data := []\<rparr>
        in (Inr (), a\<lparr>a_pending_queue := pn_push (a_pending_queue a) c\<rparr>))"

definition send_payload_data :: "association \<Rightarrow> chunk_payload_data list \<Rightarrow> unit result \<times> association" where
  "send_payload_data a chunks =
     (if a_state a \<noteq> Established then (Inl (Err ''ErrPayloadDataStateNotExist''), a)
      else (Inr (), a\<lparr>a_pending_queue := foldl pn_push (a_pending_queue a) chunks\<rparr>))"

definition buffered_amount :: "association \<Rightarrow> nat" where
  "buffered_amount a = pn_get_num_bytes (a_pending_queue a) + pq_get_num_bytes (a_inflight_queue a)"

definition is_readable :: "association \<Rightarrow> u16 \<Rightarrow> bool" where
  "is_readable a si =
     (case map_of (a_streams a) si of
        Some s \<Rightarrow> ss_state s = RS_Readable \<or> ss_state s = RS_ReadWritable
      | None \<Rightarrow> False)"

definition is_writable :: "association \<Rightarrow> u16 \<Rightarrow> bool" where
  "is_writable a si =
     (case map_of (a_streams a) si of
        Some s \<Rightarrow> ss_state s = RS_Writable \<or> ss_state s = RS_ReadWritable
      | None \<Rightarrow> False)"

text \<open>
  \<^verbatim>\<open>write_source\<close> for any source of bytes: \<open>remaining\<close> is what the source says it holds, and \<open>pop\<close> is its
  \<^verbatim>\<open>pop_chunk\<close>.
\<close>

definition write_source ::
    "association \<Rightarrow> u16 \<Rightarrow> nat \<Rightarrow> (nat \<Rightarrow> bytes) \<Rightarrow> payload_protocol_identifier \<Rightarrow> nat result \<times> association" where
  "write_source a si remaining pop ppi =
     (if \<not> is_writable a si then (Inl (Err ''ErrStreamClosed''), a)
      else if remaining > unat (a_max_message_size a) then (Inl (Err ''ErrOutboundPacketTooLarge''), a)
      else if is_drained (a_state a) then (Inl (Err ''ErrStreamClosed''), a)
      else
        let p = pop (unat (a_max_message_size a)) in
        case map_of (a_streams a) si of
          Some s \<Rightarrow>
            (case ss_packetize s p ppi of
               Inl e \<Rightarrow> (Inl e, a)
             | Inr (chunks, s) \<Rightarrow>
                 let a = a\<lparr>a_streams := AList.update si s (a_streams a)\<rparr> in
                 case send_payload_data a chunks of
                   (Inl e, a) \<Rightarrow> (Inl e, a)
                 | (Inr _, a) \<Rightarrow> (Inr (length p), a))
        | None \<Rightarrow> (Inl (Err ''ErrStreamClosed''), a))"

definition write_with_ppi :: "association \<Rightarrow> u16 \<Rightarrow> bytes \<Rightarrow> payload_protocol_identifier \<Rightarrow> nat result \<times> association" where
  "write_with_ppi a si data ppi =
     write_source a si (length data) (\<lambda>limit. fst (fst (bs_pop_chunk limit data))) ppi"

definition get_default_payload_type :: "association \<Rightarrow> u16 \<Rightarrow> payload_protocol_identifier result" where
  "get_default_payload_type a si =
     (case map_of (a_streams a) si of
        Some s \<Rightarrow> Inr (ss_default_payload_type s)
      | None \<Rightarrow> Inl (Err ''ErrStreamClosed''))"

definition stream_write :: "association \<Rightarrow> u16 \<Rightarrow> bytes \<Rightarrow> nat result \<times> association" where
  "stream_write a si data =
     (case get_default_payload_type a si of
        Inl e \<Rightarrow> (Inl e, a)
      | Inr ppi \<Rightarrow> write_with_ppi a si data ppi)"

definition write_chunks :: "association \<Rightarrow> u16 \<Rightarrow> bytes list \<Rightarrow> nat result \<times> association" where
  "write_chunks a si data =
     (let source = from_chunks data in
      case get_default_payload_type a si of
        Inl e \<Rightarrow> (Inl e, a)
      | Inr ppi \<Rightarrow> write_source a si (ba_remaining source) (\<lambda>limit. fst (fst (ba_pop_chunk limit source))) ppi)"

text \<open>\<^verbatim>\<open>stop\<close> closes the reading direction and asks the peer to reset the stream.\<close>

definition stop :: "association \<Rightarrow> u16 \<Rightarrow> unit result \<times> association" where
  "stop a si =
     (case map_of (a_streams a) si of
        Some s \<Rightarrow>
          let reset = (ss_state s = RS_Readable \<or> ss_state s = RS_ReadWritable);
              s = s\<lparr>ss_state := recv_send_state_of (u8_of_recv_send_state (ss_state s) AND 2)\<rparr>;
              a = a\<lparr>a_streams := AList.update si s (a_streams a)\<rparr>
          in if reset then send_reset_request a si else (Inr (), a)
      | None \<Rightarrow> (Inr (), a))"

definition finish :: "association \<Rightarrow> u16 \<Rightarrow> unit result \<times> association" where
  "finish a si =
     (case map_of (a_streams a) si of
        Some s \<Rightarrow>
          (Inr (), a\<lparr>a_streams := AList.update si
             (s\<lparr>ss_state := recv_send_state_of (u8_of_recv_send_state (ss_state s) AND 1)\<rparr>) (a_streams a)\<rparr>)
      | None \<Rightarrow> (Inr (), a))"

definition set_default_payload_type :: "association \<Rightarrow> u16 \<Rightarrow> payload_protocol_identifier \<Rightarrow> unit result \<times> association" where
  "set_default_payload_type a si ppi =
     (case map_of (a_streams a) si of
        Some s \<Rightarrow> (Inr (), a\<lparr>a_streams := AList.update si (s\<lparr>ss_default_payload_type := ppi\<rparr>) (a_streams a)\<rparr>)
      | None \<Rightarrow> (Inl (Err ''ErrStreamClosed''), a))"

definition set_reliability_params :: "association \<Rightarrow> u16 \<Rightarrow> bool \<Rightarrow> reliability_type \<Rightarrow> u32 \<Rightarrow> unit result \<times> association" where
  "set_reliability_params a si unordered rel_type rel_val =
     (case map_of (a_streams a) si of
        Some s \<Rightarrow>
          (Inr (), a\<lparr>a_streams := AList.update si
             (s\<lparr>ss_unordered := unordered, ss_reliability_type := rel_type, ss_reliability_value := rel_val\<rparr>) (a_streams a)\<rparr>)
      | None \<Rightarrow> (Inl (Err ''ErrStreamClosed''), a))"

definition stream_buffered_amount :: "association \<Rightarrow> u16 \<Rightarrow> nat result" where
  "stream_buffered_amount a si =
     (case map_of (a_streams a) si of
        Some s \<Rightarrow> Inr (ss_buffered_amount s)
      | None \<Rightarrow> Inl (Err ''ErrStreamClosed''))"

definition buffered_amount_low_threshold :: "association \<Rightarrow> u16 \<Rightarrow> nat result" where
  "buffered_amount_low_threshold a si =
     (case map_of (a_streams a) si of
        Some s \<Rightarrow> Inr (ss_buffered_amount_low s)
      | None \<Rightarrow> Inl (Err ''ErrStreamClosed''))"

definition set_buffered_amount_low_threshold :: "association \<Rightarrow> u16 \<Rightarrow> nat \<Rightarrow> unit result \<times> association" where
  "set_buffered_amount_low_threshold a si th =
     (case map_of (a_streams a) si of
        Some s \<Rightarrow> (Inr (), a\<lparr>a_streams := AList.update si (s\<lparr>ss_buffered_amount_low := th\<rparr>) (a_streams a)\<rparr>)
      | None \<Rightarrow> (Inl (Err ''ErrStreamClosed''), a))"

section \<open>Flow control\<close>

lemma check_partial_reliability_status_frame [simp]:
  "pd_tsn (check_partial_reliability_status now f ss c) = pd_tsn c"
  "pd_user_data (check_partial_reliability_status now f ss c) = pd_user_data c"
  "pd_acked (check_partial_reliability_status now f ss c) = pd_acked c"
  "pd_all_inflight (check_partial_reliability_status now f ss c) = pd_all_inflight c"
  "message_key (check_partial_reliability_status now f ss c) = message_key c"
  by (simp_all add: check_partial_reliability_status_def pd_set_abandoned_def message_key_def Let_def split: option.split)

lemma flight_push:
  assumes "flight_ok base n q" "pd_tsn c = tsn_at base n" "Suc n < 2147483648"
  shows "flight_ok base (Suc n) (pq_push_no_check q c)"
    "pq_n_bytes (pq_push_no_check q c) = pq_n_bytes q + length (pd_user_data c)"
proof -
  have "pd_tsn c \<notin> dom (pq_chunk_map q)" using flight_mem [OF assms(1), of n] assms(2,3) by simp
  moreover have "tsn.window base (pd_tsn c)"
    using tsn_at_diff [of 0 n base] assms(2,3) by (simp add: tsn.window_def)
  ultimately have "pq_inv base (pq_push_no_check q c)"
    using assms(1) by (intro pq_push_no_check_inv) (simp_all add: flight_ok_def)
  then show "flight_ok base (Suc n) (pq_push_no_check q c)"
    using assms by (simp add: flight_ok_def pq_push_no_check_def pq_update_sorted_keys_def lessThan_Suc)
  show "pq_n_bytes (pq_push_no_check q c) = pq_n_bytes q + length (pd_user_data c)"
    by (simp add: pq_push_no_check_def pq_update_sorted_keys_def)
qed

lemma pn_inv_len: "pn_inv s q \<Longrightarrow> pn_len q = length (pn_unordered_queue q) + length (pn_ordered_queue q)"
  by (simp add: pn_inv_def pn_len_def)

lemma pn_take_len:
  assumes "pn_inv s q" "pn_peek q = Some c"
  shows "pn_len (snd (pn_pop q (pd_beginning_fragment c) (pd_unordered c))) + 1 = pn_len q"
  using arg_cong [OF pn_take_queues(2) [OF assms], of length] arg_cong [OF pn_take_queues(3) [OF assms], of length]
    pn_inv_len [OF pn_take_inv [OF assms]] pn_inv_len [OF assms(1)] by (simp split: if_splits)

text \<open>A chunk taken from the pending queue gets the next TSN and is in flight.\<close>

lemma move_pending_ok:
  assumes inv: "pn_inv s (a_pending_queue a)" and peek: "pn_peek (a_pending_queue a) = Some c"
    and ok: "sender_ok n a" "Suc n < 2147483648"
  shows "\<exists>c' a'. move_pending_data_chunk_to_inflight_queue a (pd_beginning_fragment c) (pd_unordered c) now = (Some c', a') \<and>
    pd_tsn c' = a_my_next_tsn a \<and> pd_user_data c' = pd_user_data c \<and> sender_ok (Suc n) a' \<and>
    a_my_next_tsn a' = a_my_next_tsn a + 1 \<and>
    pq_n_bytes (a_inflight_queue a') = pq_n_bytes (a_inflight_queue a) + length (pd_user_data c) \<and>
    pn_inv (after c) (a_pending_queue a') \<and> pn_len (a_pending_queue a') + 1 = pn_len (a_pending_queue a) \<and>
    a_rwnd a' = a_rwnd a \<and> a_cwnd a' = a_cwnd a"
proof -
  let ?q = "snd (pn_pop (a_pending_queue a) (pd_beginning_fragment c) (pd_unordered c))"
  note pop = pn_take_queues [OF inv peek]
  define c' where "c' = check_partial_reliability_status now (a_use_forward_tsn a) (a_streams a)
    ((if pd_ending_fragment c then pd_set_all_inflight c else c)\<lparr>pd_tsn := a_my_next_tsn a, pd_since := Some now, pd_nsent := 1\<rparr>)"
  define a' where "a' = a\<lparr>a_pending_queue := ?q, a_my_next_tsn := a_my_next_tsn a + 1,
    a_inflight_queue := pq_push_no_check (a_inflight_queue a) c'\<rparr>"
  have m: "move_pending_data_chunk_to_inflight_queue a (pd_beginning_fragment c) (pd_unordered c) now = (Some c', a')"
    by (subst move_pending_data_chunk_to_inflight_queue_def, subst pop(1))
      (simp add: generate_next_tsn_def Let_def c'_def a'_def)
  have c': "pd_tsn c' = a_my_next_tsn a" "pd_user_data c' = pd_user_data c"
    by (simp_all add: c'_def pd_set_all_inflight_def)
  let ?b = "a_cumulative_tsn_ack_point a + 1"
  have "flight_ok ?b n (a_inflight_queue a)" "pd_tsn c' = tsn_at ?b n" using ok(1) c' by (simp_all add: sender_ok_def)
  note push = flight_push [OF this ok(2)]
  have "sender_ok (Suc n) a'" using ok(1) push(1) by (simp add: sender_ok_def a'_def tsn_at_Suc)
  moreover have "pn_len ?q + 1 = pn_len (a_pending_queue a)" using pn_take_len [OF inv peek] .
  ultimately show ?thesis
    using m c' push(2) pn_take_inv [OF inv peek] by (intro exI [of _ c'] exI [of _ a']) (simp add: a'_def)
qed

text \<open>The sender has moved the chunks \<open>new\<close> into flight within its windows.\<close>

definition moved :: "nat \<Rightarrow> association \<Rightarrow> chunk_payload_data list \<Rightarrow> association \<Rightarrow> bool" where
  "moved n a new b \<longleftrightarrow>
     sender_ok (n + length new) b \<and> (\<exists>s. pn_inv s (a_pending_queue b)) \<and>
     a_my_next_tsn b = a_my_next_tsn a + of_nat (length new) \<and>
     map pd_tsn new = map (tsn_at (a_my_next_tsn a)) [0..<length new] \<and>
     pq_n_bytes (a_inflight_queue b) = pq_n_bytes (a_inflight_queue a) + bytes_of new \<and>
     unat (a_rwnd b) + bytes_of new = unat (a_rwnd a) \<and> a_cwnd b = a_cwnd a \<and>
     (new \<noteq> [] \<longrightarrow> pq_n_bytes (a_inflight_queue b) \<le> unat (a_cwnd a)) \<and>
     length new + pn_len (a_pending_queue b) \<le> pn_len (a_pending_queue a)"

lemma moved_Nil:
  "sender_ok n a \<Longrightarrow> pn_inv s (a_pending_queue a) \<Longrightarrow> moved n a [] a"
  by (auto simp: moved_def)

lemma moved_Cons:
  assumes "moved (Suc n) b new d" "pd_tsn c = a_my_next_tsn a" "a_my_next_tsn b = a_my_next_tsn a + 1"
    "pq_n_bytes (a_inflight_queue b) = pq_n_bytes (a_inflight_queue a) + length (pd_user_data c)"
    "pn_len (a_pending_queue b) + 1 = pn_len (a_pending_queue a)"
    "unat (a_rwnd b) + length (pd_user_data c) = unat (a_rwnd a)" "a_cwnd b = a_cwnd a"
    "pq_n_bytes (a_inflight_queue b) \<le> unat (a_cwnd a)"
  shows "moved n a (c # new) d"
proof -
  have "map (tsn_at t) [0..<Suc k] = t # map (tsn_at (t + 1)) [0..<k]" for t k
    by (simp add: map_upt_Suc tsn_at_def add.assoc del: upt_Suc)
  then have "map pd_tsn (c # new) = map (tsn_at (a_my_next_tsn a)) [0..<length (c # new)]"
    using assms(1-3) by (simp add: moved_def del: upt_Suc)
  then show ?thesis
    using assms by (cases "new = []") (auto simp: moved_def bytes_of_def)
qed

lemma pop_pending_loop_ok:
  assumes "pn_inv s (a_pending_queue a)" "sender_ok n a" "n + pn_len (a_pending_queue a) < 2147483648"
  shows "\<exists>new sis' b. pop_pending_loop now chunks sis a = (Inr (chunks @ new, sis @ sis'), b) \<and> moved n a new b \<and>
    (\<forall>c. pn_peek (a_pending_queue b) = Some c \<longrightarrow> pd_user_data c \<noteq> [])"
  using assms
proof (induction now chunks sis a arbitrary: n s rule: pop_pending_loop.induct)
  case (1 now chunks sis a)
  show ?case
  proof (cases "pn_peek (a_pending_queue a)")
    case None
    then show ?thesis
      using moved_Nil [OF 1(5,4)] by (subst pop_pending_loop.simps) auto
  next
    case (Some c)
    let ?len = "length (pd_user_data c)"
    consider (eos) "pd_user_data c = []"
      | (full) "pd_user_data c \<noteq> []" "pq_n_bytes (a_inflight_queue a) + ?len > unat (a_cwnd a) \<or> ?len > unat (a_rwnd a)"
      | (send) "pd_user_data c \<noteq> []" "pq_n_bytes (a_inflight_queue a) + ?len \<le> unat (a_cwnd a)" "?len \<le> unat (a_rwnd a)"
      by linarith
    then show ?thesis
    proof cases
      case eos
      let ?q = "snd (pn_pop (a_pending_queue a) (pd_beginning_fragment c) (pd_unordered c))"
      let ?a = "a\<lparr>a_pending_queue := ?q\<rparr>"
      note pop = pn_take_queues(1) [OF 1(4) Some]
      have len: "pn_len ?q + 1 = pn_len (a_pending_queue a)" using pn_take_len [OF 1(4) Some] .
      have "sender_ok n ?a" using 1(5) by (simp add: sender_ok_def)
      with 1(1) [OF Some refl _ sym [OF pop] refl, of "after c" n] eos pn_take_inv [OF 1(4) Some] len 1(6) obtain new sis' b where
        IH: "pop_pending_loop now chunks (sis @ [pd_stream_identifier c]) ?a =
          (Inr (chunks @ new, (sis @ [pd_stream_identifier c]) @ sis'), b)" "moved n ?a new b"
          "\<forall>c. pn_peek (a_pending_queue b) = Some c \<longrightarrow> pd_user_data c \<noteq> []" by auto
      have "pop_pending_loop now chunks sis a = (Inr (chunks @ new, sis @ pd_stream_identifier c # sis'), b)"
        using IH(1) Some eos by (subst pop_pending_loop.simps, simp, subst pop) simp
      moreover have "moved n a new b" using IH(2) len by (auto simp: moved_def)
      ultimately show ?thesis using IH(3) by blast
    next
      case full
      then have "pop_pending_loop now chunks sis a = (Inr (chunks @ [], sis @ []), a)"
        using Some by (subst pop_pending_loop.simps) (auto simp: Let_def pq_get_num_bytes_def)
      then show ?thesis using moved_Nil [OF 1(5,4)] Some full(1) by fastforce
    next
      case send
      let ?a = "a\<lparr>a_rwnd := a_rwnd a - of_nat ?len\<rparr>"
      have n: "Suc n < 2147483648" "sender_ok n ?a" using pn_take_len [OF 1(4) Some] 1(5,6) by (simp_all add: sender_ok_def)
      obtain c' b where b: "move_pending_data_chunk_to_inflight_queue ?a (pd_beginning_fragment c) (pd_unordered c) now = (Some c', b)"
        "pd_tsn c' = a_my_next_tsn a" "pd_user_data c' = pd_user_data c" "sender_ok (Suc n) b" "a_my_next_tsn b = a_my_next_tsn a + 1"
        "pq_n_bytes (a_inflight_queue b) = pq_n_bytes (a_inflight_queue a) + ?len" "pn_inv (after c) (a_pending_queue b)"
        "pn_len (a_pending_queue b) + 1 = pn_len (a_pending_queue a)" "a_rwnd b = a_rwnd a - of_nat ?len" "a_cwnd b = a_cwnd a"
        using move_pending_ok [of s ?a c n now] 1(4) Some n by auto
      have "\<not> ?len = 0" "\<not> unat (a_cwnd a) < pq_get_num_bytes (a_inflight_queue a) + ?len" "\<not> unat (a_rwnd a) < ?len"
        using send by (simp_all add: pq_get_num_bytes_def)
      note cond = this
      from 1(3) [OF Some refl cond sym [OF b(1)] refl b(7) b(4)] b(8) 1(6) obtain new sis' d where
        IH: "pop_pending_loop now (chunks @ [c']) sis b = (Inr ((chunks @ [c']) @ new, sis @ sis'), d)" "moved (Suc n) b new d"
          "\<forall>c. pn_peek (a_pending_queue d) = Some c \<longrightarrow> pd_user_data c \<noteq> []" by auto
      have "pop_pending_loop now chunks sis a = (Inr (chunks @ c' # new, sis @ sis'), d)"
        using IH(1) Some cond b(1) by (subst pop_pending_loop.simps) (simp add: Let_def)
      moreover have "unat (a_rwnd b) + ?len = unat (a_rwnd a)" using window_after [OF send(3)] b(9) by simp
      then have "moved n a (c' # new) d" using b send(2) by (intro moved_Cons [OF IH(2)]) simp_all
      ultimately show ?thesis using IH(3) by blast
    qed
  qed
qed

lemma sender_idle: "sender_ok n a \<Longrightarrow> pq_is_empty (a_inflight_queue a) \<longleftrightarrow> n = 0"
  using flight_len by (auto simp: sender_ok_def pq_is_empty_def)

text \<open>The bound of the two scans over the chunks in flight is enough: more rounds change nothing.\<close>

lemma flight_sorted: "flight_ok base n q \<Longrightarrow> length (pq_sorted q) = n"
  using flight_len [of base n q] distinct_card [of "pq_sorted q"] by (simp add: flight_ok_def pq_inv_def pq_len_def)

lemma flight_set:
  assumes "flight_ok base n q" "pd_tsn c = t" "pq_get q t = Some d" "pd_user_data c = pd_user_data d"
  shows "flight_ok base n (pq_get_mut q t (\<lambda>_. c))"
proof -
  let ?m = "(pq_chunk_map q)(t \<mapsto> c)"
  have inv: "pq_inv base q" and d: "pq_chunk_map q t = Some d" using assms by (simp_all add: flight_ok_def pq_get_def)
  have "pq_bytes (q\<lparr>pq_chunk_map := ?m\<rparr>) = pq_bytes q"
    unfolding pq_bytes_def using d assms(4) by (intro arg_cong [where f = sum_list] map_cong) simp_all
  moreover have dom: "dom ?m = dom (pq_chunk_map q)" using d by auto
  moreover have "\<And>u x. ?m u = Some x \<Longrightarrow> pd_tsn x = u"
    using inv assms(2) by (auto simp: pq_inv_def split: if_splits)
  ultimately have "pq_inv base (q\<lparr>pq_n_bytes := pq_n_bytes q, pq_chunk_map := ?m\<rparr>)"
    using inv by (intro pq_values_inv [OF inv]) (simp_all add: pq_inv_def)
  then show ?thesis using assms(1) d dom by (simp add: flight_ok_def pq_get_mut_def)
qed

lemma retransmit_loop_enough:
  assumes "flight_ok (a_cumulative_tsn_ack_point a + 1) n (a_inflight_queue a)" "j \<le> n" "n - j \<le> k"
  shows "retransmit_loop k now awnd (of_nat j) b a = retransmit_loop (n - j) now awnd (of_nat j) b a"
  using assms
proof (induction k arbitrary: j b a)
  case (Suc k)
  let ?t = "a_cumulative_tsn_ack_point a + of_nat j + 1"
  have t: "?t = tsn_at (a_cumulative_tsn_ack_point a + 1) j" by (simp add: tsn_at_def)
  have nxt: "(of_nat j + 1 :: u32) = of_nat (Suc j)" by simp
  show ?case
  proof (cases "j = n")
    case True
    have "n < 2147483648" using Suc.prems(1) by (simp add: flight_ok_def)
    then have "?t \<notin> dom (pq_chunk_map (a_inflight_queue a))"
      unfolding t using flight_mem [OF Suc.prems(1), of j] True by simp
    then have "pq_get (a_inflight_queue a) ?t = None" by (simp only: pq_get_def domIff not_not)
    then show ?thesis using True by simp
  next
    case False
    then obtain r where r: "n - j = Suc r" "r = n - Suc j" using Suc.prems(2) by (cases "n - j") auto
    have tsn: "pd_tsn c = ?t" if "pq_get (a_inflight_queue a) ?t = Some c" for c
      using that Suc.prems(1) by (simp add: pq_get_def flight_ok_def pq_inv_def)
    have IH: "retransmit_loop k now awnd (of_nat j + 1) b' a' = retransmit_loop r now awnd (of_nat j + 1) b' a'"
      if "flight_ok (a_cumulative_tsn_ack_point a' + 1) n (a_inflight_queue a')" for b' a'
      unfolding nxt r(2) using that Suc.prems False r by (intro Suc.IH) auto
    show ?thesis
    proof (cases "pq_get (a_inflight_queue a) ?t")
      case None
      then show ?thesis unfolding r(1) by (simp only: retransmit_loop.simps Let_def option.case)
    next
      case (Some d)
      let ?c = "check_partial_reliability_status now (a_use_forward_tsn a) (a_streams a)
        (d\<lparr>pd_retransmit := False, pd_nsent := pd_nsent d + 1\<rparr>)"
      let ?a = "a\<lparr>a_inflight_queue := pq_get_mut (a_inflight_queue a) ?t (\<lambda>_. ?c)\<rparr>"
      have "flight_ok (a_cumulative_tsn_ack_point ?a + 1) n (a_inflight_queue ?a)"
        using flight_set [OF Suc.prems(1) _ Some, of ?c] tsn [OF Some] by simp
      note IHs = IH [OF this] IH [OF Suc.prems(1)]
      show ?thesis unfolding r(1) by (simp only: retransmit_loop.simps Some Let_def option.case IHs)
    qed
  qed
qed simp

lemma fast_retrans_loop_enough:
  assumes "flight_ok (a_cumulative_tsn_ack_point a + 1) n (a_inflight_queue a)" "j \<le> n" "n - j \<le> k"
  shows "fast_retrans_loop k now (of_nat j) b a = fast_retrans_loop (n - j) now (of_nat j) b a"
  using assms
proof (induction k arbitrary: j b a)
  case (Suc k)
  let ?t = "a_cumulative_tsn_ack_point a + of_nat j + 1"
  have t: "?t = tsn_at (a_cumulative_tsn_ack_point a + 1) j" by (simp add: tsn_at_def)
  have nxt: "(of_nat j + 1 :: u32) = of_nat (Suc j)" by simp
  show ?case
  proof (cases "j = n")
    case True
    have "n < 2147483648" using Suc.prems(1) by (simp add: flight_ok_def)
    then have "?t \<notin> dom (pq_chunk_map (a_inflight_queue a))"
      unfolding t using flight_mem [OF Suc.prems(1), of j] True by simp
    then have "pq_get (a_inflight_queue a) ?t = None" by (simp only: pq_get_def domIff not_not)
    then show ?thesis using True by simp
  next
    case False
    then obtain r where r: "n - j = Suc r" "r = n - Suc j" using Suc.prems(2) by (cases "n - j") auto
    have tsn: "pd_tsn c = ?t" if "pq_get (a_inflight_queue a) ?t = Some c" for c
      using that Suc.prems(1) by (simp add: pq_get_def flight_ok_def pq_inv_def)
    have IH: "fast_retrans_loop k now (of_nat j + 1) b' a' = fast_retrans_loop r now (of_nat j + 1) b' a'"
      if "flight_ok (a_cumulative_tsn_ack_point a' + 1) n (a_inflight_queue a')" for b' a'
      unfolding nxt r(2) using that Suc.prems False r by (intro Suc.IH) auto
    show ?thesis
    proof (cases "pq_get (a_inflight_queue a) ?t")
      case None
      then show ?thesis unfolding r(1) by (simp only: fast_retrans_loop.simps Let_def option.case)
    next
      case (Some d)
      let ?c = "check_partial_reliability_status now (a_use_forward_tsn a) (a_streams a)
        (d\<lparr>pd_nsent := pd_nsent d + 1\<rparr>)"
      let ?a = "a\<lparr>a_stats := inc_fast_retrans (a_stats a), a_inflight_queue := pq_get_mut (a_inflight_queue a) ?t (\<lambda>_. ?c)\<rparr>"
      have "flight_ok (a_cumulative_tsn_ack_point ?a + 1) n (a_inflight_queue ?a)"
        using flight_set [OF Suc.prems(1) _ Some, of ?c] tsn [OF Some] by simp
      note IHs = IH [OF this] IH [OF Suc.prems(1)]
      show ?thesis unfolding r(1) using IHs by (simp add: Some Let_def)
    qed
  qed
qed simp

section \<open>Bundling\<close>

text \<open>The bytes of a packet of DATA chunks without the padding.\<close>

definition data_size :: "chunk list \<Rightarrow> nat" where
  "data_size cs = 12 + sum_list (map (\<lambda>c. 4 + chunk_value_length c) cs)"

lemma data_size_snoc [simp]:
  "data_size (cs @ [ChunkPayloadData c]) = data_size cs + (16 + length (pd_user_data c))" "data_size [] = 12"
  by (simp_all add: data_size_def payload_data_value_length_def)

lemma bundle_loop_ok:
  assumes "unat (a_mtu a) < 1073741824" "28 \<le> unat (a_mtu a)" "\<forall>c \<in> set cs. length (pd_user_data c) \<le> unat (a_mtu a) - 28"
    "unat sz = data_size out" "data_size out \<le> unat (a_mtu a) + 16"
    "\<forall>p \<in> set ps. pk_chunks p \<noteq> [] \<and> data_size (pk_chunks p) \<le> unat (a_mtu a) + 16"
  shows "concat (map pk_chunks (bundle_loop a ps out sz cs)) = concat (map pk_chunks ps) @ out @ map ChunkPayloadData cs \<and>
    (\<forall>p \<in> set (bundle_loop a ps out sz cs). pk_chunks p \<noteq> [] \<and> data_size (pk_chunks p) \<le> unat (a_mtu a) + 16)"
  using assms
proof (induction cs arbitrary: ps out sz)
  case Nil
  then show ?case by (auto simp: create_packet_def)
next
  case (Cons c cs)
  let ?n = "length (pd_user_data c)" and ?m = "unat (a_mtu a)"
  have n: "?n \<le> ?m - 28" using Cons.prems(3) by simp
  have un: "unat (of_nat ?n :: u32) = ?n" using n Cons.prems(1) by (intro unat_of_nat32) linarith
  have add: "unat (x + of_nat ?n) = unat x + ?n" "unat (x + (16 + of_nat ?n)) = unat x + (16 + ?n)"
    if "unat x \<le> ?m + 16" for x :: u32
  proof -
    have "unat (16 + of_nat ?n :: u32) = 16 + ?n" using un n Cons.prems(1) by (subst unat_add_lem [THEN iffD1]) auto
    with un n that Cons.prems(1) show "unat (x + of_nat ?n) = unat x + ?n" "unat (x + (16 + of_nat ?n)) = unat x + (16 + ?n)"
      by (subst unat_add_lem [THEN iffD1]; auto)+
  qed
  show ?case
  proof (cases "sz + of_nat ?n > a_mtu a")
    case True
    then have "?m < data_size out + ?n" using add(1) [of sz] Cons.prems(4,5) by (simp add: word_less_nat_alt)
    then have "out \<noteq> []" using n Cons.prems(2) by auto
    then show ?thesis
      using True Cons.IH [where ps = "ps @ [create_packet a out]" and out = "[ChunkPayloadData c]" and sz = "12 + (16 + of_nat ?n)"] Cons.prems n add(2) [of 12]
        data_size_snoc(1) [of "[]" c] by (simp add: create_packet_def data_size_def)
  next
    case False
    then have "data_size out + ?n \<le> ?m" using add(1) [of sz] Cons.prems(4,5) by (simp add: word_less_nat_alt not_less)
    then show ?thesis
      using False Cons.IH [where ps = ps and out = "out @ [ChunkPayloadData c]" and sz = "sz + (16 + of_nat ?n)"] Cons.prems add(2) [of sz] by simp
  qed
qed

section \<open>Properties\<close>





text \<open>The bound is reached: the size that is compared with the MTU leaves out the header of the chunk to be added.\<close>

lemma bundle_exceeds_mtu:
  assumes "a_mtu a = 1228" "length (pd_user_data c) = 600" "length (pd_user_data d) = 600"
  shows "\<exists>p raw. bundle_data_chunks_into_packets a [c, d] = [p] \<and> packet_marshal crc p = Inr raw \<and> length raw = 1244"
proof -
  have "bundle_data_chunks_into_packets a [c, d] = [create_packet a [ChunkPayloadData c, ChunkPayloadData d]]"
    using assms by (simp add: bundle_data_chunks_into_packets_def)
  moreover have "length (payload_data_marshal c) = 616" "length (payload_data_marshal d) = 616"
    using assms by (simp_all add: payload_data_marshal_def chunk_header_marshal_def)
  ultimately show ?thesis
    by (simp add: packet_marshal_def get_padding_size_def create_packet_def Let_def)
qed

text \<open>
  C39. A write before the association is established fails but leaves its mark: the stream has used a
  sequence number and counts the bytes as buffered, though nothing was queued.
\<close>

theorem failed_write_uses_sequence_number:
  assumes "map_of (a_streams a) si = Some s" "ss_state s = RS_ReadWritable" "\<not> ss_unordered s" "0 < unat (ss_max_payload_size s)"
    and "a_state a \<in> {Closed, CookieWait, CookieEchoed}" "length data \<le> unat (a_max_message_size a)"
  shows "\<exists>s'. write_with_ppi a si data ppi =
      (Inl (Err ''ErrPayloadDataStateNotExist''), a\<lparr>a_streams := AList.update si s' (a_streams a)\<rparr>) \<and>
    ss_sequence_number s' = ss_sequence_number s + 1 \<and> ss_buffered_amount s' = ss_buffered_amount s + length data"
proof -
  have "fst (fst (bs_pop_chunk (unat (a_max_message_size a)) data)) = data"
    using assms(6) by (simp add: bs_pop_chunk_def Let_def min_def)
  moreover have "is_writable a si" "\<not> is_drained (a_state a)" "a_state a \<noteq> Established"
    using assms(1,2,5) by (auto simp: is_writable_def is_drained_def)
  moreover obtain cs s' where p: "ss_packetize s data ppi = Inr (cs, s')" "ss_sequence_number s' = ss_sequence_number s + 1"
    "ss_buffered_amount s' = ss_buffered_amount s + length data"
    using ss_packetize_eq [OF assms(4), of data ppi] assms(3) by (simp add: ordered_mode_def)
  ultimately have "write_with_ppi a si data ppi =
      (Inl (Err ''ErrPayloadDataStateNotExist''), a\<lparr>a_streams := AList.update si s' (a_streams a)\<rparr>)"
    using assms(1,6) by (simp add: write_with_ppi_def write_source_def send_payload_data_def Let_def)
  with p(2,3) show ?thesis by blast
qed

theorem failed_write_uses_sequence_number_witness:
  "\<exists>s'. write_with_ppi (association_default\<lparr>a_streams := [(5, ss_new Client 5 1200 PPI_Binary)], a_max_message_size := 10\<rparr>) 5 [7] PPI_Binary =
      (Inl (Err ''ErrPayloadDataStateNotExist''), association_default\<lparr>a_streams := [(5, s')], a_max_message_size := 10\<rparr>) \<and>
    ss_sequence_number s' = 1"
  using failed_write_uses_sequence_number
    [of "association_default\<lparr>a_streams := [(5, ss_new Client 5 1200 PPI_Binary)], a_max_message_size := 10\<rparr>" 5
      "ss_new Client 5 1200 PPI_Binary" "[7]" PPI_Binary]
  by (auto simp: ss_new_def association_default_def)

end
