(* ===== verification/Sctp_Assoc_Main.thy ===== *)
theory Sctp_Assoc_Main
  imports Sctp_Assoc_Recv Sctp_Assoc_Send
begin

text \<open>
The event loop of the association (rtc-sctp/src/association/mod.rs): the dispatch of the chunks of
an incoming packet to their handlers, handle_event as the endpoint calls it, and the timers.  An
error of a handler closes the association; a panic of the decoder is the result of handle_event.
\<close>

section \<open>Incoming packets\<close>

definition USER_INITIATED_ABORT :: u16 where
  "USER_INITIATED_ABORT = 12"

definition ACK_INTERVAL :: u64 where
  "ACK_INTERVAL = 200"

text \<open>The \<^verbatim>\<open>check\<close> methods of the chunks: all but that of INIT accept.\<close>

definition chunk_check :: "chunk \<Rightarrow> unit result" where
  "chunk_check c = (case c of ChunkInit i \<Rightarrow> init_check i | _ \<Rightarrow> Inr ())"

definition enqueue_reply :: "packet list result \<times> association \<Rightarrow> unit result \<times> association" where
  "enqueue_reply r =
     (case r of
        (Inl e, a) \<Rightarrow> (Inl e, a)
      | (Inr packets, a) \<Rightarrow>
          (Inr (), if packets \<noteq> [] then a\<lparr>a_control_queue := a_control_queue a @ packets\<rparr> else a))"

text \<open>
  The dispatch on the type of a chunk. The arguments \<open>new_cookie\<close> and \<open>clock\<close> are the
  random bytes of a new cookie and the clock that the reassembly queue reads. The text that
  \<^verbatim>\<open>ErrAbortChunk\<close> carries is left out.
\<close>

definition handle_chunk ::
    "bytes \<Rightarrow> nat \<Rightarrow> association \<Rightarrow> packet \<Rightarrow> chunk \<Rightarrow> nat \<Rightarrow> unit result \<times> association" where
  "handle_chunk new_cookie clock a p chunk now =
     (case chunk_check chunk of
        Inl e \<Rightarrow> (Inl e, a)
      | Inr _ \<Rightarrow>
          (case chunk of
             ChunkInit c \<Rightarrow>
               enqueue_reply (if ci_is_ack c then handle_init_ack a p c now else handle_init new_cookie a p c)
           | ChunkAbort causes \<Rightarrow>
               if \<exists>e \<in> set causes. ec_code e = USER_INITIATED_ABORT then (Inr (), close a)
               else (Inl (Err ''ErrAbortChunk''), a)
           | ChunkError _ \<Rightarrow> (Inl (Err ''ErrAbortChunk''), a)
           | ChunkHeartbeat params \<Rightarrow> enqueue_reply (handle_heartbeat a params, a)
           | ChunkCookieEcho cookie \<Rightarrow> enqueue_reply (handle_cookie_echo a cookie)
           | ChunkCookieAck \<Rightarrow> enqueue_reply (handle_cookie_ack a)
           | ChunkPayloadData c \<Rightarrow> enqueue_reply (handle_data clock a c)
           | ChunkSelectiveAck c \<Rightarrow> enqueue_reply (handle_sack a c now)
           | ChunkReconfig c \<Rightarrow> enqueue_reply (handle_reconfig a c)
           | ChunkForwardTsn c \<Rightarrow> enqueue_reply (handle_forward_tsn a c)
           | ChunkShutdown _ \<Rightarrow> enqueue_reply (handle_shutdown a)
           | ChunkShutdownAck \<Rightarrow> enqueue_reply (handle_shutdown_ack a)
           | ChunkShutdownComplete \<Rightarrow> enqueue_reply (handle_shutdown_complete a)
           | ChunkHeartbeatAck _ \<Rightarrow> (Inl (Err ''ErrChunkTypeUnhandled''), a)))"

fun handle_chunks ::
    "bytes \<Rightarrow> nat \<Rightarrow> association \<Rightarrow> packet \<Rightarrow> chunk list \<Rightarrow> nat \<Rightarrow> unit result \<times> association" where
  "handle_chunks new_cookie clock a p [] now = (Inr (), a)"
| "handle_chunks new_cookie clock a p (c # cs) now =
     (case handle_chunk new_cookie clock a p c now of
        (Inl e, a) \<Rightarrow> (Inl e, a)
      | (Inr _, a) \<Rightarrow> handle_chunks new_cookie clock a p cs now)"

definition handle_chunk_start :: "association \<Rightarrow> association" where
  "handle_chunk_start a = a\<lparr>a_delayed_ack_triggered := False, a_immediate_ack_triggered := False\<rparr>"

definition handle_chunk_end :: "association \<Rightarrow> nat \<Rightarrow> association" where
  "handle_chunk_end a now =
     (if a_immediate_ack_triggered a then
        a\<lparr>a_ack_state := AS_Immediate, a_timers := tt_stop (a_timers a) Ack\<rparr>
      else if a_delayed_ack_triggered a then
        a\<lparr>a_ack_state := AS_Delay, a_timers := tt_start (a_timers a) Ack now ACK_INTERVAL\<rparr>
      else a)"

definition handle_inbound :: "bytes \<Rightarrow> nat \<Rightarrow> association \<Rightarrow> packet \<Rightarrow> nat \<Rightarrow> unit result \<times> association" where
  "handle_inbound new_cookie clock a p now =
     (case check_packet p of
        Inl _ \<Rightarrow> (Inr (), a)
      | Inr _ \<Rightarrow>
          (case handle_chunks new_cookie clock (handle_chunk_start a) p (pk_chunks p) now of
             (Inl e, a) \<Rightarrow> (Inl e, a)
           | (Inr _, a) \<Rightarrow> (Inr (), handle_chunk_end a now)))"

datatype transmit_payload =
    PartialDecode partial_decode
  | RawEncode "bytes list"

text \<open>
  The event of the endpoint is a datagram with its time of arrival. The result has the panics that
  decoding may raise; every other error closes the association.
\<close>

definition handle_event :: "bytes \<Rightarrow> nat \<Rightarrow> association \<Rightarrow> transmit_payload \<Rightarrow> nat \<Rightarrow> unit result \<times> association" where
  "handle_event new_cookie clock a pl now =
     (case pl of
        PartialDecode partial_decode \<Rightarrow>
          (case partial_finish partial_decode of
             Inl (Err _) \<Rightarrow> (Inr (), a)
           | Inl e \<Rightarrow> (Inl e, a)
           | Inr pkt \<Rightarrow>
               (case handle_inbound new_cookie clock a pkt now of
                  (Inl (Err _), a) \<Rightarrow> (Inr (), close a)
                | (Inl e, a) \<Rightarrow> (Inl e, a)
                | (Inr _, a) \<Rightarrow> (Inr (), a)))
      | RawEncode _ \<Rightarrow> (Inr (), a))"

section \<open>Timers\<close>

definition on_ack_timeout :: "association \<Rightarrow> association" where
  "on_ack_timeout a = a\<lparr>a_stats := inc_ack_timeouts (a_stats a), a_ack_state := AS_Immediate\<rparr>"

definition on_retransmission_timeout :: "association \<Rightarrow> timer \<Rightarrow> association" where
  "on_retransmission_timeout a timer_id =
     (case timer_id of
        T1Init \<Rightarrow> snd (send_init a)
      | T1Cookie \<Rightarrow> snd (send_cookie_echo a)
      | T2Shutdown \<Rightarrow>
          (if a_state a = ShutdownSent then a\<lparr>a_will_send_shutdown := True\<rparr>
           else if a_state a = ShutdownAckSent then a\<lparr>a_will_send_shutdown_ack := True\<rparr>
           else a)
      | T3RTX \<Rightarrow>
          (let a = a\<lparr>a_stats := inc_t3timeouts (a_stats a)\<rparr>;
               a = a\<lparr>a_ssthresh := max (a_cwnd a div 2) (4 * a_mtu a)\<rparr>;
               a = a\<lparr>a_cwnd := a_mtu a\<rparr>;
               a = (if a_use_forward_tsn a then
                      let a = a\<lparr>a_advanced_peer_tsn_ack_point :=
                                  skip_abandoned (length (pq_sorted (a_inflight_queue a)))
                                    (a_inflight_queue a) (a_advanced_peer_tsn_ack_point a)\<rparr>
                      in if sna32gt (a_advanced_peer_tsn_ack_point a) (a_cumulative_tsn_ack_point a)
                         then a\<lparr>a_will_send_forward_tsn := True\<rparr> else a
                    else a)
           in a\<lparr>a_inflight_queue := pq_mark_all_to_retransmit (a_inflight_queue a)\<rparr>)
      | Reconfig \<Rightarrow> a\<lparr>a_will_retransmit_reconfig := True\<rparr>
      | Ack \<Rightarrow> a)"

definition on_retransmission_failure :: "association \<Rightarrow> timer \<Rightarrow> association" where
  "on_retransmission_failure a timer_id =
     (case timer_id of
        T1Init \<Rightarrow> a\<lparr>a_error := Some (HandshakeFailed (Err ''ErrHandshakeInitAck''))\<rparr>
      | T1Cookie \<Rightarrow> a\<lparr>a_error := Some (HandshakeFailed (Err ''ErrHandshakeCookieEcho''))\<rparr>
      | _ \<Rightarrow> a)"

definition timeout_step :: "nat \<Rightarrow> association \<Rightarrow> timer \<Rightarrow> association" where
  "timeout_step now a timer =
     (let ((expired, failure, n_rtos), timers) = tt_is_expired (a_timers a) timer now;
          a = a\<lparr>a_timers := timers\<rparr>
      in if \<not> expired then a
         else
           let a = a\<lparr>a_timers := tt_set (a_timers a) timer None\<rparr> in
           if timer = Ack then on_ack_timeout a
           else if failure then on_retransmission_failure a timer
           else
             let a = on_retransmission_timeout a timer
             in a\<lparr>a_timers := tt_start (a_timers a) timer now (rm_get_rto (a_rto_mgr a))\<rparr>)"

definition handle_timeout :: "association \<Rightarrow> nat \<Rightarrow> association" where
  "handle_timeout a now = foldl (timeout_step now) a timer_values"

section \<open>Properties\<close>

lemma timeout_step_early:
  assumes "\<forall>x. tt_next_timeout (a_timers a) = Some x \<longrightarrow> now < x"
  shows "timeout_step now a timer = a"
  using tt_not_expired [OF assms, of timer] by (simp add: timeout_step_def)

text \<open>
  C28. \<^verbatim>\<open>handle_timeout\<close> may be called at any time: before the time that \<^verbatim>\<open>poll_timeout\<close> gives it
  changes nothing.
\<close>

theorem spurious_timeout_no_op:
  assumes "\<forall>x. poll_timeout a = Some x \<longrightarrow> now < x"
  shows "handle_timeout a now = a"
proof -
  have "foldl (timeout_step now) a ts = a" for ts
    using timeout_step_early [of a now] assms by (induction ts) (simp_all add: poll_timeout_def)
  then show ?thesis by (simp add: handle_timeout_def)
qed

theorem spurious_timeout_no_op_witness:
  "handle_timeout (association_default\<lparr>a_timers := tt_start tt_default T3RTX 5 1000\<rparr>) 7 =
     association_default\<lparr>a_timers := tt_start tt_default T3RTX 5 1000\<rparr>"
  by (rule spurious_timeout_no_op)
    (simp add: poll_timeout_def tt_next_timeout_def tt_start_def tt_default_def timer_values_def List.map_filter_def
      calculate_next_timeout_def from_millis_def)

end
