(* ===== verification/Sctp_Assoc_Inv.thy ===== *)
theory Sctp_Assoc_Inv
  imports Sctp_Assoc_Main
begin

text \<open>
Well-formedness of the association under all its public operations: the registry of streams and the
sizes of the chunks that wait or are in flight.  A lemma per operation shows that it keeps
assoc_wf; the step relation assoc_step collects the public operations.
\<close>

section \<open>Well-formed associations\<close>

definition sized :: "nat \<Rightarrow> payload_queue \<Rightarrow> bool" where
  "sized n q \<longleftrightarrow> (\<forall>t c. pq_chunk_map q t = Some c \<longrightarrow> length (pd_user_data c) \<le> n)"

definition stream_wf :: "side \<Rightarrow> u32 \<Rightarrow> u16 \<Rightarrow> stream_state \<Rightarrow> bool" where
  "stream_wf sd mps i s \<longleftrightarrow>
     ss_stream_identifier s = i \<and> rq_si (ss_reassembly_queue s) = i \<and> ss_side s = sd \<and>
     ss_max_payload_size s = mps"

definition streams_wf :: "side \<Rightarrow> u32 \<Rightarrow> (u16 \<times> stream_state) list \<Rightarrow> bool" where
  "streams_wf sd mps ss \<longleftrightarrow> distinct (map fst ss) \<and> (\<forall>i s. map_of ss i = Some s \<longrightarrow> stream_wf sd mps i s)"

definition pending_sized :: "nat \<Rightarrow> pending_queue \<Rightarrow> bool" where
  "pending_sized n q \<longleftrightarrow> (\<forall>c \<in> set (pn_unordered_queue q @ pn_ordered_queue q). length (pd_user_data c) \<le> n)"

definition assoc_wf :: "association \<Rightarrow> bool" where
  "assoc_wf a \<longleftrightarrow>
     a_mtu a = a_max_payload_size a + 28 \<and>
     streams_wf (a_side a) (a_max_payload_size a) (a_streams a) \<and>
     pending_sized (unat (a_max_payload_size a)) (a_pending_queue a) \<and>
     sized (unat (a_max_payload_size a)) (a_inflight_queue a)"

text \<open>The fields that well-formedness reads.\<close>

definition wf_view :: "association \<Rightarrow> side \<times> u32 \<times> u32 \<times> (u16 \<times> stream_state) list \<times> pending_queue \<times> payload_queue" where
  "wf_view a = (a_side a, a_max_payload_size a, a_mtu a, a_streams a, a_pending_queue a, a_inflight_queue a)"

lemma assoc_wf_view: "wf_view a = wf_view b \<Longrightarrow> assoc_wf a = assoc_wf b"
  by (simp add: assoc_wf_def wf_view_def)

lemma assoc_wf_inflight: "assoc_wf a \<Longrightarrow> sized (unat (a_max_payload_size a)) q \<Longrightarrow> assoc_wf (a\<lparr>a_inflight_queue := q\<rparr>)"
  by (simp add: assoc_wf_def)

lemma assoc_wf_pending: "assoc_wf a \<Longrightarrow> pending_sized (unat (a_max_payload_size a)) q \<Longrightarrow> assoc_wf (a\<lparr>a_pending_queue := q\<rparr>)"
  by (simp add: assoc_wf_def)

lemma assoc_wf_update:
  assumes "assoc_wf a" "stream_wf (a_side a) (a_max_payload_size a) i s"
  shows "assoc_wf (a\<lparr>a_streams := AList.update i s (a_streams a)\<rparr>)"
  using assms by (auto simp: assoc_wf_def streams_wf_def distinct_update update_conv' split: if_splits)

lemma assoc_wf_delete: "assoc_wf a \<Longrightarrow> assoc_wf (a\<lparr>a_streams := AList.delete i (a_streams a)\<rparr>)"
  by (auto simp: assoc_wf_def streams_wf_def distinct_delete delete_conv' split: if_splits)

lemma assoc_wf_stream: "assoc_wf a \<Longrightarrow> map_of (a_streams a) i = Some s \<Longrightarrow> stream_wf (a_side a) (a_max_payload_size a) i s"
  by (simp add: assoc_wf_def streams_wf_def)

section \<open>The queues\<close>

lemma sized_pop: "sized n q \<Longrightarrow> sized n (snd (pq_pop q t))"
  by (auto simp: sized_def pq_pop_def Let_def split: option.split)

lemma sized_get_mut:
  assumes "sized n q" "\<And>c. pq_get q t = Some c \<Longrightarrow> length (pd_user_data c) \<le> n \<Longrightarrow> length (pd_user_data (f c)) \<le> n"
  shows "sized n (pq_get_mut q t f)"
  using assms by (auto simp: sized_def pq_get_mut_def pq_get_def split: option.split)

lemma sized_mark: "sized n q \<Longrightarrow> sized n (snd (pq_mark_as_acked q t))"
  by (auto simp: sized_def pq_mark_as_acked_def Let_def split: option.split)

lemma sized_mark_all: "sized n q \<Longrightarrow> sized n (pq_mark_all_to_retransmit q)"
  by (auto simp: sized_def pq_mark_all_to_retransmit_def)

lemma sized_push: "sized n q \<Longrightarrow> length (pd_user_data c) \<le> n \<Longrightarrow> sized n (pq_push_no_check q c)"
  by (auto simp: sized_def pq_push_no_check_def pq_update_sorted_keys_def)

lemma pending_sized_push: "pending_sized n q \<Longrightarrow> length (pd_user_data c) \<le> n \<Longrightarrow> pending_sized n (pn_push q c)"
  by (auto simp: pending_sized_def pn_push_def Let_def)

lemma pending_sized_pushes:
  "pending_sized n q \<Longrightarrow> \<forall>c \<in> set cs. length (pd_user_data c) \<le> n \<Longrightarrow> pending_sized n (foldl pn_push q cs)"
  by (induction cs arbitrary: q) (simp_all add: pending_sized_push)

lemma pending_sized_pop:
  assumes "pending_sized n q"
  shows "pending_sized n (snd (pn_pop q b u))" "fst (pn_pop q b u) = Some c \<Longrightarrow> length (pd_user_data c) \<le> n"
proof -
  have "set (tl xs) \<subseteq> set xs" for xs :: "chunk_payload_data list" by (cases xs) auto
  with assms show "pending_sized n (snd (pn_pop q b u))"
    by (simp add: pending_sized_def pn_pop_def Let_def split: option.split) blast
next
  assume "fst (pn_pop q b u) = Some c"
  with assms show "length (pd_user_data c) \<le> n"
    by (cases "pn_unordered_queue q"; cases "pn_ordered_queue q")
      (auto simp: pending_sized_def pn_pop_def Let_def split: if_splits option.splits)
qed

section \<open>Operations that leave the view alone\<close>

lemma view_update [simp]:
  "wf_view (a\<lparr>a_state := v0\<rparr>) = wf_view a"
  "wf_view (a\<lparr>a_handshake_completed := v1\<rparr>) = wf_view a"
  "wf_view (a\<lparr>a_max_message_size := v2\<rparr>) = wf_view a"
  "wf_view (a\<lparr>a_inflight_queue_length := v3\<rparr>) = wf_view a"
  "wf_view (a\<lparr>a_will_send_shutdown := v4\<rparr>) = wf_view a"
  "wf_view (a\<lparr>a_bytes_received := v5\<rparr>) = wf_view a"
  "wf_view (a\<lparr>a_bytes_sent := v6\<rparr>) = wf_view a"
  "wf_view (a\<lparr>a_peer_verification_tag := v7\<rparr>) = wf_view a"
  "wf_view (a\<lparr>a_my_verification_tag := v8\<rparr>) = wf_view a"
  "wf_view (a\<lparr>a_my_next_tsn := v9\<rparr>) = wf_view a"
  "wf_view (a\<lparr>a_peer_last_tsn := v10\<rparr>) = wf_view a"
  "wf_view (a\<lparr>a_min_tsn2measure_rtt := v11\<rparr>) = wf_view a"
  "wf_view (a\<lparr>a_will_send_forward_tsn := v12\<rparr>) = wf_view a"
  "wf_view (a\<lparr>a_will_retransmit_fast := v13\<rparr>) = wf_view a"
  "wf_view (a\<lparr>a_will_retransmit_reconfig := v14\<rparr>) = wf_view a"
  "wf_view (a\<lparr>a_will_send_shutdown_ack := v15\<rparr>) = wf_view a"
  "wf_view (a\<lparr>a_will_send_shutdown_complete := v16\<rparr>) = wf_view a"
  "wf_view (a\<lparr>a_my_next_rsn := v17\<rparr>) = wf_view a"
  "wf_view (a\<lparr>a_reconfigs := v18\<rparr>) = wf_view a"
  "wf_view (a\<lparr>a_reconfig_requests := v19\<rparr>) = wf_view a"
  "wf_view (a\<lparr>a_remote_addr := v20\<rparr>) = wf_view a"
  "wf_view (a\<lparr>a_local_addr := v21\<rparr>) = wf_view a"
  "wf_view (a\<lparr>a_source_port := v22\<rparr>) = wf_view a"
  "wf_view (a\<lparr>a_destination_port := v23\<rparr>) = wf_view a"
  "wf_view (a\<lparr>a_my_max_num_inbound_streams := v24\<rparr>) = wf_view a"
  "wf_view (a\<lparr>a_my_max_num_outbound_streams := v25\<rparr>) = wf_view a"
  "wf_view (a\<lparr>a_my_cookie := v26\<rparr>) = wf_view a"
  "wf_view (a\<lparr>a_payload_queue := v27\<rparr>) = wf_view a"
  "wf_view (a\<lparr>a_control_queue := v28\<rparr>) = wf_view a"
  "wf_view (a\<lparr>a_stream_queue := v29\<rparr>) = wf_view a"
  "wf_view (a\<lparr>a_cumulative_tsn_ack_point := v30\<rparr>) = wf_view a"
  "wf_view (a\<lparr>a_advanced_peer_tsn_ack_point := v31\<rparr>) = wf_view a"
  "wf_view (a\<lparr>a_use_forward_tsn := v32\<rparr>) = wf_view a"
  "wf_view (a\<lparr>a_rto_mgr := v33\<rparr>) = wf_view a"
  "wf_view (a\<lparr>a_timers := v34\<rparr>) = wf_view a"
  "wf_view (a\<lparr>a_max_receive_buffer_size := v35\<rparr>) = wf_view a"
  "wf_view (a\<lparr>a_cwnd := v36\<rparr>) = wf_view a"
  "wf_view (a\<lparr>a_rwnd := v37\<rparr>) = wf_view a"
  "wf_view (a\<lparr>a_ssthresh := v38\<rparr>) = wf_view a"
  "wf_view (a\<lparr>a_partial_bytes_acked := v39\<rparr>) = wf_view a"
  "wf_view (a\<lparr>a_in_fast_recovery := v40\<rparr>) = wf_view a"
  "wf_view (a\<lparr>a_fast_recover_exit_point := v41\<rparr>) = wf_view a"
  "wf_view (a\<lparr>a_stored_init := v42\<rparr>) = wf_view a"
  "wf_view (a\<lparr>a_stored_cookie_echo := v43\<rparr>) = wf_view a"
  "wf_view (a\<lparr>a_events := v44\<rparr>) = wf_view a"
  "wf_view (a\<lparr>a_endpoint_events := v45\<rparr>) = wf_view a"
  "wf_view (a\<lparr>a_error := v46\<rparr>) = wf_view a"
  "wf_view (a\<lparr>a_delayed_ack_triggered := v47\<rparr>) = wf_view a"
  "wf_view (a\<lparr>a_immediate_ack_triggered := v48\<rparr>) = wf_view a"
  "wf_view (a\<lparr>a_stats := v49\<rparr>) = wf_view a"
  "wf_view (a\<lparr>a_ack_state := v50\<rparr>) = wf_view a"
  "wf_view (a\<lparr>a_ack_mode := v51\<rparr>) = wf_view a"
  by (simp_all add: wf_view_def)

lemma view_if [simp]: "wf_view (if b then x else y) = (if b then wf_view x else wf_view y)"
  by simp

lemma view_simple [simp]:
  "wf_view (set_state a st) = wf_view a" "wf_view (snd (send_init a)) = wf_view a"
  "wf_view (snd (send_cookie_echo a)) = wf_view a" "wf_view (close_all_timers a) = wf_view a"
  "wf_view (snd (poll a)) = wf_view a" "wf_view (snd (poll_endpoint_event a)) = wf_view a"
  "wf_view (snd (accept_stream a)) = wf_view a" "wf_view (snd (shutdown a)) = wf_view a"
  "wf_view (handle_chunk_start a) = wf_view a" "wf_view (handle_chunk_end a now) = wf_view a"
  "wf_view (snd (generate_next_rsn a)) = wf_view a" "wf_view (readable_event a s) = wf_view a"
  by (simp_all add: set_state_def send_init_def send_cookie_echo_def close_all_timers_def poll_def
      poll_endpoint_event_def accept_stream_def shutdown_def handle_chunk_start_def handle_chunk_end_def
      generate_next_rsn_def readable_event_def Let_def split: option.split list.split)

lemma view_handshake [simp]:
  "wf_view (snd (handle_init ck a p i)) = wf_view a" "wf_view (snd (handle_cookie_echo a bs)) = wf_view a"
  "wf_view (snd (handle_cookie_ack a)) = wf_view a" "wf_view (snd (handle_shutdown a)) = wf_view a"
  "wf_view (snd (handle_shutdown_ack a)) = wf_view a"
  by (simp_all add: handle_init_def handle_cookie_echo_def handle_cookie_ack_def handle_shutdown_def
      handle_shutdown_ack_def set_state_def Let_def split: option.split)

lemma view_init_ack [simp]: "wf_view (snd (handle_init_ack a p i now)) = wf_view a"
  by (simp add: handle_init_ack_def set_state_def send_cookie_echo_def Let_def split: option.split)

lemma view_sack [simp]:
  "wf_view (measure_rtt a c now) = wf_view a"
  "wf_view (snd (ack_chunk now i c bytes a)) = wf_view a"
  "wf_view (on_cumulative_tsn_ack_point_advanced a n now) = wf_view a"
  "wf_view (postprocess_sack a st now) = wf_view a" "wf_view (advance_peer_ack_point a) = wf_view a"
proof -
  show m: "wf_view (measure_rtt a c now) = wf_view a" for a
    by (simp add: measure_rtt_def Let_def split: option.split)
  show "wf_view (snd (ack_chunk now i c bytes a)) = wf_view a"
    by (simp add: ack_chunk_def Let_def case_prod_beta if_distrib [of snd] m cong: if_cong split del: if_split)
  show "wf_view (on_cumulative_tsn_ack_point_advanced a n now) = wf_view a"
    by (simp add: on_cumulative_tsn_ack_point_advanced_def Let_def cong: if_cong split del: if_split)
  show "wf_view (postprocess_sack a st now) = wf_view a"
    by (simp add: postprocess_sack_def cong: if_cong split del: if_split)
  show "wf_view (advance_peer_ack_point a) = wf_view a"
    by (simp add: advance_peer_ack_point_def Let_def cong: if_cong split del: if_split)
qed

lemma view_forward_peer_last_tsn [simp]: "wf_view (forward_peer_last_tsn t a) = wf_view a"
  by (induction t a rule: forward_peer_last_tsn.induct) (subst forward_peer_last_tsn.simps, simp)

lemma assoc_wf_same: "assoc_wf a \<Longrightarrow> wf_view b = wf_view a \<Longrightarrow> assoc_wf b"
  using assoc_wf_view by blast

lemma assoc_wf_unregister: "assoc_wf a \<Longrightarrow> assoc_wf (unregister_stream a i)"
  by (simp add: unregister_stream_def assoc_wf_delete)

lemma assoc_wf_close: "assoc_wf a \<Longrightarrow> assoc_wf (close a)"
proof -
  assume w: "assoc_wf a"
  have "assoc_wf (foldl unregister_stream b ids)" if "assoc_wf b" for b ids
    using that by (induction ids arbitrary: b) (simp_all add: assoc_wf_unregister)
  then show ?thesis using w by (simp add: close_def Let_def assoc_wf_same [OF w])
qed

lemma assoc_wf_create_stream: "assoc_wf a \<Longrightarrow> assoc_wf (create_stream a i acc ppi)"
proof -
  assume w: "assoc_wf a"
  define b where "b = (if acc then a\<lparr>a_stream_queue := a_stream_queue a @ [i], a_events := a_events a @ [StreamEv Opened]\<rparr> else a)"
  have "assoc_wf b" by (rule assoc_wf_same [OF w]) (simp add: b_def)
  then show ?thesis
    using assoc_wf_update [of b i "ss_new (a_side a) i (a_max_payload_size a) ppi"]
    by (simp add: create_stream_def b_def ss_new_def stream_wf_def rq_new_def Let_def split: if_splits)
qed

section \<open>Receiving\<close>

lemma rq_si_subtract [simp]:
  "rq_si (rq_subtract_num_bytes q n) = rq_si q"
  "rq_si (foldl (\<lambda>q c. rq_subtract_num_bytes q (length (pd_user_data c))) q cs) = rq_si q"
proof -
  show s: "rq_si (rq_subtract_num_bytes q n) = rq_si q" for q n by (simp add: rq_subtract_num_bytes_def)
  show "rq_si (foldl (\<lambda>q c. rq_subtract_num_bytes q (length (pd_user_data c))) q cs) = rq_si q"
    by (induction cs arbitrary: q) (simp_all add: s)
qed

lemma rq_si_frame [simp]:
  "rq_si (snd (rq_push clock q c)) = rq_si q" "rq_si (snd (rq_read q)) = rq_si q"
  "rq_si (rq_forward_tsn_for_ordered q ssn) = rq_si q" "rq_si (rq_forward_tsn_for_unordered q t) = rq_si q"
  by (simp_all add: rq_push_def rq_find_complete_unordered_chunk_set_def rq_read_def rq_take_unordered_def
      rq_take_ordered_def rq_forward_tsn_for_ordered_def rq_forward_tsn_for_unordered_def
      Let_def case_prod_beta split: option.split list.split)

lemma reset_stream_steps_wf:
  "assoc_wf a \<Longrightarrow> assoc_wf (snd (foldl (reset_stream_step r) (sis, a) ids))"
  by (induction ids arbitrary: sis a) (simp_all add: reset_stream_step_def assoc_wf_unregister)

lemma reset_streams_if_any_wf:
  assumes "assoc_wf a"
  shows "assoc_wf (snd (reset_streams_if_any a p r))"
proof -
  obtain rq rs t ids where p: "p = (rq, rs, t, ids)" by (cases p)
  obtain sis b where f: "foldl (reset_stream_step r) ([], a) ids = (sis, b)" by fastforce
  have w: "assoc_wf b" using reset_stream_steps_wf [OF assms, of r "[]" ids] f by simp
  show ?thesis
    using assms assoc_wf_same [OF w] assoc_wf_same [OF assms]
    by (simp add: reset_streams_if_any_def generate_next_rsn_def p f Let_def)
qed

lemma reset_steps_wf: "assoc_wf a \<Longrightarrow> assoc_wf (snd (foldl reset_step (reply, a) reqs))"
  by (induction reqs arbitrary: reply a) (simp_all add: reset_step_def case_prod_beta Let_def reset_streams_if_any_wf)

lemma advance_peer_last_tsn_wf: "assoc_wf a \<Longrightarrow> assoc_wf (snd (advance_peer_last_tsn reply a))"
proof (induction reply a rule: advance_peer_last_tsn.induct)
  case (1 reply a)
  obtain x q where pop: "pq_pop (a_payload_queue a) (a_peer_last_tsn a + 1) = (x, q)" by fastforce
  have w: "assoc_wf (a\<lparr>a_payload_queue := q\<rparr>)" "assoc_wf (a\<lparr>a_payload_queue := q, a_peer_last_tsn := a_peer_last_tsn a + 1\<rparr>)"
    by (simp_all add: assoc_wf_same [OF 1(2)])
  show ?case
  proof (cases x)
    case None
    then show ?thesis using w by (subst advance_peer_last_tsn.simps) (simp add: pop)
  next
    case (Some c)
    then show ?thesis
      using 1(1) [OF pop [symmetric] Some refl refl refl] reset_steps_wf [OF w(2)]
      by (subst advance_peer_last_tsn.simps) (simp add: pop Let_def)
  qed
qed

lemma handle_peer_last_tsn_wf: "assoc_wf a \<Longrightarrow> assoc_wf (snd (handle_peer_last_tsn_and_acknowledgement a b))"
proof -
  assume w: "assoc_wf a"
  show ?thesis
    by (rule assoc_wf_same [OF advance_peer_last_tsn_wf [OF w, of "[]"]])
      (simp add: handle_peer_last_tsn_and_acknowledgement_def case_prod_beta Let_def)
qed

lemma stream_handle_data_wf: "assoc_wf a \<Longrightarrow> assoc_wf (stream_handle_data clock a d)"
proof (cases "map_of (a_streams a) (pd_stream_identifier d)")
  case (Some s)
  assume w: "assoc_wf a"
  let ?s = "snd (ss_handle_data clock s d)" and ?i = "pd_stream_identifier d"
  have "stream_wf (a_side a) (a_max_payload_size a) ?i ?s"
    using assoc_wf_stream [OF w Some] by (simp add: stream_wf_def ss_handle_data_def case_prod_beta)
  from assoc_wf_update [OF w this] show ?thesis
    by (rule assoc_wf_same) (simp add: stream_handle_data_def Some case_prod_beta Let_def wf_view_def)
qed (simp add: stream_handle_data_def)

lemma handle_data_wf: "assoc_wf a \<Longrightarrow> assoc_wf (snd (handle_data clock a d))"
proof -
  assume w: "assoc_wf a"
  have g: "assoc_wf (get_or_create_stream (a\<lparr>a_stats := st\<rparr>) i)" for st i
    by (simp add: get_or_create_stream_def assoc_wf_create_stream assoc_wf_same [OF w])
  note g' = assoc_wf_same [OF g]
  show ?thesis
    by (simp add: handle_data_def Let_def case_prod_beta handle_peer_last_tsn_wf stream_handle_data_wf g g'
        assoc_wf_same [OF w] split: option.split)
qed

lemma forward_ordered_step_wf: "assoc_wf a \<Longrightarrow> assoc_wf (forward_ordered_step a f)"
proof (cases "map_of (a_streams a) (fts_identifier f)")
  case (Some s)
  assume w: "assoc_wf a"
  let ?s = "ss_handle_forward_tsn_for_ordered s (fts_sequence f)"
  have "stream_wf (a_side a) (a_max_payload_size a) (fts_identifier f) ?s"
    using assoc_wf_stream [OF w Some] by (simp add: stream_wf_def ss_handle_forward_tsn_for_ordered_def)
  from assoc_wf_update [OF w this] show ?thesis
    by (rule assoc_wf_same) (simp add: forward_ordered_step_def Some Let_def)
qed (simp add: forward_ordered_step_def)

lemma forward_unordered_steps_wf:
  assumes "assoc_wf a" "\<forall>(i, s) \<in> set ss. stream_wf (a_side a) (a_max_payload_size a) i s"
  shows "assoc_wf (foldl (forward_unordered_step t) a ss)"
  using assms
proof (induction ss arbitrary: a)
  case (Cons x ss)
  obtain i s where x: "x = (i, s)" by (cases x)
  let ?a = "forward_unordered_step t a x" and ?s = "ss_handle_forward_tsn_for_unordered s t"
  have "stream_wf (a_side a) (a_max_payload_size a) i ?s"
    using Cons.prems(2) by (simp add: x stream_wf_def ss_handle_forward_tsn_for_unordered_def)
  from assoc_wf_update [OF Cons.prems(1) this] have "assoc_wf ?a"
    by (rule assoc_wf_same) (simp add: forward_unordered_step_def x Let_def)
  moreover have "a_side ?a = a_side a" "a_max_payload_size ?a = a_max_payload_size a"
    by (simp_all add: forward_unordered_step_def x Let_def readable_event_def)
  ultimately show ?case using Cons.IH [of ?a] Cons.prems(2) by simp
qed simp

lemma handle_forward_tsn_wf: "assoc_wf a \<Longrightarrow> assoc_wf (snd (handle_forward_tsn a c))"
proof -
  assume w: "assoc_wf a"
  let ?f = "foldl forward_ordered_step (forward_peer_last_tsn (ft_new_cumulative_tsn c) a) (ft_streams c)"
  have "assoc_wf (foldl forward_ordered_step b fs)" if "assoc_wf b" for b fs
    using that by (induction fs arbitrary: b) (simp_all add: forward_ordered_step_wf)
  then have f: "assoc_wf ?f" by (simp add: assoc_wf_same [OF w])
  then have "\<forall>(i, s) \<in> set (a_streams ?f). stream_wf (a_side ?f) (a_max_payload_size ?f) i s"
    by (auto simp: assoc_wf_def streams_wf_def)
  from forward_unordered_steps_wf [OF f this] show ?thesis
    by (simp add: handle_forward_tsn_def Let_def handle_peer_last_tsn_wf w assoc_wf_same [OF w])
qed

lemma handle_reconfig_param_wf: "assoc_wf a \<Longrightarrow> assoc_wf (snd (handle_reconfig_param a p reply))"
proof -
  assume w: "assoc_wf a"
  show ?thesis
    by (simp add: handle_reconfig_param_def Let_def case_prod_beta reset_streams_if_any_wf w assoc_wf_same [OF w]
        split: param.split)
qed

lemma handle_reconfig_wf: "assoc_wf a \<Longrightarrow> assoc_wf (snd (handle_reconfig a c))"
  using handle_reconfig_param_wf [of a]
  by (auto simp: handle_reconfig_def handle_reconfig_param_wf split: option.split prod.split sum.split)
    (metis handle_reconfig_param_wf snd_conv)+

lemma read_sctp_wf: "assoc_wf a \<Longrightarrow> assoc_wf (snd (read_sctp a i))"
proof (cases "map_of (a_streams a) i")
  case (Some s)
  assume w: "assoc_wf a"
  let ?s = "s\<lparr>ss_reassembly_queue := snd (rq_read (ss_reassembly_queue s))\<rparr>"
  have "stream_wf (a_side a) (a_max_payload_size a) i ?s"
    using assoc_wf_stream [OF w Some] by (simp add: stream_wf_def)
  from assoc_wf_update [OF w this] w show ?thesis
    by (simp add: read_sctp_def Some case_prod_beta Let_def)
qed (simp add: read_sctp_def)

section \<open>Acknowledgements\<close>

lemma ack_cumulative_wf: "assoc_wf a \<Longrightarrow> assoc_wf (snd (ack_cumulative now cum i bytes a))"
proof (induction now cum i bytes a rule: ack_cumulative.induct)
  case (1 now cum i bytes a)
  obtain x q where pop: "pq_pop (a_inflight_queue a) i = (x, q)" by fastforce
  have w: "assoc_wf (a\<lparr>a_inflight_queue := q\<rparr>)"
    using assoc_wf_inflight [OF 1(2)] sized_pop [of _ "a_inflight_queue a" i] 1(2) pop by (simp add: assoc_wf_def)
  show ?case
    using 1(1) [OF _ pop [symmetric] _ refl] w 1(2) assoc_wf_same [OF w]
    by (subst ack_cumulative.simps) (auto simp: pop Let_def split: option.split)
qed

lemma sack_gap_wf: "assoc_wf a \<Longrightarrow> assoc_wf (snd (sack_gap now tsn bytes htna a))"
proof -
  assume w: "assoc_wf a"
  have "assoc_wf (a\<lparr>a_inflight_queue := snd (pq_mark_as_acked (a_inflight_queue a) tsn)\<rparr>)"
    using assoc_wf_inflight [OF w] sized_mark [of _ "a_inflight_queue a" tsn] w by (simp add: assoc_wf_def)
  note this [THEN assoc_wf_same]
  then show ?thesis
    by (simp add: sack_gap_def Let_def case_prod_beta w assoc_wf_same [OF w] split: option.split)
qed

lemma sack_gaps_wf: "assoc_wf a \<Longrightarrow> assoc_wf (snd (sack_gaps now cum ids bytes htna a))"
proof (induction now cum ids bytes htna a rule: sack_gaps.induct)
  case (2 now cum i "is" bytes htna a)
  then show ?case
    using sack_gap_wf [OF 2(2), of now "cum + of_nat i" bytes htna] by (auto split: prod.split sum.split)
qed simp

lemma miss_loop_wf: "assoc_wf a \<Longrightarrow> assoc_wf (snd (miss_loop htna max_tsn tsn a))"
proof (induction htna max_tsn tsn a rule: miss_loop.induct)
  case (1 htna max_tsn tsn a)
  have w: "assoc_wf (a\<lparr>a_inflight_queue := pq_get_mut (a_inflight_queue a) tsn (\<lambda>c. c\<lparr>pd_miss_indicator := pd_miss_indicator c + 1\<rparr>)\<rparr>)"
    using assoc_wf_inflight [OF 1(2) sized_get_mut] 1(2) by (simp add: assoc_wf_def)
  have "assoc_wf (miss_chunk htna tsn c a)" for c
    unfolding miss_chunk_def Let_def using w 1(2) assoc_wf_same [OF w] by simp
  then show ?case using 1 by (subst miss_loop.simps) (simp split: option.split)
qed

lemma release_steps_wf: "assoc_wf a \<Longrightarrow> assoc_wf (foldl release_step a rs)"
proof (induction rs arbitrary: a)
  case (Cons r rs)
  obtain i n where r: "r = (i, n)" by (cases r)
  have "assoc_wf (release_step a r)"
  proof (cases "map_of (a_streams a) i")
    case (Some s)
    have "stream_wf (a_side a) (a_max_payload_size a) i (snd (ss_on_buffer_released s n))"
      using assoc_wf_stream [OF Cons.prems Some] by (simp add: stream_wf_def ss_on_buffer_released_def Let_def)
    from assoc_wf_update [OF Cons.prems this] show ?thesis
      by (rule assoc_wf_same) (simp add: release_step_def r Some case_prod_beta Let_def)
  qed (simp add: release_step_def r Cons.prems)
  then show ?case by (simp add: Cons.IH)
qed simp

lemma process_fast_retransmission_wf: "assoc_wf a \<Longrightarrow> assoc_wf (snd (process_fast_retransmission a t h v))"
proof -
  assume w: "assoc_wf a"
  define r where "r = (if \<not> a_in_fast_recovery a \<or> v then
      let max_tsn = (if \<not> a_in_fast_recovery a then h else t + of_nat (pq_len (a_inflight_queue a)) + 1)
      in miss_loop h max_tsn (t + 1) a else (Inr (), a))"
  obtain x b where r': "r = (x, b)" by (cases r)
  have "assoc_wf (snd r)" by (simp add: r_def Let_def miss_loop_wf w)
  then have b: "assoc_wf b" by (simp add: r')
  have "process_fast_retransmission a t h v = (case r of (Inl e, a) \<Rightarrow> (Inl e, a)
      | (Inr _, a) \<Rightarrow> (Inr (), if a_in_fast_recovery a \<and> v then a\<lparr>a_will_retransmit_fast := True\<rparr> else a))"
    by (simp only: process_fast_retransmission_def r_def Let_def)
  then show ?thesis using b assoc_wf_same [OF b] by (cases x) (simp_all add: r')
qed

lemma process_selective_ack_wf: "assoc_wf a \<Longrightarrow> assoc_wf (snd (process_selective_ack a d now))"
  using ack_cumulative_wf [of a now "sa_cumulative_tsn_ack d" "a_cumulative_tsn_ack_point a + 1" "[]"]
  by (auto simp: process_selective_ack_def sack_gaps_wf split: prod.split sum.split)

lemma handle_sack_wf: "assoc_wf a \<Longrightarrow> assoc_wf (snd (handle_sack a d now))"
proof -
  assume w: "assoc_wf a"
  let ?a = "a\<lparr>a_stats := inc_sacks (a_stats a)\<rparr>"
  have w': "assoc_wf ?a" by (simp add: assoc_wf_same [OF w])
  obtain r b where p: "process_selective_ack ?a d now = (r, b)" by fastforce
  then have b: "assoc_wf b" using process_selective_ack_wf [OF w', of d now] by simp
  have fin: "assoc_wf (snd (case process_fast_retransmission c t h v of (Inl e, a) \<Rightarrow> (Inl e, a)
      | (Inr u, a) \<Rightarrow> (Inr [], postprocess_sack (advance_peer_ack_point a) st now)))" if "assoc_wf c" for c t h v st
  proof -
    obtain x e where f: "process_fast_retransmission c t h v = (x, e)" by fastforce
    then have e: "assoc_wf e" using process_fast_retransmission_wf [OF that, of t h v] by simp
    show ?thesis by (cases x) (simp_all add: f e assoc_wf_same [OF e])
  qed
  have rel: "assoc_wf (if x then (foldl release_step c rs)\<lparr>a_rwnd := 0\<rparr> else (foldl release_step c rs)\<lparr>a_rwnd := y\<rparr>)"
    if "assoc_wf c" for c rs x y
    by (simp add: assoc_wf_same [OF release_steps_wf [OF that]])
  show ?thesis
  proof (cases r)
    case (Inl e)
    then show ?thesis by (simp add: handle_sack_def Let_def p b w assoc_wf_same [OF w])
  next
    case (Inr y)
    have adv: "assoc_wf (if z then on_cumulative_tsn_ack_point_advanced (b\<lparr>a_cumulative_tsn_ack_point := u\<rparr>) n now else b)" for z u n
      by (simp add: b assoc_wf_same [OF b])
    obtain bytes h where y: "y = (bytes, h)" by (cases y)
    show ?thesis
      unfolding handle_sack_def Let_def p Inr y prod.case sum.case
      by (simp only: if_split [of "\<lambda>r. assoc_wf (snd r)"] snd_conv w w' fin [OF rel [OF adv]] simp_thms)
  qed
qed

section \<open>Sending\<close>

lemma move_pending_wf:
  assumes "assoc_wf a"
  shows "assoc_wf (snd (move_pending_data_chunk_to_inflight_queue a b u now))"
proof -
  let ?n = "unat (a_max_payload_size a)"
  obtain x q where pop: "pn_pop (a_pending_queue a) b u = (x, q)" by fastforce
  have q: "pending_sized ?n (a_pending_queue a)" "sized ?n (a_inflight_queue a)" using assms by (simp_all add: assoc_wf_def)
  note p = pending_sized_pop [OF q(1), of b u, unfolded pop fst_conv snd_conv]
  have w: "assoc_wf (a\<lparr>a_pending_queue := q\<rparr>)" by (rule assoc_wf_pending [OF assms p(1)])
  show ?thesis
  proof (cases x)
    case (Some c)
    have "length (pd_user_data c) \<le> ?n" by (rule p(2) [OF Some])
    then show ?thesis
      by (simp add: move_pending_data_chunk_to_inflight_queue_def pop Some Let_def generate_next_tsn_def
          pd_set_all_inflight_def assoc_wf_inflight assoc_wf_same [OF w] sized_push q(2) case_prod_beta)
  qed (simp add: move_pending_data_chunk_to_inflight_queue_def pop w)
qed

lemma pop_pending_loop_wf: "assoc_wf a \<Longrightarrow> assoc_wf (snd (pop_pending_loop now chunks sis a))"
proof (induction now chunks sis a rule: pop_pending_loop.induct)
  case (1 now chunks sis a)
  have "pending_sized (unat (a_max_payload_size a)) (a_pending_queue a)" using 1(4) by (simp add: assoc_wf_def)
  then have w: "assoc_wf (a\<lparr>a_pending_queue := snd (pn_pop (a_pending_queue a) b u)\<rparr>)" for b u
    by (intro assoc_wf_pending [OF 1(4)] pending_sized_pop(1))
  have m: "assoc_wf (snd (move_pending_data_chunk_to_inflight_queue (a\<lparr>a_rwnd := r\<rparr>) b u now))" for r b u
    by (intro move_pending_wf assoc_wf_same [OF 1(4)]) simp
  show ?case
  proof (cases "pn_peek (a_pending_queue a)")
    case None
    then show ?thesis using 1(4) by (subst pop_pending_loop.simps) simp
  next
    case (Some c)
    obtain x q where pop: "pn_pop (a_pending_queue a) (pd_beginning_fragment c) (pd_unordered c) = (x, q)" by fastforce
    obtain y e where mv: "move_pending_data_chunk_to_inflight_queue (a\<lparr>a_rwnd := a_rwnd a - of_nat (length (pd_user_data c))\<rparr>)
        (pd_beginning_fragment c) (pd_unordered c) now = (y, e)" by fastforce
    have q: "assoc_wf (a\<lparr>a_pending_queue := q\<rparr>)" using w [of "pd_beginning_fragment c" "pd_unordered c"] pop by simp
    have e: "assoc_wf e" using m [of _ "pd_beginning_fragment c" "pd_unordered c"] mv by (metis snd_conv)
    show ?thesis
      using 1(1) [OF Some refl _ pop [symmetric] _ q] 1(2) [OF Some refl _ _ _ mv [symmetric] _ e]
        1(3) [OF Some refl _ _ _ mv [symmetric] _ e] 1(4)
      by (subst pop_pending_loop.simps) (auto simp: Some Let_def pop mv split: option.split)
  qed
qed

lemma pop_pending_data_chunks_to_send_wf: "assoc_wf a \<Longrightarrow> assoc_wf (snd (pop_pending_data_chunks_to_send a now))"
proof -
  assume w: "assoc_wf a"
  obtain r b where l: "pop_pending_loop now [] [] a = (r, b)" by fastforce
  then have b: "assoc_wf b" using pop_pending_loop_wf [OF w, of now "[]" "[]"] by simp
  have m: "assoc_wf (snd (case move_pending_data_chunk_to_inflight_queue b x y now of
      (Some chunk, a) \<Rightarrow> (Inr (cs @ [chunk], sis), a) | (None, a) \<Rightarrow> (Inr (cs, sis), a)))" for x y cs sis
    using move_pending_wf [OF b, of x y now] by (auto split: prod.split option.split)
  show ?thesis
    by (cases r) (auto simp: pop_pending_data_chunks_to_send_def w l b m split: option.split)
qed

lemma retransmit_loop_wf: "assoc_wf a \<Longrightarrow> assoc_wf (snd (retransmit_loop k now awnd i n a))"
proof (induction k now awnd i n a rule: retransmit_loop.induct)
  case (2 k now awnd i n a)
  let ?t = "a_cumulative_tsn_ack_point a + i + 1"
  show ?case
  proof (cases "pq_get (a_inflight_queue a) ?t")
    case (Some c)
    let ?c = "check_partial_reliability_status now (a_use_forward_tsn a) (a_streams a) (c\<lparr>pd_retransmit := False, pd_nsent := pd_nsent c + 1\<rparr>)"
    have "sized (unat (a_max_payload_size a)) (pq_get_mut (a_inflight_queue a) ?t (\<lambda>_. ?c))"
      using 2(3) Some by (intro sized_get_mut) (auto simp: assoc_wf_def)
    note w = assoc_wf_inflight [OF 2(3) this]
    from w 2(1) [OF refl Some] 2(2) [OF refl Some] 2(3) show ?thesis
      by (simp only: retransmit_loop.simps Let_def Some option.case case_prod_beta if_split [of "\<lambda>r. assoc_wf (snd r)"] snd_conv)
        (simp add: Let_def)
  qed (use 2(3) in simp)
qed simp

lemma fast_retrans_loop_wf: "assoc_wf a \<Longrightarrow> assoc_wf (snd (fast_retrans_loop k now i n a))"
proof (induction k now i n a rule: fast_retrans_loop.induct)
  case (2 k now i n a)
  let ?t = "a_cumulative_tsn_ack_point a + i + 1" and ?a = "a\<lparr>a_stats := inc_fast_retrans (a_stats a)\<rparr>"
  show ?case
  proof (cases "pq_get (a_inflight_queue a) ?t")
    case (Some c)
    let ?c = "check_partial_reliability_status now (a_use_forward_tsn a) (a_streams a) (c\<lparr>pd_nsent := pd_nsent c + 1\<rparr>)"
    have "sized (unat (a_max_payload_size a)) (pq_get_mut (a_inflight_queue a) ?t (\<lambda>_. ?c))"
      using 2(3) Some by (intro sized_get_mut) (auto simp: assoc_wf_def)
    with assoc_wf_inflight [of ?a] have "assoc_wf (?a\<lparr>a_inflight_queue := pq_get_mut (a_inflight_queue a) ?t (\<lambda>_. ?c)\<rparr>)"
      by (simp add: assoc_wf_same [OF 2(3)])
    with 2 show ?thesis by (simp add: Some Let_def case_prod_beta)
  qed (use 2(3) in simp)
qed simp

lemma view_shutdown_packets [simp]: "wf_view (snd (gather_outbound_shutdown_packets crc a raw now)) = wf_view a"
  by (simp add: gather_outbound_shutdown_packets_def Let_def split: sum.split)

lemma gather_reconfig_wf: "assoc_wf a \<Longrightarrow> assoc_wf (snd (gather_outbound_data_and_reconfig_packets crc a raw now))"
proof -
  assume w: "assoc_wf a"
  obtain r b where p: "pop_pending_data_chunks_to_send a now = (r, b)" by fastforce
  then have b: "assoc_wf b" using pop_pending_data_chunks_to_send_wf [OF w, of now] by simp
  show ?thesis
  proof (cases r)
    case (Inr y)
    obtain chunks sis where y: "y = (chunks, sis)" by (cases y)
    show ?thesis
      by (rule assoc_wf_same [OF b])
        (simp add: gather_outbound_data_and_reconfig_packets_def p Inr y Let_def case_prod_beta generate_next_rsn_def
          if_distrib [of snd] if_distrib [of fst] cong: if_cong split del: if_split)
  qed (simp add: gather_outbound_data_and_reconfig_packets_def p b)
qed

lemma gather_wf:
  assumes "assoc_wf a"
  shows "assoc_wf (snd (gather_data_packets_to_retransmit crc a raw now))"
    and "assoc_wf (snd (gather_outbound_fast_retransmission_packets crc a raw now))"
    and "assoc_wf (snd (gather_outbound_sack_packets crc a raw))"
    and "assoc_wf (snd (gather_outbound_forward_tsn_packets crc a raw))"
    and "assoc_wf (snd (gather_outbound_shutdown_packets crc a raw now))"
proof -
  note same = assoc_wf_same [OF assms]
  show "assoc_wf (snd (gather_data_packets_to_retransmit crc a raw now))"
    using retransmit_loop_wf [OF assms]
    by (simp add: gather_data_packets_to_retransmit_def get_data_packets_to_retransmit_def case_prod_beta Let_def)
  show "assoc_wf (snd (gather_outbound_fast_retransmission_packets crc a raw now))"
    by (simp add: gather_outbound_fast_retransmission_packets_def case_prod_beta Let_def fast_retrans_loop_wf assms same)
  show "assoc_wf (snd (gather_outbound_sack_packets crc a raw))"
    by (rule same) (simp add: gather_outbound_sack_packets_def create_selective_ack_chunk_def case_prod_beta Let_def)
  show "assoc_wf (snd (gather_outbound_forward_tsn_packets crc a raw))"
    by (rule same) (simp add: gather_outbound_forward_tsn_packets_def Let_def)
  show "assoc_wf (snd (gather_outbound_shutdown_packets crc a raw now))" by (rule same) simp
qed

lemma poll_transmit_wf: "assoc_wf a \<Longrightarrow> assoc_wf (snd (poll_transmit crc a now))"
proof -
  assume w: "assoc_wf a"
  let ?a = "a\<lparr>a_control_queue := []\<rparr>" and ?raw = "foldl (push_raw crc) [] (a_control_queue a)"
  have w': "assoc_wf ?a" by (simp add: assoc_wf_same [OF w])
  obtain raw b where g: "gather_data_packets_to_retransmit crc ?a ?raw now = (raw, b)" by fastforce
  have b: "assoc_wf b" using gather_wf(1) [OF w', of crc ?raw now] g by simp
  obtain r c where d: "gather_outbound_data_and_reconfig_packets crc b raw now = (r, c)" by fastforce
  have c: "assoc_wf c" using gather_reconfig_wf [OF b, of crc raw now] d by simp
  have "assoc_wf (snd (gather_outbound crc a now))"
    by (cases r) (simp_all add: gather_outbound_def Let_def g d case_prod_beta gather_wf w' b c)
  then show ?thesis by (auto simp: poll_transmit_def split: prod.split sum.split)
qed

section \<open>Writing\<close>

lemma packetize_loop_sized:
  "packetize_loop s u ppi raw i r = Inr cs \<Longrightarrow> c \<in> set cs \<Longrightarrow> length (pd_user_data c) \<le> unat (ss_max_payload_size s)"
proof (induction s u ppi raw i r arbitrary: cs rule: packetize_loop.induct)
  case (1 s u ppi raw i r)
  let ?f = "min (unat (ss_max_payload_size s)) r"
  from 1(2,3) have nz: "r \<noteq> 0" "?f \<noteq> 0" 
    by (auto simp: packetize_loop.simps [of s u ppi raw i r] Let_def split: if_splits)
  with 1(2) obtain d cs' where d: "slice i (i + ?f) raw = Inr d" "packetize_loop s u ppi raw (i + ?f) (r - ?f) = Inr cs'"
    and hd: "length (pd_user_data (hd cs)) = length d" and cs: "tl cs = cs'" "cs \<noteq> []"
    by (auto simp: packetize_loop.simps [of s u ppi raw i r] Let_def rbind_def split: sum.splits)
  have "length d \<le> unat (ss_max_payload_size s)" using d(1) by (auto simp: slice_def split: if_splits)
  moreover have "c = hd cs \<or> c \<in> set cs'" using 1(3) cs by (cases cs) auto
  ultimately show ?case using 1(1) [OF nz(1) refl nz(2) d(2)] hd by auto
qed

lemma write_source_wf: "assoc_wf a \<Longrightarrow> assoc_wf (snd (write_source a si r pop ppi))"
proof (cases "map_of (a_streams a) si")
  case (Some s)
  assume w: "assoc_wf a"
  have s: "stream_wf (a_side a) (a_max_payload_size a) si s" by (rule assoc_wf_stream [OF w Some])
  show ?thesis
  proof (cases "ss_packetize s (pop (unat (a_max_message_size a))) ppi")
    case (Inr y)
    obtain cs s' where y: "y = (cs, s')" by (cases y)
    have "stream_wf (a_side a) (a_max_payload_size a) si s'"
      using Inr s by (auto simp: y ss_packetize_def Let_def rbind_def stream_wf_def split: sum.splits)
    from assoc_wf_update [OF w this] have w': "assoc_wf (a\<lparr>a_streams := AList.update si s' (a_streams a)\<rparr>)" .
    have "packetize_loop s (ppi \<noteq> PPI_Dcep \<and> ss_unordered s) ppi (pop (unat (a_max_message_size a))) 0
        (length (pop (unat (a_max_message_size a)))) = Inr cs"
      using Inr by (auto simp: y ss_packetize_def Let_def rbind_def split: sum.splits)
    from packetize_loop_sized [OF this] s
    have "\<forall>c \<in> set cs. length (pd_user_data c) \<le> unat (a_max_payload_size a)" by (simp add: stream_wf_def)
    with w have "pending_sized (unat (a_max_payload_size a)) (foldl pn_push (a_pending_queue a) cs)"
      by (intro pending_sized_pushes) (simp_all add: assoc_wf_def)
    with assoc_wf_pending [OF w'] w w' show ?thesis
      by (simp add: write_source_def Some Inr y Let_def send_payload_data_def)
  qed (simp add: write_source_def Some Let_def w)
qed (simp add: write_source_def Let_def)

lemma stream_update_wf:
  assumes "assoc_wf a" "map_of (a_streams a) i = Some s"
    and "ss_stream_identifier s' = ss_stream_identifier s" "ss_reassembly_queue s' = ss_reassembly_queue s"
      "ss_side s' = ss_side s" "ss_max_payload_size s' = ss_max_payload_size s"
  shows "assoc_wf (a\<lparr>a_streams := AList.update i s' (a_streams a)\<rparr>)"
  using assms assoc_wf_stream [OF assms(1,2)] by (intro assoc_wf_update) (simp_all add: stream_wf_def)

lemma stream_ops_wf:
  assumes "assoc_wf a"
  shows "assoc_wf (snd (write_with_ppi a i d ppi))" "assoc_wf (snd (stream_write a i d))"
    "assoc_wf (snd (write_chunks a i ds))" "assoc_wf (snd (stop a i))" "assoc_wf (snd (finish a i))"
    "assoc_wf (snd (set_default_payload_type a i ppi))" "assoc_wf (snd (set_reliability_params a i u rt rv))"
    "assoc_wf (snd (set_buffered_amount_low_threshold a i th))" "assoc_wf (snd (open_stream a i ppi))"
proof -
  show "assoc_wf (snd (write_with_ppi a i d ppi))" by (simp add: write_with_ppi_def write_source_wf assms)
  show "assoc_wf (snd (stream_write a i d))"
    by (simp add: stream_write_def write_with_ppi_def write_source_wf assms split: sum.split)
  show "assoc_wf (snd (write_chunks a i ds))"
    by (simp add: write_chunks_def write_source_wf assms Let_def split: sum.split)
  have reset: "assoc_wf (snd (send_reset_request b i))" if "assoc_wf b" for b
  proof -
    have "pending_sized (unat (a_max_payload_size b)) (a_pending_queue b)" using that by (simp add: assoc_wf_def)
    from assoc_wf_pending [OF that pending_sized_push [OF this]] that show ?thesis
      by (simp add: send_reset_request_def Let_def)
  qed
  show "assoc_wf (snd (stop a i))"
    by (simp add: stop_def Let_def reset stream_update_wf assms split: option.split)
  show "assoc_wf (snd (finish a i))" "assoc_wf (snd (set_default_payload_type a i ppi))"
    "assoc_wf (snd (set_reliability_params a i u rt rv))" "assoc_wf (snd (set_buffered_amount_low_threshold a i th))"
    by (simp_all add: finish_def set_default_payload_type_def set_reliability_params_def
        set_buffered_amount_low_threshold_def stream_update_wf assms split: option.split)
  show "assoc_wf (snd (open_stream a i ppi))" by (simp add: open_stream_def assoc_wf_create_stream assms)
qed

section \<open>Reachable associations\<close>

lemma handle_chunk_wf:
  assumes "assoc_wf a"
  shows "assoc_wf (snd (handle_chunk ck clock a p c now))"
proof -
  note same = assoc_wf_same [OF assms]
  have reply: "assoc_wf (snd (enqueue_reply r))" if "assoc_wf (snd r)" for r
  proof -
    obtain x b where r: "r = (x, b)" by (cases r)
    then have "assoc_wf b" using that by simp
    then show ?thesis using assoc_wf_same [of b] by (cases x) (simp_all add: enqueue_reply_def r)
  qed
  have "assoc_wf (snd (handle_shutdown_complete a))"
    by (simp add: handle_shutdown_complete_def Let_def assoc_wf_close assms same)
  then show ?thesis
    using assms
    by (cases c) (simp_all add: handle_chunk_def reply assoc_wf_close handle_data_wf handle_sack_wf handle_reconfig_wf
        handle_forward_tsn_wf same split: sum.split)
qed

lemma handle_chunks_wf: "assoc_wf a \<Longrightarrow> assoc_wf (snd (handle_chunks ck clock a p cs now))"
proof (induction cs arbitrary: a)
  case (Cons c cs)
  obtain x b where h: "handle_chunk ck clock a p c now = (x, b)" by fastforce
  then have "assoc_wf b" using handle_chunk_wf [OF Cons.prems, of ck clock p c now] by simp
  then show ?case using Cons.IH by (cases x) (simp_all add: h)
qed simp

lemma handle_event_wf: "assoc_wf a \<Longrightarrow> assoc_wf (snd (handle_event ck clock a pl now))"
proof -
  assume w: "assoc_wf a"
  have i: "assoc_wf (snd (handle_inbound ck clock a p now))" for p
  proof -
    obtain x b where h: "handle_chunks ck clock (handle_chunk_start a) p (pk_chunks p) now = (x, b)" by fastforce
    have "assoc_wf (handle_chunk_start a)" by (simp add: assoc_wf_same [OF w])
    from handle_chunks_wf [OF this, of ck clock p "pk_chunks p" now] have b: "assoc_wf b" by (simp add: h)
    show ?thesis by (cases x) (simp_all add: handle_inbound_def h w b assoc_wf_same [OF b] split: sum.split)
  qed
  show ?thesis
    using w i assoc_wf_close
    by (auto simp: handle_event_def split: transmit_payload.split sum.split error.split prod.split) (metis snd_conv)+
qed

lemma handle_timeout_wf: "assoc_wf a \<Longrightarrow> assoc_wf (handle_timeout a now)"
proof -
  assume w: "assoc_wf a"
  have rt: "assoc_wf (on_retransmission_timeout b t)" if "assoc_wf b" for b t
  proof -
    have "sized (unat (a_max_payload_size b)) (pq_mark_all_to_retransmit (a_inflight_queue b))"
      using that by (simp add: assoc_wf_def sized_mark_all)
    note m = assoc_wf_same [OF assoc_wf_inflight [OF that this]]
    have "assoc_wf (snd (send_init b))" "assoc_wf (snd (send_cookie_echo b))" by (simp_all add: assoc_wf_same [OF that])
    then show ?thesis
      using m that assoc_wf_same [OF that]
      by (cases t) (simp_all add: on_retransmission_timeout_def Let_def wf_view_def)
  qed
  have "assoc_wf (timeout_step now b t)" if "assoc_wf b" for b t
  proof -
    note same = assoc_wf_same [OF that]
    have f: "assoc_wf (on_retransmission_failure (b\<lparr>a_timers := x\<rparr>) t)" for x
      by (rule same) (simp add: on_retransmission_failure_def split: timer.split)
    have r: "assoc_wf ((on_retransmission_timeout (b\<lparr>a_timers := x\<rparr>) t)\<lparr>a_timers := y\<rparr>)" for x y
      by (rule assoc_wf_same [OF rt]) (simp_all add: same)
    show ?thesis
      by (simp add: timeout_step_def on_ack_timeout_def case_prod_beta Let_def same f r)
  qed
  then have "assoc_wf (foldl (timeout_step now) b ts)" if "assoc_wf b" for b ts
    using that by (induction ts arbitrary: b) simp_all
  with w show ?thesis by (simp add: handle_timeout_def)
qed

text \<open>One call of a public operation of the association or of one of its streams.\<close>

inductive assoc_step :: "association \<Rightarrow> association \<Rightarrow> bool" where
  step_event: "assoc_step a (snd (handle_event ck clock a pl now))"
| step_timeout: "assoc_step a (handle_timeout a now)"
| step_transmit: "assoc_step a (snd (poll_transmit crc a now))"
| step_poll: "assoc_step a (snd (poll a))"
| step_endpoint: "assoc_step a (snd (poll_endpoint_event a))"
| step_shutdown: "assoc_step a (snd (shutdown a))"
| step_close: "assoc_step a (close a)"
| step_open: "assoc_step a (snd (open_stream a i ppi))"
| step_accept: "assoc_step a (snd (accept_stream a))"
| step_read: "assoc_step a (snd (read_sctp a i))"
| step_write: "assoc_step a (snd (stream_write a i d))"
| step_write_ppi: "assoc_step a (snd (write_with_ppi a i d ppi))"
| step_write_chunks: "assoc_step a (snd (write_chunks a i ds))"
| step_stop: "assoc_step a (snd (stop a i))"
| step_finish: "assoc_step a (snd (finish a i))"
| step_ppi: "assoc_step a (snd (set_default_payload_type a i ppi))"
| step_reliability: "assoc_step a (snd (set_reliability_params a i u rt rv))"
| step_threshold: "assoc_step a (snd (set_buffered_amount_low_threshold a i th))"

lemma assoc_step_wf: "assoc_step a b \<Longrightarrow> assoc_wf a \<Longrightarrow> assoc_wf b"
  by (induction rule: assoc_step.induct)
    (simp_all add: handle_event_wf handle_timeout_wf poll_transmit_wf assoc_wf_close read_sctp_wf stream_ops_wf,
     simp_all add: assoc_wf_same)

lemma association_new_wf:
  assumes "association_new is_server config mps aid ra la now tsn = Inr a"
  shows "assoc_wf a \<and> a_max_payload_size a = mps"
proof -
  have "a_mtu a = a_max_payload_size a + 28 \<and> a_streams a = [] \<and> a_pending_queue a = pn_new \<and>
      a_inflight_queue a = pq_new \<and> a_max_payload_size a = mps"
    using assms
    by (auto simp: association_new_def Let_def rbind_def clamp_u32_def association_default_def send_init_def set_state_def split: if_splits)
  then show ?thesis
    by (simp add: assoc_wf_def streams_wf_def pending_sized_def pn_new_def sized_def pq_new_def)
qed

text \<open>
  C11. Whatever its user calls and its peer sends, an association stays well formed: every stream is
  registered once, under its own identifier, with a reassembly queue for that identifier and the
  side and payload size of the association; and no chunk that waits to be sent or is in
  flight carries more than the maximal payload, so that with its headers it fits the MTU.
\<close>

theorem reachable_well_formed:
  assumes "association_new is_server config mps aid ra la now tsn = Inr a0" "assoc_step\<^sup>*\<^sup>* a0 a"
  shows "distinct (map fst (a_streams a)) \<and>
    (\<forall>i s. map_of (a_streams a) i = Some s \<longrightarrow>
       ss_stream_identifier s = i \<and> rq_si (ss_reassembly_queue s) = i \<and> ss_side s = a_side a \<and>
       ss_max_payload_size s = a_max_payload_size a) \<and>
    (\<forall>c \<in> set (pn_unordered_queue (a_pending_queue a)) \<union> set (pn_ordered_queue (a_pending_queue a)) \<union>
          ran (pq_chunk_map (a_inflight_queue a)).
       length (pd_user_data c) \<le> unat (a_max_payload_size a)) \<and>
    a_mtu a = a_max_payload_size a + COMMON_HEADER_SIZE + DATA_CHUNK_HEADER_SIZE"
proof -
  have "assoc_wf a"
    using assms(2) association_new_wf [OF assms(1)] by (induction rule: rtranclp_induct) (simp_all add: assoc_step_wf)
  then show ?thesis
    by (auto simp: assoc_wf_def streams_wf_def stream_wf_def pending_sized_def sized_def ran_def)
qed

theorem reachable_well_formed_witness:
  "\<exists>a0. association_new False transport_config_default 1200 7 1 2 0 9 = Inr a0 \<and>
     (let a = snd (stream_write (snd (open_stream a0 5 PPI_Binary)) 5 [1, 2, 3]) in
      map_of (a_streams a) 5 \<noteq> None \<and>
      (\<forall>i s. map_of (a_streams a) i = Some s \<longrightarrow> ss_stream_identifier s = i))"
proof -
  have "\<exists>a0. association_new False transport_config_default 1200 7 1 2 0 9 = Inr a0 \<and> a_streams a0 = []"
    by (simp add: association_new_def Let_def clamp_u32_def association_default_def send_init_def set_state_def)
  then obtain a0 where new: "association_new False transport_config_default 1200 7 1 2 0 9 = Inr a0" and e: "a_streams a0 = []" by blast
  define b where "b = snd (open_stream a0 5 PPI_Binary)"
  define a where "a = snd (stream_write b 5 [1, 2, 3])"
  have "assoc_step a0 b" "assoc_step b a" unfolding a_def b_def by (rule assoc_step.intros)+
  then have "assoc_step\<^sup>*\<^sup>* a0 a" by (meson rtranclp.rtrancl_into_rtrancl rtranclp.rtrancl_refl)
  from reachable_well_formed [OF new this] have ids: "\<forall>i s. map_of (a_streams a) i = Some s \<longrightarrow> ss_stream_identifier s = i" by blast
  have "map_of (a_streams b) 5 \<noteq> None" by (simp add: b_def open_stream_def e create_stream_def Let_def)
  then have "map_of (a_streams a) 5 \<noteq> None"
    by (auto simp: a_def stream_write_def write_with_ppi_def write_source_def send_payload_data_def Let_def update_conv'
        split: sum.split option.split prod.split)
  with new ids show ?thesis unfolding a_def b_def Let_def by blast
qed

end
