(* ===== verification/Sctp_Endpoint.thy ===== *)
theory Sctp_Endpoint
  imports Sctp_Assoc_Inv
begin

text \<open>
The SCTP endpoint (rtc-sctp/src/endpoint/mod.rs): it decodes the header of a datagram, routes it to
an association by its verification tag, or creates an association for an INIT.  The slab of the slab
crate is an association list whose free key the environment chooses.  The handshake between a client
and a server endpoint runs through the codec, the routing and the handlers of the association.
\<close>

section \<open>State\<close>

record server_config =
  sv_transport :: transport_config
  sv_concurrent_associations :: u32

definition server_config_default :: server_config where
  "server_config_default = \<lparr>sv_transport = transport_config_default, sv_concurrent_associations = 100000\<rparr>"

record association_meta =
  am_init_cid :: u32
  am_cids_issued :: u64
  am_loc_cids :: "(u64 \<times> u32) list"
  am_initial_remote :: socket_addr

record endpoint =
  ep_local_addr :: socket_addr
  ep_association_ids_init :: "(u32 \<times> nat) list"
  ep_association_ids :: "(u32 \<times> nat) list"
  ep_associations :: "(nat \<times> association_meta) list"
  ep_local_cid_generator :: "u32 list"
  ep_max_payload_size :: u32
  ep_server_config :: "server_config option"
  ep_reject_new_associations :: bool

text \<open>
  What the endpoint takes from outside: the CRC32c, the key that the slab assigns to a new entry, the
  random initial TSN and cookie of a new association, and the clock of its reassembly queues. The
  numbers that the generator of association identifiers will return are part of the endpoint.
\<close>

record endpoint_env =
  ee_crc :: "bytes \<Rightarrow> u32"
  ee_vacant :: "(nat \<times> association_meta) list \<Rightarrow> nat"
  ee_random_tsn :: u32
  ee_new_cookie :: bytes
  ee_clock :: nat

datatype datagram_event =
    AssociationEvent transmit_payload
  | NewAssociation association

datatype connect_error = TooManyAssociations | InvalidRemoteAddress socket_addr

section \<open>Operations\<close>

definition endpoint_new :: "socket_addr \<Rightarrow> u32 list \<Rightarrow> u32 \<Rightarrow> server_config option \<Rightarrow> endpoint" where
  "endpoint_new local_addr generator max_payload_size server_config =
     \<lparr>ep_local_addr = local_addr, ep_association_ids_init = [], ep_association_ids = [],
      ep_associations = [], ep_local_cid_generator = generator, ep_max_payload_size = max_payload_size,
      ep_server_config = server_config, ep_reject_new_associations = False\<rparr>"

definition set_server_config :: "endpoint \<Rightarrow> server_config option \<Rightarrow> endpoint" where
  "set_server_config ep server_config = ep\<lparr>ep_server_config := server_config\<rparr>"

definition reject_new_associations :: "endpoint \<Rightarrow> endpoint" where
  "reject_new_associations ep = ep\<lparr>ep_reject_new_associations := True\<rparr>"

text \<open>\<^verbatim>\<open>Slab::remove\<close> panics on a key that is not in use.\<close>

definition endpoint_handle_event :: "endpoint \<Rightarrow> nat \<Rightarrow> endpoint_event \<Rightarrow> unit result \<times> endpoint" where
  "endpoint_handle_event ep ch event =
     (case event of
        Drained \<Rightarrow>
          (case map_of (ep_associations ep) ch of
             None \<Rightarrow> (Inl Panic, ep)
           | Some conn \<Rightarrow>
               let ep = ep\<lparr>ep_associations := AList.delete ch (ep_associations ep)\<rparr>;
                   ep = ep\<lparr>ep_association_ids_init := AList.delete (am_init_cid conn) (ep_association_ids_init ep)\<rparr>
               in (Inr (), ep\<lparr>ep_association_ids :=
                     foldl (\<lambda>ids cid. AList.delete cid ids) (ep_association_ids ep) (map snd (am_loc_cids conn))\<rparr>)))"

definition is_full :: "endpoint \<Rightarrow> bool" where
  "is_full ep \<longleftrightarrow> unat (drop_bit 1 (- 1 :: u32) + drop_bit 2 (- 1)) < length (ep_association_ids ep)"

fun new_aid :: "(u32 \<times> nat) list \<Rightarrow> u32 list \<Rightarrow> (u32 \<times> u32 list) result" where
  "new_aid ids [] = Inl Hang"
| "new_aid ids (aid # generator) =
     (if map_of ids aid = None then Inr (aid, generator) else new_aid ids generator)"

definition add_association ::
    "endpoint_env \<Rightarrow> endpoint \<Rightarrow> u32 \<Rightarrow> u32 \<Rightarrow> socket_addr \<Rightarrow> nat \<Rightarrow> bool \<Rightarrow> transport_config \<Rightarrow>
      (nat \<times> association) result \<times> endpoint" where
  "add_association env ep remote_aid local_aid remote_addr now is_server transport_config =
     (case association_new is_server transport_config (ep_max_payload_size ep) local_aid remote_addr
             (ep_local_addr ep) now (ee_random_tsn env) of
        Inl e \<Rightarrow> (Inl e, ep)
      | Inr conn \<Rightarrow>
          let ch = ee_vacant env (ep_associations ep);
              ep = ep\<lparr>ep_associations := AList.update ch
                       \<lparr>am_init_cid = remote_aid, am_cids_issued = 0, am_loc_cids = [(0, local_aid)],
                        am_initial_remote = remote_addr\<rparr> (ep_associations ep)\<rparr>
          in (Inr (ch, conn), ep\<lparr>ep_association_ids := AList.update local_aid ch (ep_association_ids ep)\<rparr>))"

text \<open>The argument \<open>port\<close> is the port of a socket address.\<close>

definition connect ::
    "endpoint_env \<Rightarrow> (socket_addr \<Rightarrow> u16) \<Rightarrow> endpoint \<Rightarrow> transport_config \<Rightarrow> socket_addr \<Rightarrow> u32 \<Rightarrow> nat \<Rightarrow>
      (connect_error + nat \<times> association) result \<times> endpoint" where
  "connect env port ep transport remote remote_aid now =
     (if is_full ep then (Inr (Inl TooManyAssociations), ep)
      else if port remote = 0 then (Inr (Inl (InvalidRemoteAddress remote)), ep)
      else
        case new_aid (ep_association_ids ep) (ep_local_cid_generator ep) of
          Inl e \<Rightarrow> (Inl e, ep)
        | Inr (local_aid, generator) \<Rightarrow>
            let ep = ep\<lparr>ep_local_cid_generator := generator\<rparr> in
            case add_association env ep remote_aid local_aid remote now False transport of
              (Inl e, ep) \<Rightarrow> (Inl e, ep)
            | (Inr r, ep) \<Rightarrow> (Inr (Inr r), ep))"

definition handle_first_packet ::
    "endpoint_env \<Rightarrow> endpoint \<Rightarrow> nat \<Rightarrow> socket_addr \<Rightarrow> partial_decode \<Rightarrow> (nat \<times> association) option result \<times> endpoint" where
  "handle_first_packet env ep now remote partial_decode =
     (case (if pdec_first_chunk_type partial_decode = CT_INIT then pdec_initiate_tag partial_decode else None) of
        None \<Rightarrow> (Inr None, ep)
      | Some remote_aid \<Rightarrow>
          (case ep_server_config ep of
             None \<Rightarrow> (Inl Panic, ep)
           | Some server_config \<Rightarrow>
               if length (ep_associations ep) \<ge> unat (sv_concurrent_associations server_config) \<or>
                  ep_reject_new_associations ep \<or> is_full ep
               then (Inr None, ep)
               else
                 case new_aid (ep_association_ids ep) (ep_local_cid_generator ep) of
                   Inl e \<Rightarrow> (Inl e, ep)
                 | Inr (local_aid, generator) \<Rightarrow>
                     let ep = ep\<lparr>ep_local_cid_generator := generator\<rparr> in
                     case add_association env ep remote_aid local_aid remote now True (sv_transport server_config) of
                       (Inl e, ep) \<Rightarrow> (Inl e, ep)
                     | (Inr (ch, conn), ep) \<Rightarrow>
                         (case handle_event (ee_new_cookie env) (ee_clock env) conn (PartialDecode partial_decode) now of
                            (Inl e, conn) \<Rightarrow> (Inl e, ep)
                          | (Inr _, conn) \<Rightarrow> (Inr (Some (ch, conn)), ep))))"

definition endpoint_handle ::
    "endpoint_env \<Rightarrow> endpoint \<Rightarrow> nat \<Rightarrow> socket_addr \<Rightarrow> bytes \<Rightarrow> (nat \<times> datagram_event) option result \<times> endpoint" where
  "endpoint_handle env ep now remote data =
     (case partial_unmarshal (ee_crc env) data of
        Inl (Err _) \<Rightarrow> (Inr None, ep)
      | Inl e \<Rightarrow> (Inl e, ep)
      | Inr partial_decode \<Rightarrow>
          let dst_cid = cm_verification_tag (pdec_common_header partial_decode);
              known_ch =
                (if dst_cid > 0 then map_of (ep_association_ids ep) dst_cid
                 else if pdec_first_chunk_type partial_decode = CT_INIT then
                   (case pdec_initiate_tag partial_decode of
                      Some dst_cid \<Rightarrow> map_of (ep_association_ids ep) dst_cid
                    | None \<Rightarrow> None)
                 else None)
          in case known_ch of
               Some ch \<Rightarrow> (Inr (Some (ch, AssociationEvent (PartialDecode partial_decode))), ep)
             | None \<Rightarrow>
                 (case handle_first_packet env ep now remote partial_decode of
                    (Inl e, ep) \<Rightarrow> (Inl e, ep)
                  | (Inr r, ep) \<Rightarrow> (Inr (map_option (\<lambda>(ch, a). (ch, NewAssociation a)) r), ep)))"

section \<open>Routing\<close>

text \<open>The slab never assigns a key that is in use.\<close>

definition slab_ok :: "((nat \<times> association_meta) list \<Rightarrow> nat) \<Rightarrow> bool" where
  "slab_ok vacant \<longleftrightarrow> (\<forall>m. map_of m (vacant m) = None)"

definition routes_ok :: "(nat \<rightharpoonup> association_meta) \<Rightarrow> (u32 \<rightharpoonup> nat) \<Rightarrow> bool" where
  "routes_ok live ids \<longleftrightarrow>
     (\<forall>ch m. live ch = Some m \<longrightarrow> (\<exists>aid. am_loc_cids m = [(0, aid)])) \<and>
     (\<forall>aid ch. ids aid = Some ch \<longleftrightarrow> (\<exists>m. live ch = Some m \<and> am_loc_cids m = [(0, aid)]))"

definition endpoint_ok :: "endpoint \<Rightarrow> bool" where
  "endpoint_ok ep \<longleftrightarrow> routes_ok (map_of (ep_associations ep)) (map_of (ep_association_ids ep))"

lemma routes_ok_add:
  assumes "routes_ok live ids" "live ch = None" "ids aid = None" "am_loc_cids m = [(0, aid)]"
  shows "routes_ok (live(ch \<mapsto> m)) (ids(aid \<mapsto> ch))"
proof -
  have "am_loc_cids x \<noteq> [(0, aid)]" if "live c = Some x" for c x
    using assms(1,3) that unfolding routes_ok_def by (metis option.distinct(1))
  then show ?thesis using assms by (auto simp: routes_ok_def)
qed

lemma routes_ok_remove:
  assumes "routes_ok live ids" "live ch = Some m" "am_loc_cids m = [(0, aid)]"
  shows "routes_ok (live(ch := None)) (ids(aid := None))"
proof -
  have ids: "ids aid = Some ch" using assms unfolding routes_ok_def by blast
  have uniq: "c = ch" if "live c = Some x" "am_loc_cids x = [(0, aid)]" for c x
    using assms(1) ids that unfolding routes_ok_def by (metis option.inject)
  have "(ids(aid := None)) aid' = Some c \<longleftrightarrow> (\<exists>x. (live(ch := None)) c = Some x \<and> am_loc_cids x = [(0, aid')])" for aid' c
  proof (cases "aid' = aid")
    case True
    then show ?thesis using uniq by auto
  next
    case False
    then have "(\<exists>x. live c = Some x \<and> am_loc_cids x = [(0, aid')]) \<longleftrightarrow>
        (\<exists>x. (live(ch := None)) c = Some x \<and> am_loc_cids x = [(0, aid')])"
      using assms(2,3) by (cases "c = ch") simp_all
    then show ?thesis using False assms(1) unfolding routes_ok_def by simp
  qed
  moreover have "\<exists>aid. am_loc_cids x = [(0, aid)]" if "(live(ch := None)) c = Some x" for c x
    using that assms(1) unfolding routes_ok_def by (cases "c = ch") auto
  ultimately show ?thesis unfolding routes_ok_def by blast
qed

lemma new_aid_fresh: "new_aid ids gen = Inr (aid, gen') \<Longrightarrow> map_of ids aid = None"
  by (induction ids gen rule: new_aid.induct) (auto split: if_splits)

lemma add_association_ok:
  assumes "endpoint_ok ep" "slab_ok (ee_vacant env)" "map_of (ep_association_ids ep) aid = None"
  shows "endpoint_ok (snd (add_association env ep raid aid ra now srv tc))"
proof -
  have "map_of (ep_associations ep) (ee_vacant env (ep_associations ep)) = None" using assms(2) by (simp add: slab_ok_def)
  then show ?thesis
    using assms(1,3) by (simp add: add_association_def endpoint_ok_def Let_def update_conv' routes_ok_add split: sum.split)
qed

lemma endpoint_ok_frame:
  "endpoint_ok (ep\<lparr>ep_local_cid_generator := g\<rparr>) = endpoint_ok ep"
  "endpoint_ok (ep\<lparr>ep_server_config := sc\<rparr>) = endpoint_ok ep"
  "endpoint_ok (ep\<lparr>ep_reject_new_associations := b\<rparr>) = endpoint_ok ep"
  by (simp_all add: endpoint_ok_def)

lemma add_new_association_ok:
  assumes "endpoint_ok ep" "slab_ok (ee_vacant env)" "new_aid (ep_association_ids ep) gen = Inr (aid, gen')"
  shows "endpoint_ok (snd (add_association env (ep\<lparr>ep_local_cid_generator := gen'\<rparr>) raid aid ra now srv tc))"
  using assms new_aid_fresh [OF assms(3)] by (intro add_association_ok) (simp_all add: endpoint_ok_frame)

lemma connect_ok:
  assumes "endpoint_ok ep" "slab_ok (ee_vacant env)"
  shows "endpoint_ok (snd (connect env port ep tc remote raid now))"
proof (cases "new_aid (ep_association_ids ep) (ep_local_cid_generator ep)")
  case (Inr y)
  obtain aid gen where y: "y = (aid, gen)" by (cases y)
  obtain r ep' where a: "add_association env (ep\<lparr>ep_local_cid_generator := gen\<rparr>) raid aid remote now False tc = (r, ep')" by fastforce
  have "endpoint_ok ep'" using add_new_association_ok [OF assms Inr [unfolded y], of raid remote now False tc] by (simp add: a)
  then show ?thesis using assms by (cases r) (simp_all add: connect_def Inr y Let_def a)
qed (use assms in \<open>simp add: connect_def\<close>)

lemma handle_first_packet_ok:
  assumes "endpoint_ok ep" "slab_ok (ee_vacant env)"
  shows "endpoint_ok (snd (handle_first_packet env ep now remote d))"
proof (cases "new_aid (ep_association_ids ep) (ep_local_cid_generator ep)")
  case (Inr y)
  obtain aid gen where y: "y = (aid, gen)" by (cases y)
  have "endpoint_ok (snd (case add_association env (ep\<lparr>ep_local_cid_generator := gen\<rparr>) raid aid remote now True tc of
      (Inl e, ep) \<Rightarrow> (Inl e, ep)
    | (Inr (ch, conn), ep) \<Rightarrow>
        (case handle_event (ee_new_cookie env) (ee_clock env) conn (PartialDecode d) now of
           (Inl e, conn) \<Rightarrow> (Inl e, ep) | (Inr _, conn) \<Rightarrow> (Inr (Some (ch, conn)), ep))))" for raid tc
    using add_new_association_ok [OF assms Inr [unfolded y], of raid remote now True tc]
    by (auto split: prod.split sum.split)
  then show ?thesis using assms by (simp add: handle_first_packet_def Inr y Let_def split: option.split)
qed (use assms in \<open>simp add: handle_first_packet_def split: option.split\<close>)

lemma endpoint_handle_ok:
  assumes "endpoint_ok ep" "slab_ok (ee_vacant env)"
  shows "endpoint_ok (snd (endpoint_handle env ep now remote data))"
proof (cases "partial_unmarshal (ee_crc env) data")
  case (Inr d)
  obtain r ep' where f: "handle_first_packet env ep now remote d = (r, ep')" by fastforce
  then have "endpoint_ok ep'" using handle_first_packet_ok [OF assms, of now remote d] by simp
  then show ?thesis using assms by (cases r) (simp_all add: endpoint_handle_def Inr Let_def f split: option.split)
qed (use assms in \<open>simp add: endpoint_handle_def split: error.split\<close>)

lemma drained_ok: "endpoint_ok ep \<Longrightarrow> endpoint_ok (snd (endpoint_handle_event ep ch ev))"
proof (cases "map_of (ep_associations ep) ch")
  case (Some m)
  assume ok: "endpoint_ok ep"
  then obtain aid where m: "am_loc_cids m = [(0, aid)]" using Some unfolding endpoint_ok_def routes_ok_def by blast
  then show ?thesis
    using Some routes_ok_remove [OF ok [unfolded endpoint_ok_def] Some m] m
    by (cases ev) (simp add: endpoint_handle_event_def Let_def endpoint_ok_def delete_conv')
qed (simp add: endpoint_handle_event_def split: endpoint_event.split)

inductive endpoint_step :: "endpoint \<Rightarrow> endpoint \<Rightarrow> bool" where
  ep_datagram: "slab_ok (ee_vacant env) \<Longrightarrow> endpoint_step ep (snd (endpoint_handle env ep now remote data))"
| ep_connect: "slab_ok (ee_vacant env) \<Longrightarrow> endpoint_step ep (snd (connect env port ep tc remote raid now))"
| ep_event: "endpoint_step ep (snd (endpoint_handle_event ep ch ev))"
| ep_config: "endpoint_step ep (set_server_config ep sc)"
| ep_reject: "endpoint_step ep (reject_new_associations ep)"

lemma endpoint_steps_ok: "endpoint_step\<^sup>*\<^sup>* (endpoint_new la gen mps sc) ep \<Longrightarrow> endpoint_ok ep"
proof (induction rule: rtranclp_induct)
  case base
  show ?case by (simp add: endpoint_ok_def endpoint_new_def routes_ok_def)
next
  case (step ep ep')
  from step(2,3) show ?case
    by cases (simp_all add: endpoint_handle_ok connect_ok drained_ok set_server_config_def reject_new_associations_def
        endpoint_ok_frame)
qed

text \<open>
  C12. Datagrams reach the right association: in every endpoint that its operations can produce, a
  datagram with a verification tag is handed to an association exactly when that association is
  live and was created with that tag as its identifier, and no two live associations share one.
\<close>

theorem routing_exact:
  assumes "endpoint_step\<^sup>*\<^sup>* (endpoint_new la gen mps sc) ep"
    and "partial_unmarshal (ee_crc env) data = Inr d" "cm_verification_tag (pdec_common_header d) = tag" "tag \<noteq> 0"
  shows "(fst (endpoint_handle env ep now remote data) = Inr (Some (ch, AssociationEvent (PartialDecode d))) \<longleftrightarrow>
        (\<exists>m. map_of (ep_associations ep) ch = Some m \<and> map snd (am_loc_cids m) = [tag])) \<and>
    (\<forall>ch m ch' m'. map_of (ep_associations ep) ch = Some m \<and> map_of (ep_associations ep) ch' = Some m' \<and>
        set (map snd (am_loc_cids m)) \<inter> set (map snd (am_loc_cids m')) \<noteq> {} \<longrightarrow> ch = ch')"
proof -
  note ok = endpoint_steps_ok [OF assms(1)]
  have cids: "\<exists>aid. am_loc_cids m = [(0, aid)]" if "map_of (ep_associations ep) ch = Some m" for ch m
    using ok that by (simp add: endpoint_ok_def routes_ok_def)
  have ids: "map_of (ep_association_ids ep) aid = Some ch \<longleftrightarrow>
      (\<exists>m. map_of (ep_associations ep) ch = Some m \<and> map snd (am_loc_cids m) = [aid])" for aid ch
    using ok cids [of ch] unfolding endpoint_ok_def routes_ok_def by fastforce
  have "fst (endpoint_handle env ep now remote data) = Inr (Some (ch, AssociationEvent (PartialDecode d))) \<longleftrightarrow>
      map_of (ep_association_ids ep) tag = Some ch"
  proof (cases "map_of (ep_association_ids ep) tag")
    case None
    obtain r ep' where "handle_first_packet env ep now remote d = (r, ep')" by fastforce
    with None assms(2-4) show ?thesis
      by (cases r) (simp_all add: endpoint_handle_def Let_def word_gt_0 case_prod_beta)
  qed (use assms(2-4) in \<open>simp add: endpoint_handle_def Let_def word_gt_0\<close>)
  then have route: "fst (endpoint_handle env ep now remote data) = Inr (Some (ch, AssociationEvent (PartialDecode d))) \<longleftrightarrow>
      (\<exists>m. map_of (ep_associations ep) ch = Some m \<and> map snd (am_loc_cids m) = [tag])"
    by (simp only: ids)
  have "ch = ch'" if u: "map_of (ep_associations ep) ch = Some m \<and> map_of (ep_associations ep) ch' = Some m' \<and>
      set (map snd (am_loc_cids m)) \<inter> set (map snd (am_loc_cids m')) \<noteq> {}" for ch m ch' m'
  proof -
    obtain aid aid' where c: "am_loc_cids m = [(0, aid)]" "am_loc_cids m' = [(0, aid')]"
      using cids [of ch m] cids [of ch' m'] u by blast
    then have "aid' = aid" using u by simp
    with c u have "map_of (ep_association_ids ep) aid = Some ch" "map_of (ep_association_ids ep) aid = Some ch'"
      unfolding ids by simp_all
    then show ?thesis by simp
  qed
  with route show ?thesis by blast
qed

theorem routing_exact_witness:
  "\<exists>ep. endpoint_step\<^sup>*\<^sup>* (endpoint_new 5 [7] 1200 None) ep \<and> map_of (ep_associations ep) 0 \<noteq> None \<and>
     fst (endpoint_handle \<lparr>ee_crc = (\<lambda>_. 0), ee_vacant = length, ee_random_tsn = 9, ee_new_cookie = [], ee_clock = 0\<rparr> ep 0 2
       [0, 0, 0, 0, 0, 0, 0, 7, 0, 0, 0, 0, 11, 0, 0, 4]) \<noteq> Inr None"
proof -
  let ?env = "\<lparr>ee_crc = (\<lambda>_. 0 :: u32), ee_vacant = (\<lambda>m. if map_of m 0 = None then 0 else Suc (Max (fst ` set m))),
    ee_random_tsn = 9, ee_new_cookie = [], ee_clock = 0\<rparr>"
  let ?env' = "\<lparr>ee_crc = (\<lambda>_. 0 :: u32), ee_vacant = length, ee_random_tsn = 9, ee_new_cookie = [], ee_clock = 0\<rparr>"
  let ?ep = "endpoint_new 5 [7] 1200 None" and ?data = "[0, 0, 0, 0, 0, 0, 0, 7, 0, 0, 0, 0, 11, 0, 0, 4] :: bytes"
  define ep where "ep = snd (connect ?env (\<lambda>_. 5000) ?ep transport_config_default 2 3 0)"
  have "map_of m (Suc (Max (fst ` set m))) = None" for m :: "(nat \<times> association_meta) list"
    by (metis Max_ge Suc_n_not_le_n finite_imageI finite_set map_of_eq_None_iff)
  then have "slab_ok (ee_vacant ?env)" by (simp add: slab_ok_def)
  then have "endpoint_step ?ep ep" unfolding ep_def by (rule ep_connect)
  then have steps: "endpoint_step\<^sup>*\<^sup>* ?ep ep" by simp
  have "\<exists>c. association_new False transport_config_default 1200 7 2 5 0 9 = Inr c"
    by (simp add: association_new_def Let_def clamp_u32_def association_default_def send_init_def set_state_def)
  then have live: "map_of (ep_associations ep) 0 \<noteq> None \<and> (\<forall>m. map_of (ep_associations ep) 0 = Some m \<longrightarrow> am_loc_cids m = [(0, 7)])"
    by (auto simp: ep_def connect_def is_full_def add_association_def endpoint_new_def Let_def)
  have d: "partial_unmarshal (ee_crc ?env') ?data = Inr \<lparr>pdec_common_header = \<lparr>cm_source_port = 0, cm_destination_port = 0, cm_verification_tag = 7\<rparr>,
      pdec_remaining = [11, 0, 0, 4], pdec_first_chunk_type = 11, pdec_initiate_tag = None, pdec_cookie = None\<rparr>"
    by (simp add: partial_unmarshal_def common_header_unmarshal_def generate_packet_checksum_def
        slice_def be16_def be32_def chunk_header_unmarshal_def copy_to_bytes_def)
  from routing_exact [OF steps d, of 7 0 2 0] live steps show ?thesis by fastforce
qed
section \<open>Datagrams between associations\<close>

lemma packet_travels:
  assumes "chunks_wf (pk_chunks p)" "pk_chunks p \<noteq> []"
  shows "\<exists>bs d. packet_marshal crc p = Inr bs \<and> partial_unmarshal crc bs = Inr d \<and> partial_finish d = Inr p \<and>
     pdec_common_header d = pk_common_header p \<and>
     (\<forall>i. pk_chunks p = [ChunkInit i] \<longrightarrow>
        pdec_first_chunk_type d = (if ci_is_ack i then CT_INIT_ACK else CT_INIT) \<and>
        pdec_initiate_tag d = Some (ci_initiate_tag i))"
proof -
  let ?h = "pk_common_header p" and ?b = "chunks_body (pk_chunks p)"
  let ?w = "put_u16 (cm_source_port ?h) @ put_u16 (cm_destination_port ?h) @ put_u32 (cm_verification_tag ?h)"
  let ?bs = "?w @ put_u32_le (crc (?w @ [0, 0, 0, 0] @ ?b)) @ ?b"
  have m: "packet_marshal crc p = Inr ?bs"
    using marshal_chunks_body [OF assms(1), of "[]"] by (simp add: packet_marshal_def Let_def)
  have "packet_chunks ?bs 12 = Inr (pk_chunks p)"
    by (rule packet_chunks_body [OF assms(1), where pre = "?w @ put_u32_le (crc (?w @ [0, 0, 0, 0] @ ?b))"]) simp_all
  then have u: "packet_unmarshal crc ?bs = Inr p"
    unfolding packet_unmarshal_def common_header_round_trip [OF refl] by simp
  then obtain d where d: "partial_unmarshal crc ?bs = Inr d" using partial_unmarshal_total assms(2) by blast
  have c: "common_header_unmarshal crc ?bs = Inr (?h, ?b)" unfolding common_header_round_trip [OF refl] by simp
  have h: "pdec_common_header d = ?h"
    using d unfolding partial_unmarshal_def c by (auto simp: rbind_eq_Inr split: if_splits)
  have "pdec_first_chunk_type d = (if ci_is_ack i then CT_INIT_ACK else CT_INIT) \<and>
      pdec_initiate_tag d = Some (ci_initiate_tag i)" if i: "pk_chunks p = [ChunkInit i]" for i
  proof -
    let ?t = "if ci_is_ack i then 2 else 1 :: u8"
    define v where "v = of_nat (init_value_length i) + (4 :: u16)"
    obtain r where r: "?b = [?t, 0] @ put_u16 v @ put_u32 (ci_initiate_tag i) @ r"
      using i by (auto simp: init_marshal_def chunk_header_marshal_def v_def put_u8_def)
    obtain hd where hd: "chunk_header_unmarshal ?b = Inr hd" "ch_typ hd = ?t"
      using d chunk_header_typ [of ?b] unfolding partial_unmarshal_def c by (auto simp: rbind_eq_Inr r split: if_splits)
    have "copy_to_bytes 4 ?b = Inr ([?t, 0] @ put_u16 v, put_u32 (ci_initiate_tag i) @ r)"
      by (simp add: r copy_to_bytes_def put_u16_def)
    with d hd show ?thesis
      unfolding partial_unmarshal_def c by (auto simp: rbind_eq_Inr split: if_splits)
  qed
  with m d h show ?thesis using partial_finish_eq [OF d] u by auto
qed

text \<open>An association that has nothing to send but its control packets.\<close>

definition quiet :: "association \<Rightarrow> bool" where
  "quiet a \<longleftrightarrow>
     a_pending_queue a = pn_new \<and> a_inflight_queue a = pq_new \<and> \<not> a_will_retransmit_fast a \<and>
     \<not> a_will_retransmit_reconfig a \<and> \<not> a_will_send_forward_tsn a \<and> a_ack_state a = AS_Idle"

lemma quiet_transmit:
  assumes "quiet a" "a_state a \<in> {Closed, CookieWait, CookieEchoed, Established}"
    and "a_control_queue a = [p]" "packet_marshal crc p = Inr bs"
  shows "poll_transmit crc a now = (Inr (Some [bs]), a\<lparr>a_control_queue := []\<rparr>)"
proof -
  let ?a = "a\<lparr>a_control_queue := []\<rparr>"
  have raw: "foldl (push_raw crc) [] (a_control_queue a) = [bs]" using assms(3,4) by (simp add: push_raw_def)
  have g: "gather_data_packets_to_retransmit crc ?a raws now = (raws, ?a)"
    "gather_outbound_data_and_reconfig_packets crc ?a raws now = (Inr raws, ?a)"
    "gather_outbound_fast_retransmission_packets crc ?a raws now = (raws, ?a)"
    "gather_outbound_sack_packets crc ?a raws = (raws, ?a)"
    "gather_outbound_forward_tsn_packets crc ?a raws = (raws, ?a)" for raws
    using assms(1)
    by (simp_all add: quiet_def gather_data_packets_to_retransmit_def get_data_packets_to_retransmit_def pq_new_def
        bundle_data_chunks_into_packets_def gather_outbound_data_and_reconfig_packets_def pop_pending_data_chunks_to_send_def
        pn_is_empty_def pn_len_def pn_new_def gather_outbound_fast_retransmission_packets_def
        gather_outbound_sack_packets_def gather_outbound_forward_tsn_packets_def)
  show ?thesis
    using assms(2) by (auto simp: poll_transmit_def gather_outbound_def Let_def raw g)
qed

lemma event_single:
  assumes "partial_finish d = Inr p" "check_packet p = Inr ()" "pk_chunks p = [c]"
    and "handle_chunk ck clk (handle_chunk_start a) p c now = (Inr (), b)"
    and "\<not> a_immediate_ack_triggered b" "\<not> a_delayed_ack_triggered b"
  shows "handle_event ck clk a (PartialDecode d) now = (Inr (), b)"
  using assms by (simp add: handle_event_def handle_inbound_def handle_chunk_end_def)

section \<open>The handshake\<close>

definition config_ok :: "transport_config \<Rightarrow> bool" where
  "config_ok tc \<longleftrightarrow>
     1500 \<le> tr_max_receive_buffer_size tc \<and> tr_max_num_outbound_streams tc \<noteq> 0 \<and> tr_max_num_inbound_streams tc \<noteq> 0"

definition limits_ok :: "association \<Rightarrow> bool" where
  "limits_ok a \<longleftrightarrow>
     1500 \<le> a_max_receive_buffer_size a \<and> a_my_max_num_outbound_streams a \<noteq> 0 \<and> a_my_max_num_inbound_streams a \<noteq> 0"

definition extensions :: param where
  "extensions = ParamSupportedExtensions [CT_RECONFIG, CT_FORWARD_TSN]"

text \<open>The INIT and INIT ACK chunks of an association, and packets between the ports 5000.\<close>

definition init_of :: "bool \<Rightarrow> association \<Rightarrow> param list \<Rightarrow> chunk_init" where
  "init_of ack a ps =
     \<lparr>ci_is_ack = ack, ci_initiate_tag = a_my_verification_tag a,
      ci_advertised_receiver_window_credit = a_max_receive_buffer_size a,
      ci_num_outbound_streams = a_my_max_num_outbound_streams a,
      ci_num_inbound_streams = a_my_max_num_inbound_streams a,
      ci_initial_tsn = a_my_next_tsn a, ci_params = ps @ [extensions]\<rparr>"

definition pkt :: "u32 \<Rightarrow> chunk \<Rightarrow> packet" where
  "pkt tag c = \<lparr>pk_common_header = \<lparr>cm_source_port = 5000, cm_destination_port = 5000, cm_verification_tag = tag\<rparr>,
                pk_chunks = [c]\<rparr>"

definition ports_ok :: "association \<Rightarrow> bool" where
  "ports_ok a \<longleftrightarrow> a_source_port a = 5000 \<and> a_destination_port a = 5000"

lemma init_of_check: "limits_ok a \<Longrightarrow> a_my_verification_tag a \<noteq> 0 \<Longrightarrow> init_check (init_of ack a ps) = Inr ()"
  by (simp add: init_check_def init_of_def limits_ok_def not_less)

lemma check_pkt: "\<not> (\<exists>i. c = ChunkInit i \<and> \<not> ci_is_ack i) \<or> tag = 0 \<Longrightarrow> check_packet (pkt tag c) = Inr ()"
  by (cases c) (auto simp: check_packet_def pkt_def)

lemma association_new_client:
  assumes "association_new False tc mps aid ra la now tsn = Inr c"
  shows "a_state c = CookieWait" "quiet c" "ports_ok c" "a_my_verification_tag c = aid"
    "a_control_queue c = [pkt 0 (ChunkInit (init_of False c []))]" "config_ok tc \<Longrightarrow> limits_ok c"
  using assms
  by (auto simp: association_new_def Let_def rbind_def clamp_u32_def association_default_def send_init_def set_state_def
      quiet_def ports_ok_def limits_ok_def config_ok_def init_of_def set_supported_extensions_def chunk_init_default_def
      extensions_def create_packet_def pkt_def split: if_splits)

lemma association_new_server:
  assumes "association_new True tc mps aid ra la now tsn = Inr s"
  shows "a_state s = Closed" "quiet s" "a_my_verification_tag s = aid" "a_control_queue s = []"
    "a_my_cookie s = None" "config_ok tc \<Longrightarrow> limits_ok s"
  using assms
  by (auto simp: association_new_def Let_def rbind_def clamp_u32_def association_default_def
      quiet_def limits_ok_def config_ok_def split: if_splits)

lemma peer_tsn: "(if x = 0 then - 1 else x - 1 :: u32) = x - 1"
  by simp

lemma server_init:
  assumes "a_state s = Closed" "quiet s" "a_control_queue s = []" "a_my_cookie s = None" "limits_ok s"
    and "partial_finish d = Inr (pkt 0 (ChunkInit (init_of False c [])))" "limits_ok c" "a_my_verification_tag c \<noteq> 0"
  shows "\<exists>s1. handle_event ck clk s (PartialDecode d) now = (Inr (), s1) \<and> a_state s1 = Closed \<and> quiet s1 \<and>
     ports_ok s1 \<and> limits_ok s1 \<and> a_my_cookie s1 = Some ck \<and> a_my_verification_tag s1 = a_my_verification_tag s \<and>
     a_my_next_tsn s1 = a_my_next_tsn s \<and> a_use_forward_tsn s1 \<and>
     a_peer_verification_tag s1 = a_my_verification_tag c \<and> a_peer_last_tsn s1 = a_my_next_tsn c - 1 \<and>
     a_control_queue s1 = [pkt (a_my_verification_tag c) (ChunkInit (init_of True s1 [ParamStateCookie ck]))]"
proof -
  let ?i = "init_of False c []" and ?s = "handle_chunk_start s"
  let ?p = "pkt 0 (ChunkInit ?i)"
  have ext: "supports_forward_tsn extensions" by (simp add: supports_forward_tsn_def extensions_def)
  have chk: "chunk_check (ChunkInit ?i) = Inr ()" using init_of_check [OF assms(7,8)] by (simp add: chunk_check_def)
  define s1 where "s1 = snd (enqueue_reply (handle_init ck ?s ?p ?i))"
  note defs = s1_def enqueue_reply_def handle_init_def handle_chunk_start_def Let_def pkt_def init_of_def
    chunk_init_default_def set_supported_extensions_def create_packet_def extensions_def [symmetric] peer_tsn ext
  have h: "handle_chunk ck clk ?s ?p (ChunkInit ?i) now = (Inr (), s1)"
    using assms(1) chk by (simp add: handle_chunk_def) (simp add: defs)
  have r: "\<not> a_immediate_ack_triggered s1 \<and> \<not> a_delayed_ack_triggered s1 \<and> a_state s1 = Closed"
    using assms(1,4) by (simp add: defs)
  have "handle_event ck clk s (PartialDecode d) now = (Inr (), s1)"
    using r h check_pkt [of "ChunkInit ?i" 0] by (intro event_single [OF assms(6)]) (simp_all add: pkt_def)
  moreover have "quiet s1 \<and> ports_ok s1 \<and> limits_ok s1 \<and> a_my_cookie s1 = Some ck \<and>
      a_my_verification_tag s1 = a_my_verification_tag s \<and> a_my_next_tsn s1 = a_my_next_tsn s \<and> a_use_forward_tsn s1 \<and>
      a_peer_verification_tag s1 = a_my_verification_tag c \<and> a_peer_last_tsn s1 = a_my_next_tsn c - 1 \<and>
      a_control_queue s1 = [pkt (a_my_verification_tag c) (ChunkInit (init_of True s1 [ParamStateCookie ck]))]"
    using assms(1-5,7) by (simp add: defs limits_ok_def quiet_def ports_ok_def min_def)
  ultimately show ?thesis using r by blast
qed

lemma client_init_ack:
  assumes "a_state c = CookieWait" "quiet c" "ports_ok c" "a_control_queue c = []"
    and "partial_finish d = Inr (pkt tag (ChunkInit (init_of True s [ParamStateCookie ck])))"
      "limits_ok s" "a_my_verification_tag s \<noteq> 0"
  shows "\<exists>c2. handle_event ck' clk c (PartialDecode d) now = (Inr (), c2) \<and> a_state c2 = CookieEchoed \<and> quiet c2 \<and>
     ports_ok c2 \<and> a_my_verification_tag c2 = a_my_verification_tag c \<and> a_my_next_tsn c2 = a_my_next_tsn c \<and>
     a_use_forward_tsn c2 \<and> a_peer_verification_tag c2 = a_my_verification_tag s \<and>
     a_peer_last_tsn c2 = a_my_next_tsn s - 1 \<and> a_rwnd c2 = a_max_receive_buffer_size s \<and>
     a_control_queue c2 = [pkt (a_my_verification_tag s) (ChunkCookieEcho ck)]"
proof -
  let ?i = "init_of True s [ParamStateCookie ck]" and ?c = "handle_chunk_start c"
  let ?p = "pkt tag (ChunkInit ?i)"
  have ext: "supports_forward_tsn extensions" by (simp add: supports_forward_tsn_def extensions_def)
  have ck: "cookie_param [ParamStateCookie ck, extensions] = Some ck" by (simp add: cookie_param_def extensions_def)
  have chk: "chunk_check (ChunkInit ?i) = Inr ()" using init_of_check [OF assms(6,7)] by (simp add: chunk_check_def)
  define c2 where "c2 = snd (enqueue_reply (handle_init_ack ?c ?p ?i now))"
  note defs = c2_def enqueue_reply_def handle_init_ack_def handle_chunk_start_def Let_def pkt_def init_of_def ck
    send_cookie_echo_def set_state_def create_packet_def peer_tsn ext
  have h: "handle_chunk ck' clk ?c ?p (ChunkInit ?i) now = (Inr (), c2)"
    using assms(1,3) chk by (simp add: handle_chunk_def ports_ok_def) (simp add: defs ports_ok_def)
  have r: "\<not> a_immediate_ack_triggered c2 \<and> \<not> a_delayed_ack_triggered c2 \<and> a_state c2 = CookieEchoed"
    using assms(1,3) by (simp add: defs ports_ok_def)
  have "handle_event ck' clk c (PartialDecode d) now = (Inr (), c2)"
    using r h check_pkt [of "ChunkInit ?i" tag] by (intro event_single [OF assms(5)]) (simp_all add: pkt_def init_of_def)
  moreover have "quiet c2 \<and> ports_ok c2 \<and> a_my_verification_tag c2 = a_my_verification_tag c \<and>
     a_my_next_tsn c2 = a_my_next_tsn c \<and> a_use_forward_tsn c2 \<and> a_peer_verification_tag c2 = a_my_verification_tag s \<and>
     a_peer_last_tsn c2 = a_my_next_tsn s - 1 \<and> a_rwnd c2 = a_max_receive_buffer_size s \<and>
     a_control_queue c2 = [pkt (a_my_verification_tag s) (ChunkCookieEcho ck)]"
    using assms(1-4) by (simp add: defs quiet_def ports_ok_def)
  ultimately show ?thesis using r by blast
qed

lemma server_cookie_echo:
  assumes "a_state s = Closed" "quiet s" "ports_ok s" "a_control_queue s = []" "a_my_cookie s = Some ck"
    and "partial_finish d = Inr (pkt tag (ChunkCookieEcho ck))"
  shows "\<exists>s3. handle_event ck' clk s (PartialDecode d) now = (Inr (), s3) \<and> a_state s3 = Established \<and> quiet s3 \<and>
     a_my_verification_tag s3 = a_my_verification_tag s \<and> a_my_next_tsn s3 = a_my_next_tsn s \<and>
     a_use_forward_tsn s3 = a_use_forward_tsn s \<and> a_peer_verification_tag s3 = a_peer_verification_tag s \<and>
     a_peer_last_tsn s3 = a_peer_last_tsn s \<and> \<not> is_handshaking s3 \<and> Connected \<in> set (a_events s3) \<and>
     a_control_queue s3 = [pkt (a_peer_verification_tag s) ChunkCookieAck]"
proof -
  let ?s = "handle_chunk_start s" and ?p = "pkt tag (ChunkCookieEcho ck)"
  define s3 where "s3 = snd (enqueue_reply (handle_cookie_echo ?s ck))"
  note defs = s3_def enqueue_reply_def handle_cookie_echo_def handle_chunk_start_def Let_def set_state_def create_packet_def
  have h: "handle_chunk ck' clk ?s ?p (ChunkCookieEcho ck) now = (Inr (), s3)"
    using assms(1,5) by (simp add: handle_chunk_def chunk_check_def) (simp add: defs)
  have r: "\<not> a_immediate_ack_triggered s3 \<and> \<not> a_delayed_ack_triggered s3"
    using assms(1,5) by (simp add: defs)
  have "handle_event ck' clk s (PartialDecode d) now = (Inr (), s3)"
    using r h check_pkt [of "ChunkCookieEcho ck" tag] by (intro event_single [OF assms(6)]) (simp_all add: pkt_def)
  then show ?thesis
    using assms(1-5) by (intro exI [of _ s3]) (simp add: defs quiet_def ports_ok_def pkt_def is_handshaking_def)
qed

lemma client_cookie_ack:
  assumes "a_state c = CookieEchoed" "partial_finish d = Inr (pkt tag ChunkCookieAck)"
  shows "\<exists>c4. handle_event ck' clk c (PartialDecode d) now = (Inr (), c4) \<and> a_state c4 = Established \<and>
     a_my_verification_tag c4 = a_my_verification_tag c \<and> a_my_next_tsn c4 = a_my_next_tsn c \<and>
     a_use_forward_tsn c4 = a_use_forward_tsn c \<and> a_peer_verification_tag c4 = a_peer_verification_tag c \<and>
     a_peer_last_tsn c4 = a_peer_last_tsn c \<and> \<not> is_handshaking c4 \<and> Connected \<in> set (a_events c4)"
proof -
  let ?c = "handle_chunk_start c" and ?p = "pkt tag ChunkCookieAck"
  define c4 where "c4 = snd (enqueue_reply (handle_cookie_ack ?c))"
  note defs = c4_def enqueue_reply_def handle_cookie_ack_def handle_chunk_start_def Let_def set_state_def
  have h: "handle_chunk ck' clk ?c ?p ChunkCookieAck now = (Inr (), c4)"
    using assms(1) by (simp add: handle_chunk_def chunk_check_def) (simp add: defs)
  have r: "\<not> a_immediate_ack_triggered c4 \<and> \<not> a_delayed_ack_triggered c4" using assms(1) by (simp add: defs)
  have "handle_event ck' clk c (PartialDecode d) now = (Inr (), c4)"
    using r h check_pkt [of ChunkCookieAck tag] by (intro event_single [OF assms(2)]) (simp_all add: pkt_def)
  then show ?thesis using assms(1) by (intro exI [of _ c4]) (simp add: defs is_handshaking_def)
qed

lemma handshake_chunks_wf:
  "chunks_wf (pk_chunks (pkt tag (ChunkInit (init_of False a []))))"
  "length ck = 32 \<Longrightarrow> chunks_wf (pk_chunks (pkt tag (ChunkInit (init_of True a [ParamStateCookie ck]))))"
  "length ck = 32 \<Longrightarrow> chunks_wf (pk_chunks (pkt tag (ChunkCookieEcho ck)))"
  "chunks_wf (pk_chunks (pkt tag ChunkCookieAck))"
  by (simp_all add: pkt_def init_of_def extensions_def init_value_length_def Let_def get_padding_size_def
      chunk_padding_def tail_ok_def)

lemma endpoint_routes:
  assumes "partial_unmarshal (ee_crc env) bs = Inr d" "cm_verification_tag (pdec_common_header d) = tag" "tag \<noteq> 0"
    and "map_of (ep_association_ids ep) tag = Some ch"
  shows "endpoint_handle env ep now remote bs = (Inr (Some (ch, AssociationEvent (PartialDecode d))), ep)"
  using assms by (simp add: endpoint_handle_def Let_def word_gt_0)

lemma connect_new:
  assumes "connect env port ep tc remote raid now = (Inr (Inr (ch, c)), ep')"
  shows "association_new False tc (ep_max_payload_size ep) (a_my_verification_tag c) remote (ep_local_addr ep) now
      (ee_random_tsn env) = Inr c"
    and "map_of (ep_association_ids ep') (a_my_verification_tag c) = Some ch"
proof -
  obtain aid gen where n: "new_aid (ep_association_ids ep) (ep_local_cid_generator ep) = Inr (aid, gen)"
    using assms by (auto simp: connect_def split: if_splits sum.splits)
  let ?new = "association_new False tc (ep_max_payload_size ep) aid remote (ep_local_addr ep) now (ee_random_tsn env)"
  have a: "add_association env (ep\<lparr>ep_local_cid_generator := gen\<rparr>) raid aid remote now False tc = (Inr (ch, c), ep')"
    using assms by (auto simp: connect_def n Let_def split: if_splits sum.splits prod.splits)
  have new: "?new = Inr c"
    using a by (cases ?new) (simp_all add: add_association_def Let_def)
  note aid = association_new_client(4) [OF new]
  show "association_new False tc (ep_max_payload_size ep) (a_my_verification_tag c) remote (ep_local_addr ep) now
      (ee_random_tsn env) = Inr c" using new aid by simp
  show "map_of (ep_association_ids ep') (a_my_verification_tag c) = Some ch"
    using a new aid by (auto simp: add_association_def Let_def update_conv')
qed

text \<open>The server accepts an INIT: it has room, its generator yields \<open>aid\<close> and its configuration makes an association.\<close>

definition accepting :: "endpoint_env \<Rightarrow> endpoint \<Rightarrow> u32 \<Rightarrow> bool" where
  "accepting env ep aid \<longleftrightarrow>
     (\<exists>sc gen. ep_server_config ep = Some sc \<and> length (ep_associations ep) < unat (sv_concurrent_associations sc) \<and>
        \<not> ep_reject_new_associations ep \<and> \<not> is_full ep \<and> config_ok (sv_transport sc) \<and>
        1067 \<le> ep_max_payload_size ep \<and> ep_max_payload_size ep < 1000000000 \<and>
        new_aid (ep_association_ids ep) (ep_local_cid_generator ep) = Inr (aid, gen))"

lemma clamp_ok: "1067 \<le> mps \<Longrightarrow> mps < 1000000000 \<Longrightarrow> \<exists>x. clamp_u32 (2 * (mps + 28)) 4380 (4 * (mps + 28)) = Inr x"
proof -
  assume "1067 \<le> mps" "mps < 1000000000"
  then have "(4380 :: u32) \<le> 4 * (mps + 28)"
    by (simp add: word_le_nat_alt word_less_nat_alt unat_word_ariths)
  then show ?thesis by (simp add: clamp_u32_def)
qed

lemma endpoint_accepts:
  assumes "accepting env ep aid" "aid \<noteq> 0" "length (ee_new_cookie env) = 32"
    and "partial_unmarshal (ee_crc env) bs = Inr d" "partial_finish d = Inr (pkt 0 (ChunkInit (init_of False c [])))"
      "pdec_common_header d = pk_common_header (pkt 0 (ChunkInit (init_of False c [])))"
      "pdec_first_chunk_type d = CT_INIT" "pdec_initiate_tag d = Some (a_my_verification_tag c)"
    and "map_of (ep_association_ids ep) (a_my_verification_tag c) = None" "limits_ok c" "a_my_verification_tag c \<noteq> 0"
  shows "\<exists>ch s1 ep'. endpoint_handle env ep now remote bs = (Inr (Some (ch, NewAssociation s1)), ep') \<and>
     map_of (ep_association_ids ep') aid = Some ch \<and> a_my_verification_tag s1 = aid \<and>
     a_state s1 = Closed \<and> quiet s1 \<and> ports_ok s1 \<and> limits_ok s1 \<and> a_my_cookie s1 = Some (ee_new_cookie env) \<and>
     a_use_forward_tsn s1 \<and> a_peer_verification_tag s1 = a_my_verification_tag c \<and>
     a_peer_last_tsn s1 = a_my_next_tsn c - 1 \<and>
     a_control_queue s1 = [pkt (a_my_verification_tag c) (ChunkInit (init_of True s1 [ParamStateCookie (ee_new_cookie env)]))]"
proof -
  obtain sc gen where sc: "ep_server_config ep = Some sc" "length (ep_associations ep) < unat (sv_concurrent_associations sc)"
      "\<not> ep_reject_new_associations ep" "\<not> is_full ep" "config_ok (sv_transport sc)" "1067 \<le> ep_max_payload_size ep"
      "ep_max_payload_size ep < 1000000000" "new_aid (ep_association_ids ep) (ep_local_cid_generator ep) = Inr (aid, gen)"
    using assms(1) by (auto simp: accepting_def)
  obtain s where new: "association_new True (sv_transport sc) (ep_max_payload_size ep) aid remote (ep_local_addr ep) now
      (ee_random_tsn env) = Inr s"
    using clamp_ok [OF sc(6,7)] by (auto simp: association_new_def Let_def add.assoc)
  note s = association_new_server [OF new]
  obtain s1 where e: "handle_event (ee_new_cookie env) (ee_clock env) s (PartialDecode d) now = (Inr (), s1)"
    and s1: "a_state s1 = Closed \<and> quiet s1 \<and>
     ports_ok s1 \<and> limits_ok s1 \<and> a_my_cookie s1 = Some (ee_new_cookie env) \<and> a_my_verification_tag s1 = a_my_verification_tag s \<and>
     a_my_next_tsn s1 = a_my_next_tsn s \<and> a_use_forward_tsn s1 \<and>
     a_peer_verification_tag s1 = a_my_verification_tag c \<and> a_peer_last_tsn s1 = a_my_next_tsn c - 1 \<and>
     a_control_queue s1 = [pkt (a_my_verification_tag c) (ChunkInit (init_of True s1 [ParamStateCookie (ee_new_cookie env)]))]"
    using server_init [OF s(1,2,4,5) s(6) [OF sc(5)] assms(5,10,11), of "ee_new_cookie env" "ee_clock env" now] by blast
  have "cm_verification_tag (pdec_common_header d) = 0" using assms(6) by (simp add: pkt_def)
  then show ?thesis
    using assms(4,7-9) sc(1-4,8) new e s1 s(3)
    by (simp add: endpoint_handle_def handle_first_packet_def add_association_def Let_def not_le update_conv')
qed

lemma datagram_travels:
  assumes "quiet a" "a_state a \<in> {Closed, CookieWait, CookieEchoed, Established}" "a_control_queue a = [pkt tag c]"
    and "chunks_wf (pk_chunks (pkt tag c))" "tag \<noteq> 0" "map_of (ep_association_ids ep) tag = Some ch"
  shows "\<exists>d e. poll_transmit (ee_crc env) a t = (Inr (Some [d]), a\<lparr>a_control_queue := []\<rparr>) \<and>
     endpoint_handle env ep t' addr d = (Inr (Some (ch, AssociationEvent (PartialDecode e))), ep) \<and>
     partial_finish e = Inr (pkt tag c)"
proof -
  obtain d e where d: "packet_marshal (ee_crc env) (pkt tag c) = Inr d" "partial_unmarshal (ee_crc env) d = Inr e"
      "partial_finish e = Inr (pkt tag c)" "cm_verification_tag (pdec_common_header e) = tag"
    using packet_travels [OF assms(4), of "ee_crc env"] by (auto simp: pkt_def)
  from quiet_transmit [OF assms(1-3) d(1), of t] endpoint_routes [OF d(2,4) assms(5,6), of t' addr] d(3)
  show ?thesis by blast
qed

lemma client_hello:
  assumes "connect envc port epc tc remote raid t0 = (Inr (Inr (chc, c0)), epc')" "config_ok tc" "a_my_verification_tag c0 \<noteq> 0"
    and "accepting envs eps aid" "aid \<noteq> 0" "map_of (ep_association_ids eps) (a_my_verification_tag c0) = None"
    and "ee_crc envs = ee_crc envc" "length (ee_new_cookie envs) = 32"
  shows "\<exists>d1 chs s1 eps'. poll_transmit (ee_crc envc) c0 t1 = (Inr (Some [d1]), c0\<lparr>a_control_queue := []\<rparr>) \<and>
     endpoint_handle envs eps t2 addrc d1 = (Inr (Some (chs, NewAssociation s1)), eps') \<and>
     map_of (ep_association_ids eps') aid = Some chs \<and> a_my_verification_tag s1 = aid \<and>
     a_state s1 = Closed \<and> quiet s1 \<and> ports_ok s1 \<and> limits_ok s1 \<and> a_my_cookie s1 = Some (ee_new_cookie envs) \<and>
     a_use_forward_tsn s1 \<and> a_peer_verification_tag s1 = a_my_verification_tag c0 \<and>
     a_peer_last_tsn s1 = a_my_next_tsn c0 - 1 \<and>
     a_control_queue s1 = [pkt (a_my_verification_tag c0) (ChunkInit (init_of True s1 [ParamStateCookie (ee_new_cookie envs)]))]"
proof -
  let ?crc = "ee_crc envc" and ?p1 = "pkt 0 (ChunkInit (init_of False c0 []))"
  note c0 = association_new_client [OF connect_new(1) [OF assms(1)]]
  obtain d1 e1 where d1: "packet_marshal ?crc ?p1 = Inr d1" "partial_unmarshal ?crc d1 = Inr e1" "partial_finish e1 = Inr ?p1"
      "pdec_common_header e1 = pk_common_header ?p1" "pdec_first_chunk_type e1 = CT_INIT"
      "pdec_initiate_tag e1 = Some (a_my_verification_tag c0)"
    using packet_travels [OF handshake_chunks_wf(1) [of 0 c0], of ?crc] by (auto simp: pkt_def init_of_def)
  have "poll_transmit ?crc c0 t1 = (Inr (Some [d1]), c0\<lparr>a_control_queue := []\<rparr>)"
    by (rule quiet_transmit [OF c0(2) _ c0(5) d1(1)]) (simp add: c0(1))
  with endpoint_accepts [OF assms(4,5,8) d1(2) [folded assms(7)] d1(3-6) assms(6) c0(6) [OF assms(2)] assms(3), of t2 addrc]
  show ?thesis by blast
qed

text \<open>
  A client that repeats its INIT, as its timer makes it do, gets a second association: the INIT is
  looked up by its own tag among the identifiers of the server.
\<close>

lemma repeated_init_accepted:
  assumes "accepting env ep aid" "aid \<noteq> 0" "length (ee_new_cookie env) = 32"
    and "partial_unmarshal (ee_crc env) bs = Inr d" "partial_finish d = Inr (pkt 0 (ChunkInit (init_of False c [])))"
      "pdec_common_header d = pk_common_header (pkt 0 (ChunkInit (init_of False c [])))"
      "pdec_first_chunk_type d = CT_INIT" "pdec_initiate_tag d = Some (a_my_verification_tag c)"
    and "map_of (ep_association_ids ep) (a_my_verification_tag c) = None" "limits_ok c" "a_my_verification_tag c \<noteq> 0"
    and "endpoint_handle env ep now remote bs = (r, ep')" "accepting env ep' aid'" "aid' \<noteq> 0" "aid \<noteq> a_my_verification_tag c"
  shows "\<exists>ch s1 ep''. endpoint_handle env ep' now' remote bs = (Inr (Some (ch, NewAssociation s1)), ep'') \<and>
     a_my_verification_tag s1 = aid'"
proof -
  obtain sc gen where n: "new_aid (ep_association_ids ep) (ep_local_cid_generator ep) = Inr (aid, gen)" "ep_server_config ep = Some sc"
    using assms(1) by (auto simp: accepting_def)
  have "map_of (ep_association_ids (snd (add_association env (ep\<lparr>ep_local_cid_generator := gen\<rparr>) x aid remote now True tc)))
      (a_my_verification_tag c) = None" for x tc
    using assms(9,15) by (simp add: add_association_def Let_def update_conv' split: sum.split)
  note a = this [of "a_my_verification_tag c" "sv_transport sc"]
  have "cm_verification_tag (pdec_common_header d) = 0" using assms(6) by (simp add: pkt_def)
  then have "map_of (ep_association_ids (snd (endpoint_handle env ep now remote bs))) (a_my_verification_tag c) = None"
    using a assms(4,7-9) n
    by (auto simp: endpoint_handle_def handle_first_packet_def Let_def split: prod.split sum.split)
  then have "map_of (ep_association_ids ep') (a_my_verification_tag c) = None" by (simp add: assms(12))
  from endpoint_accepts [OF assms(13,14,3-8) this assms(10,11), of now' remote] show ?thesis by blast
qed

section \<open>Properties\<close>

text \<open>
  C2. The handshake completes. A client endpoint connects and a server endpoint accepts, with valid
  configurations and identifiers that are not zero. Handing each datagram that one association
  transmits to the endpoint of the other, through the codec with any checksum function and at any
  times, makes the server create an association for the INIT, routes every later datagram to
  the right association, and after four datagrams both sides are established, have reported it,
  know each other's verification tag and initial TSN and use FORWARD TSN.
\<close>

theorem handshake_completes:
  assumes "connect envc port epc tc remote raid t0 = (Inr (Inr (chc, c0)), epc')" "config_ok tc" "a_my_verification_tag c0 \<noteq> 0"
    and "accepting envs eps aid" "aid \<noteq> 0" "map_of (ep_association_ids eps) (a_my_verification_tag c0) = None"
    and "ee_crc envs = ee_crc envc" "length (ee_new_cookie envs) = 32"
  shows "\<exists>d1 c1 chs s1 eps' d2 s2 p2 c2 d3 c3 p3 s3 d4 s4 p4 c4.
    poll_transmit (ee_crc envc) c0 t1 = (Inr (Some [d1]), c1) \<and>
    endpoint_handle envs eps t2 addrc d1 = (Inr (Some (chs, NewAssociation s1)), eps') \<and>
    poll_transmit (ee_crc envs) s1 t3 = (Inr (Some [d2]), s2) \<and>
    endpoint_handle envc epc' t4 addrs d2 = (Inr (Some (chc, AssociationEvent p2)), epc') \<and>
    handle_event ck clk c1 p2 t4 = (Inr (), c2) \<and>
    poll_transmit (ee_crc envc) c2 t5 = (Inr (Some [d3]), c3) \<and>
    endpoint_handle envs eps' t6 addrc d3 = (Inr (Some (chs, AssociationEvent p3)), eps') \<and>
    handle_event ck' clk' s2 p3 t6 = (Inr (), s3) \<and>
    poll_transmit (ee_crc envs) s3 t7 = (Inr (Some [d4]), s4) \<and>
    endpoint_handle envc epc' t8 addrs d4 = (Inr (Some (chc, AssociationEvent p4)), epc') \<and>
    handle_event ck clk c3 p4 t8 = (Inr (), c4) \<and>
    (\<forall>a \<in> {c4, s4}. a_state a = Established \<and> \<not> is_handshaking a \<and> Connected \<in> set (a_events a) \<and> a_use_forward_tsn a) \<and>
    a_peer_verification_tag c4 = a_my_verification_tag s4 \<and> a_peer_verification_tag s4 = a_my_verification_tag c4 \<and>
    a_peer_last_tsn c4 = a_my_next_tsn s4 - 1 \<and> a_peer_last_tsn s4 = a_my_next_tsn c4 - 1"
proof -
  let ?ck = "ee_new_cookie envs" and ?c1 = "c0\<lparr>a_control_queue := []\<rparr>"
  note new = connect_new [OF assms(1)]
  note c0 = association_new_client [OF new(1)]
  from client_hello [OF assms, of t1 t2 addrc]
  obtain d1 chs s1 eps' where t1: "poll_transmit (ee_crc envc) c0 t1 = (Inr (Some [d1]), ?c1)"
    and s1: "endpoint_handle envs eps t2 addrc d1 = (Inr (Some (chs, NewAssociation s1)), eps')"
    "map_of (ep_association_ids eps') aid = Some chs" "a_my_verification_tag s1 = aid" "a_state s1 = Closed" "quiet s1"
    "ports_ok s1" "limits_ok s1" "a_my_cookie s1 = Some ?ck" "a_use_forward_tsn s1"
    "a_peer_verification_tag s1 = a_my_verification_tag c0" "a_peer_last_tsn s1 = a_my_next_tsn c0 - 1"
    "a_control_queue s1 = [pkt (a_my_verification_tag c0) (ChunkInit (init_of True s1 [ParamStateCookie ?ck]))]"
    by blast
  let ?s2 = "s1\<lparr>a_control_queue := []\<rparr>"
  from datagram_travels [OF s1(5) _ s1(12) handshake_chunks_wf(2) [OF assms(8)] assms(3) new(2), of envc t3 t4 addrs] s1(4)
  obtain d2 e2 where d2: "poll_transmit (ee_crc envs) s1 t3 = (Inr (Some [d2]), ?s2)"
    "endpoint_handle envc epc' t4 addrs d2 = (Inr (Some (chc, AssociationEvent (PartialDecode e2))), epc')"
    "partial_finish e2 = Inr (pkt (a_my_verification_tag c0) (ChunkInit (init_of True s1 [ParamStateCookie ?ck])))"
    unfolding assms(7) by auto
  have "quiet ?c1" "ports_ok ?c1" using c0(2,3) by (simp_all add: quiet_def ports_ok_def)
  from client_init_ack [OF _ this _ d2(3) s1(7)] assms(5) s1(3) c0(1)
  obtain c2 where c2: "handle_event ck clk ?c1 (PartialDecode e2) t4 = (Inr (), c2)" "a_state c2 = CookieEchoed" "quiet c2"
    "a_my_verification_tag c2 = a_my_verification_tag c0" "a_my_next_tsn c2 = a_my_next_tsn c0" "a_use_forward_tsn c2"
    "a_peer_verification_tag c2 = aid" "a_peer_last_tsn c2 = a_my_next_tsn s1 - 1"
    "a_control_queue c2 = [pkt aid (ChunkCookieEcho ?ck)]" by fastforce
  let ?c3 = "c2\<lparr>a_control_queue := []\<rparr>"
  from datagram_travels [OF c2(3) _ c2(9) handshake_chunks_wf(3) [OF assms(8)] assms(5) s1(2), of envs t5 t6 addrc] c2(2)
  obtain d3 e3 where d3: "poll_transmit (ee_crc envc) c2 t5 = (Inr (Some [d3]), ?c3)"
    "endpoint_handle envs eps' t6 addrc d3 = (Inr (Some (chs, AssociationEvent (PartialDecode e3))), eps')"
    "partial_finish e3 = Inr (pkt aid (ChunkCookieEcho ?ck))" unfolding assms(7) by auto
  have "a_state ?s2 = Closed" "quiet ?s2" "ports_ok ?s2" "a_control_queue ?s2 = []" "a_my_cookie ?s2 = Some ?ck"
    using s1(4-6,8) by (simp_all add: quiet_def ports_ok_def)
  from server_cookie_echo [OF this d3(3), of ck' clk' t6]
  obtain s3 where s3: "handle_event ck' clk' ?s2 (PartialDecode e3) t6 = (Inr (), s3)" "a_state s3 = Established" "quiet s3"
    "a_my_verification_tag s3 = aid" "a_my_next_tsn s3 = a_my_next_tsn s1" "a_use_forward_tsn s3"
    "a_peer_verification_tag s3 = a_my_verification_tag c0" "a_peer_last_tsn s3 = a_my_next_tsn c0 - 1" "\<not> is_handshaking s3"
    "Connected \<in> set (a_events s3)" "a_control_queue s3 = [pkt (a_my_verification_tag c0) ChunkCookieAck]"
    using s1(3,9-11) by auto
  let ?s4 = "s3\<lparr>a_control_queue := []\<rparr>"
  from datagram_travels [OF s3(3) _ s3(11) handshake_chunks_wf(4) assms(3) new(2), of envc t7 t8 addrs] s3(2)
  obtain d4 e4 where d4: "poll_transmit (ee_crc envs) s3 t7 = (Inr (Some [d4]), ?s4)"
    "endpoint_handle envc epc' t8 addrs d4 = (Inr (Some (chc, AssociationEvent (PartialDecode e4))), epc')"
    "partial_finish e4 = Inr (pkt (a_my_verification_tag c0) ChunkCookieAck)" unfolding assms(7) by auto
  obtain c4 where c4: "handle_event ck clk ?c3 (PartialDecode e4) t8 = (Inr (), c4)" "a_state c4 = Established"
    "a_my_verification_tag c4 = a_my_verification_tag c0" "a_my_next_tsn c4 = a_my_next_tsn c0" "a_use_forward_tsn c4"
    "a_peer_verification_tag c4 = aid" "a_peer_last_tsn c4 = a_my_next_tsn s1 - 1" "\<not> is_handshaking c4"
    "Connected \<in> set (a_events c4)"
    using client_cookie_ack [OF _ d4(3), of ?c3 ck clk t8] c2 by auto
  have "\<forall>a \<in> {c4, ?s4}. a_state a = Established \<and> \<not> is_handshaking a \<and> Connected \<in> set (a_events a) \<and> a_use_forward_tsn a"
    using c4 s3 by (simp add: is_handshaking_def)
  with t1 s1(1) d2(1,2) c2(1) d3(1,2) s3(1) d4(1,2) c4(1) show ?thesis
    by (intro exI conjI) (assumption | simp add: c4 s3)+
qed

theorem handshake_completes_witness:
  "\<exists>chc c0 epc' d1 c1 chs s1 eps'.
     connect \<lparr>ee_crc = (\<lambda>_. 0), ee_vacant = length, ee_random_tsn = 9, ee_new_cookie = [], ee_clock = 0\<rparr> (\<lambda>_. 5000)
       (endpoint_new 5 [7] 1200 None) transport_config_default 2 3 0 = (Inr (Inr (chc, c0)), epc') \<and>
     poll_transmit (\<lambda>_. 0) c0 0 = (Inr (Some [d1]), c1) \<and>
     endpoint_handle \<lparr>ee_crc = (\<lambda>_. 0), ee_vacant = length, ee_random_tsn = 4, ee_new_cookie = replicate 32 1, ee_clock = 0\<rparr>
       (endpoint_new 2 [8] 1200 (Some server_config_default)) 0 1 d1 = (Inr (Some (chs, NewAssociation s1)), eps')"
proof -
  let ?envc = "\<lparr>ee_crc = (\<lambda>_. 0 :: u32), ee_vacant = length, ee_random_tsn = 9, ee_new_cookie = [], ee_clock = 0\<rparr>"
  let ?envs = "\<lparr>ee_crc = (\<lambda>_. 0 :: u32), ee_vacant = length, ee_random_tsn = 4, ee_new_cookie = replicate 32 1, ee_clock = 0\<rparr>"
  let ?epc = "endpoint_new 5 [7] 1200 None" and ?eps = "endpoint_new 2 [8] 1200 (Some server_config_default)"
  have cfg: "config_ok transport_config_default" by (simp add: config_ok_def transport_config_default_def)
  have full: "\<not> is_full ?epc" "\<not> is_full ?eps" by (simp_all add: is_full_def endpoint_new_def)
  have "\<exists>c. association_new False transport_config_default 1200 7 2 5 0 9 = Inr c \<and> a_my_verification_tag c = 7"
    by (simp add: association_new_def Let_def clamp_u32_def association_default_def send_init_def set_state_def)
  then obtain c0 where c0: "association_new False transport_config_default 1200 7 2 5 0 9 = Inr c0" "a_my_verification_tag c0 = 7" by blast
  obtain chc epc' where con: "connect ?envc (\<lambda>_. 5000) ?epc transport_config_default 2 3 0 = (Inr (Inr (chc, c0)), epc')"
    using full c0 by (simp add: connect_def add_association_def endpoint_new_def)
  have acc: "accepting ?envs ?eps 8"
    unfolding accepting_def using cfg full by (simp add: endpoint_new_def server_config_default_def)
  have "map_of (ep_association_ids ?eps) (a_my_verification_tag c0) = None" by (simp add: endpoint_new_def)
  from handshake_completes [OF con cfg _ acc _ this, of 0 0 1 0 0 0 "[]" 0 0 0 "[]" 0 0 0] con c0(2) show ?thesis by auto
qed

end
