(* ===== verification/Rtp_Header.thy ===== *)
theory Rtp_Header
  imports Rtc_Prelude
begin

unbundle bit_operations_syntax

text \<open>
  The RTP header of \<^verbatim>\<open>rtc-rtp/src/header.rs\<close>: its fields, the decoder with its three kinds of
  header extension, the encoder with its size computation and the interface that sets, reads and
  deletes extensions. The theorem is that encoding and decoding are inverse on the headers that fit
  the wire format; the lemmas after it give the laws of the extension interface.
\<close>

section \<open>The header and its extensions\<close>

definition HEADER_LENGTH :: nat where "HEADER_LENGTH = 4"
definition VERSION_SHIFT :: nat where "VERSION_SHIFT = 6"
definition VERSION_MASK :: u8 where "VERSION_MASK = 3"
definition PADDING_SHIFT :: nat where "PADDING_SHIFT = 5"
definition PADDING_MASK :: u8 where "PADDING_MASK = 1"
definition EXTENSION_SHIFT :: nat where "EXTENSION_SHIFT = 4"
definition EXTENSION_MASK :: u8 where "EXTENSION_MASK = 1"
definition EXTENSION_PROFILE_ONE_BYTE :: u16 where "EXTENSION_PROFILE_ONE_BYTE = 0xBEDE"
definition EXTENSION_PROFILE_TWO_BYTE :: u16 where "EXTENSION_PROFILE_TWO_BYTE = 0x1000"
definition EXTENSION_ID_RESERVED :: u8 where "EXTENSION_ID_RESERVED = 0xF"
definition CC_MASK :: u8 where "CC_MASK = 0xF"
definition MARKER_SHIFT :: nat where "MARKER_SHIFT = 7"
definition MARKER_MASK :: u8 where "MARKER_MASK = 1"
definition PT_MASK :: u8 where "PT_MASK = 0x7F"
definition CSRC_OFFSET :: nat where "CSRC_OFFSET = 12"
definition CSRC_LENGTH :: nat where "CSRC_LENGTH = 4"

lemmas rtp_consts = HEADER_LENGTH_def VERSION_SHIFT_def VERSION_MASK_def PADDING_SHIFT_def
  PADDING_MASK_def EXTENSION_SHIFT_def EXTENSION_MASK_def CC_MASK_def MARKER_SHIFT_def
  MARKER_MASK_def PT_MASK_def CSRC_OFFSET_def CSRC_LENGTH_def

lemmas rtp_profiles = EXTENSION_PROFILE_ONE_BYTE_def EXTENSION_PROFILE_TWO_BYTE_def

record rtp_extension =
  ext_id :: u8
  ext_payload :: bytes

record rtp_header =
  version :: u8
  padding :: bool
  extension :: bool
  marker :: bool
  payload_type :: u8
  sequence_number :: u16
  timestamp :: u32
  ssrc :: u32
  csrc :: "u32 list"
  extension_profile :: u16
  extensions :: "rtp_extension list"

definition rtp_header_default :: rtp_header where
  "rtp_header_default = \<lparr>version = 0, padding = False, extension = False, marker = False,
     payload_type = 0, sequence_number = 0, timestamp = 0, ssrc = 0, csrc = [],
     extension_profile = 0, extensions = []\<rparr>"

definition get_extension_payload_len :: "rtp_header \<Rightarrow> nat" where
  "get_extension_payload_len h =
     (let payload_len = sum_list (map (\<lambda>e. length (ext_payload e)) (extensions h));
          profile_len = length (extensions h) *
            (if extension_profile h = EXTENSION_PROFILE_ONE_BYTE then 1
             else if extension_profile h = EXTENSION_PROFILE_TWO_BYTE then 2 else 0)
      in payload_len + profile_len)"

section \<open>Decoding\<close>

text \<open>
  The two loops over the extension block, with the offset \<open>curr_offset\<close> the code counts and the
  \<open>stop\<close> it compares it with. The bytes are taken from the whole packet: neither loop checks that an
  element ends before \<open>stop\<close>.
\<close>

function one_byte_extensions :: "nat \<Rightarrow> nat \<Rightarrow> bytes \<Rightarrow> (rtp_extension list \<times> bytes) result" where
  "one_byte_extensions curr_offset stop raw =
     (if curr_offset < stop then
        rbind (get_u8 raw) (\<lambda>(b, raw).
          if b = 0 then one_byte_extensions (curr_offset + 1) stop raw
          else let extid = drop_bit 4 b; len = unat ((b AND (0xFF XOR 0xF0)) + 1) in
            if extid = EXTENSION_ID_RESERVED then Inr ([], raw)
            else rbind (copy_to_bytes len raw) (\<lambda>(p, raw).
              rbind (one_byte_extensions (curr_offset + 1 + len) stop raw) (\<lambda>(es, raw).
                Inr (\<lparr>ext_id = extid, ext_payload = p\<rparr> # es, raw))))
      else Inr ([], raw))"
  by pat_completeness auto

termination one_byte_extensions
  by (relation "measure (\<lambda>(curr_offset, stop, raw). stop - curr_offset)") auto

function two_byte_extensions :: "nat \<Rightarrow> nat \<Rightarrow> bytes \<Rightarrow> (rtp_extension list \<times> bytes) result" where
  "two_byte_extensions curr_offset stop raw =
     (if curr_offset < stop then
        rbind (get_u8 raw) (\<lambda>(b, raw).
          if b = 0 then two_byte_extensions (curr_offset + 1) stop raw
          else rbind (get_u8 raw) (\<lambda>(l, raw).
            let len = unat l in
            rbind (copy_to_bytes len raw) (\<lambda>(p, raw).
              rbind (two_byte_extensions (curr_offset + 2 + len) stop raw) (\<lambda>(es, raw).
                Inr (\<lparr>ext_id = b, ext_payload = p\<rparr> # es, raw)))))
      else Inr ([], raw))"
  by pat_completeness auto

termination two_byte_extensions
  by (relation "measure (\<lambda>(curr_offset, stop, raw). stop - curr_offset)") auto

declare one_byte_extensions.simps [simp del] two_byte_extensions.simps [simp del]

definition rtp_extensions_unmarshal ::
    "nat \<Rightarrow> nat \<Rightarrow> bytes \<Rightarrow> ((u16 \<times> rtp_extension list) \<times> bytes) result" where
  "rtp_extensions_unmarshal raw_packet_len curr_offset raw =
     (if raw_packet_len < curr_offset + 4 then Inl (Err ''ErrHeaderSizeInsufficientForExtension'')
      else rbind (get_u16 raw) (\<lambda>(profile, raw).
        rbind (get_u16 raw) (\<lambda>(l, raw).
          let curr_offset = curr_offset + 4; extension_length = unat l * 4 in
          if raw_packet_len < curr_offset + extension_length
          then Inl (Err ''ErrHeaderSizeInsufficientForExtension'')
          else rbind
            (if profile = EXTENSION_PROFILE_ONE_BYTE
             then one_byte_extensions curr_offset (curr_offset + extension_length) raw
             else if profile = EXTENSION_PROFILE_TWO_BYTE
             then two_byte_extensions curr_offset (curr_offset + extension_length) raw
             else rbind (copy_to_bytes extension_length raw) (\<lambda>(p, raw).
               Inr ([\<lparr>ext_id = 0, ext_payload = p\<rparr>], raw)))
            (\<lambda>(es, raw). Inr ((profile, es), raw)))))"

definition rtp_header_unmarshal :: "bytes \<Rightarrow> (rtp_header \<times> bytes) result" where
  "rtp_header_unmarshal raw =
     (let raw_packet_len = length raw in
      if raw_packet_len < HEADER_LENGTH then Inl (Err ''ErrHeaderSizeInsufficient'')
      else rbind (get_u8 raw) (\<lambda>(b0, raw).
        let cc = unat (b0 AND CC_MASK); curr_offset = CSRC_OFFSET + cc * CSRC_LENGTH in
        if raw_packet_len < curr_offset then Inl (Err ''ErrHeaderSizeInsufficient'')
        else rbind (get_u8 raw) (\<lambda>(b1, raw).
          rbind (get_u16 raw) (\<lambda>(sn, raw).
          rbind (get_u32 raw) (\<lambda>(ts, raw).
          rbind (get_u32 raw) (\<lambda>(ss, raw).
          rbind (get_many get_u32 cc raw) (\<lambda>(cs, raw).
          rbind (if drop_bit EXTENSION_SHIFT b0 AND EXTENSION_MASK > 0
                 then rtp_extensions_unmarshal raw_packet_len curr_offset raw
                 else Inr ((0, []), raw)) (\<lambda>((profile, es), raw).
          Inr (\<lparr>version = drop_bit VERSION_SHIFT b0 AND VERSION_MASK,
                padding = drop_bit PADDING_SHIFT b0 AND PADDING_MASK > 0,
                extension = drop_bit EXTENSION_SHIFT b0 AND EXTENSION_MASK > 0,
                marker = drop_bit MARKER_SHIFT b1 AND MARKER_MASK > 0,
                payload_type = b1 AND PT_MASK,
                sequence_number = sn, timestamp = ts, ssrc = ss, csrc = cs,
                extension_profile = profile, extensions = es\<rparr>, raw)))))))))"

section \<open>Encoding\<close>

definition rtp_header_marshal_size :: "rtp_header \<Rightarrow> nat" where
  "rtp_header_marshal_size h =
     (let head_size = 12 + length (csrc h) * CSRC_LENGTH in
      if extension h
      then head_size + (4 + (get_extension_payload_len h + 3) div 4 * 4)
      else head_size)"

definition put_extension :: "u16 \<Rightarrow> rtp_extension \<Rightarrow> bytes" where
  "put_extension profile e =
     (if profile = EXTENSION_PROFILE_ONE_BYTE
      then put_u8 (push_bit 4 (ext_id e) OR (of_nat (length (ext_payload e)) - 1)) @ ext_payload e
      else put_u8 (ext_id e) @ put_u8 (of_nat (length (ext_payload e))) @ ext_payload e)"

text \<open>
  The extension block. The number of words written is computed in 16 bits:
  \<^verbatim>\<open>(extension_payload_len as u16 + 3) / 4\<close>.
\<close>

definition rtp_extensions_marshal :: "rtp_header \<Rightarrow> bytes result" where
  "rtp_extensions_marshal h =
     (let profile = extension_profile h; len = get_extension_payload_len h in
      if profile \<noteq> EXTENSION_PROFILE_ONE_BYTE \<and> profile \<noteq> EXTENSION_PROFILE_TWO_BYTE \<and> len mod 4 \<noteq> 0
      then Inl (Err ''HeaderExtensionPayloadNot32BitWords'')
      else let size = (of_nat len + 3 :: u16) div 4 in
        rbind
          (if profile = EXTENSION_PROFILE_ONE_BYTE \<or> profile = EXTENSION_PROFILE_TWO_BYTE
           then Inr (concat (map (put_extension profile) (extensions h)))
           else if length (extensions h) \<noteq> 1 then Inl (Err ''ErrRfc3550headerIdrange'')
           else if length (ext_payload (hd (extensions h))) mod 4 \<noteq> 0
           then Inl (Err ''HeaderExtensionPayloadNot32BitWords'')
           else Inr (ext_payload (hd (extensions h))))
          (\<lambda>body. Inr (put_u16 profile @ put_u16 size @ body @ replicate (unat size * 4 - len) 0)))"

text \<open>
  \<^verbatim>\<open>marshal_to\<close> on a buffer of \<open>n\<close> bytes; the result is what was written, whose length is the
  \<^verbatim>\<open>usize\<close> the code returns. A cursor that ran past the buffer would panic.
\<close>

definition rtp_header_marshal_to :: "nat \<Rightarrow> rtp_header \<Rightarrow> bytes result" where
  "rtp_header_marshal_to n h =
     (if n < rtp_header_marshal_size h then Inl (Err ''ErrBufferTooSmall'')
      else
        let b0 = push_bit VERSION_SHIFT (version h) OR of_nat (length (csrc h));
            b0 = (if padding h then b0 OR push_bit PADDING_SHIFT 1 else b0);
            b0 = (if extension h then b0 OR push_bit EXTENSION_SHIFT 1 else b0);
            b1 = (if marker h then payload_type h OR push_bit MARKER_SHIFT 1 else payload_type h)
        in rbind (if extension h then rtp_extensions_marshal h else Inr []) (\<lambda>ext.
          let out = put_u8 b0 @ put_u8 b1 @ put_u16 (sequence_number h) @ put_u32 (timestamp h)
                @ put_u32 (ssrc h) @ concat (map put_u32 (csrc h)) @ ext
          in if length out \<le> n then Inr out else Inl Panic))"

text \<open>\<^verbatim>\<open>Marshal::marshal\<close>, the method all the encoders share: a buffer of exactly
  \<^verbatim>\<open>marshal_size\<close> bytes, which \<^verbatim>\<open>marshal_to\<close> must fill.\<close>

definition marshal_with :: "nat \<Rightarrow> (nat \<Rightarrow> bytes result) \<Rightarrow> bytes result" where
  "marshal_with l marshal_to =
     rbind (marshal_to l) (\<lambda>buf. if length buf \<noteq> l then Inl (Err ''Other'') else Inr buf)"

definition rtp_header_marshal :: "rtp_header \<Rightarrow> bytes result" where
  "rtp_header_marshal h = marshal_with (rtp_header_marshal_size h) (\<lambda>n. rtp_header_marshal_to n h)"

section \<open>The extension interface\<close>

text \<open>\<^verbatim>\<open>Iterator::position\<close>.\<close>

fun position :: "('a \<Rightarrow> bool) \<Rightarrow> 'a list \<Rightarrow> nat option" where
  "position P [] = None"
| "position P (x # xs) = (if P x then Some 0 else map_option Suc (position P xs))"

definition set_extension :: "u8 \<Rightarrow> bytes \<Rightarrow> rtp_header \<Rightarrow> rtp_header result" where
  "set_extension eid p h =
     (if extension h then
        if extension_profile h = EXTENSION_PROFILE_ONE_BYTE \<and> \<not> (1 \<le> eid \<and> eid \<le> 14)
        then Inl (Err ''ErrRfc8285oneByteHeaderIdrange'')
        else if extension_profile h = EXTENSION_PROFILE_ONE_BYTE \<and> length p > 16
        then Inl (Err ''ErrRfc8285oneByteHeaderSize'')
        else if extension_profile h = EXTENSION_PROFILE_TWO_BYTE \<and> eid < 1
        then Inl (Err ''ErrRfc8285twoByteHeaderIdrange'')
        else if extension_profile h = EXTENSION_PROFILE_TWO_BYTE \<and> length p > 255
        then Inl (Err ''ErrRfc8285twoByteHeaderSize'')
        else if extension_profile h \<noteq> EXTENSION_PROFILE_ONE_BYTE
          \<and> extension_profile h \<noteq> EXTENSION_PROFILE_TWO_BYTE \<and> eid \<noteq> 0
        then Inl (Err ''ErrRfc3550headerIdrange'')
        else (case position (\<lambda>e. ext_id e = eid) (extensions h) of
            Some i \<Rightarrow> Inr (h\<lparr>extensions := (extensions h)[i := (extensions h ! i)\<lparr>ext_payload := p\<rparr>]\<rparr>)
          | None \<Rightarrow> Inr (h\<lparr>extensions := extensions h @ [\<lparr>ext_id = eid, ext_payload = p\<rparr>]\<rparr>))
      else Inr (h\<lparr>extension := True,
        extension_profile := (if length p \<le> 16 then EXTENSION_PROFILE_ONE_BYTE
          else if length p \<le> 255 then EXTENSION_PROFILE_TWO_BYTE else extension_profile h),
        extensions := extensions h @ [\<lparr>ext_id = eid, ext_payload = p\<rparr>]\<rparr>))"

definition get_extension_ids :: "rtp_header \<Rightarrow> u8 list" where
  "get_extension_ids h = (if extension h then map ext_id (extensions h) else [])"

definition get_extension :: "u8 \<Rightarrow> rtp_header \<Rightarrow> bytes option" where
  "get_extension eid h =
     (if extension h then map_option ext_payload (find (\<lambda>e. ext_id e = eid) (extensions h)) else None)"

definition del_extension :: "u8 \<Rightarrow> rtp_header \<Rightarrow> rtp_header result" where
  "del_extension eid h =
     (if extension h then
        (case position (\<lambda>e. ext_id e = eid) (extensions h) of
           Some i \<Rightarrow> Inr (h\<lparr>extensions := take i (extensions h) @ drop (Suc i) (extensions h)\<rparr>)
         | None \<Rightarrow> Inl (Err ''ErrHeaderExtensionNotFound''))
      else Inl (Err ''ErrHeaderExtensionsNotEnabled''))"

section \<open>Round trip\<close>

definition rtp_extension_ok :: "u16 \<Rightarrow> rtp_extension \<Rightarrow> bool" where
  "rtp_extension_ok profile e \<longleftrightarrow>
     (if profile = EXTENSION_PROFILE_ONE_BYTE
      then 1 \<le> ext_id e \<and> ext_id e \<le> 14 \<and> 1 \<le> length (ext_payload e) \<and> length (ext_payload e) \<le> 16
      else 1 \<le> ext_id e \<and> length (ext_payload e) \<le> 255)"

definition rtp_header_ok :: "rtp_header \<Rightarrow> bool" where
  "rtp_header_ok h \<longleftrightarrow>
     version h < 4 \<and> payload_type h < 128 \<and> length (csrc h) \<le> 15 \<and>
     (if extension h
      then get_extension_payload_len h \<le> 65532 \<and>
        (if extension_profile h = EXTENSION_PROFILE_ONE_BYTE \<or> extension_profile h = EXTENSION_PROFILE_TWO_BYTE
         then list_all (rtp_extension_ok (extension_profile h)) (extensions h)
         else length (extensions h) = 1 \<and> ext_id (hd (extensions h)) = 0
           \<and> length (ext_payload (hd (extensions h))) mod 4 = 0)
      else extension_profile h = 0 \<and> extensions h = [])"

lemma take_bit_small: "unat (w :: 'a::len word) < 2 ^ k \<Longrightarrow> take_bit k w = w"
  by (simp add: word_unat_eq_iff unsigned_take_bit_eq take_bit_nat_eq_self)

lemma bit_smallD: "unat (w :: 'a::len word) < 2 ^ k \<Longrightarrow> bit w n \<Longrightarrow> n < k"
  by (metis take_bit_small bit_take_bit_iff)

lemma join_bits:
  fixes i w :: "'a::len word"
  assumes "unat w < 2 ^ k" "unat i < 2 ^ (LENGTH('a) - k)" "k < LENGTH('a)"
  shows "drop_bit k (push_bit k i OR w) = i" "(push_bit k i OR w) AND mask k = w"
    "take_bit k (push_bit k i OR w) = w"
proof -
  show "drop_bit k (push_bit k i OR w) = i"
    by (rule bit_word_eqI) (use assms(3) in
      \<open>auto simp: bit_simps dest: bit_smallD [OF assms(1)] bit_smallD [OF assms(2)]\<close>)
  show "take_bit k (push_bit k i OR w) = w"
    by (rule bit_word_eqI) (auto simp: bit_simps dest: bit_smallD [OF assms(1)])
  then show "(push_bit k i OR w) AND mask k = w"
    by (simp add: take_bit_eq_mask)
qed

lemma one_byte_padding: "one_byte_extensions c (c + k) (replicate k 0 @ raw) = Inr ([], raw)"
proof (induction k arbitrary: c)
  case (Suc k)
  show ?case using Suc [of "Suc c"] by (subst one_byte_extensions.simps) simp
qed (subst one_byte_extensions.simps, simp)

lemma two_byte_padding: "two_byte_extensions c (c + k) (replicate k 0 @ raw) = Inr ([], raw)"
proof (induction k arbitrary: c)
  case (Suc k)
  show ?case using Suc [of "Suc c"] by (subst two_byte_extensions.simps) simp
qed (subst two_byte_extensions.simps, simp)

lemma one_byte_head:
  assumes "1 \<le> i" "i \<le> 14" "1 \<le> n" "n \<le> 16"
  defines "b \<equiv> push_bit 4 i OR (of_nat n - 1) :: u8"
  shows "b \<noteq> 0" "drop_bit 4 b = i" "unat ((b AND 15) + 1) = n" "i \<noteq> 15"
proof -
  have n: "unat (of_nat n - 1 :: u8) = n - 1"
  proof -
    have "(of_nat n - 1 :: u8) = of_nat (n - 1)" using assms by (simp add: of_nat_diff)
    then show ?thesis
      using assms(3,4) by (simp only: unat_of_nat) simp
  qed
  have w: "unat (of_nat n - 1 :: u8) < 2 ^ 4" and i: "unat i < 2 ^ (LENGTH(8) - 4)"
    using assms n by (auto simp: word_le_nat_alt)
  show d: "drop_bit 4 b = i"
    unfolding b_def by (rule join_bits [OF w i]) simp
  have "b AND mask 4 = of_nat n - 1"
    unfolding b_def by (rule join_bits [OF w i]) simp
  then have "(b AND 15) + 1 = of_nat n"
    by (simp add: mask_eq_exp_minus_1)
  then show "unat ((b AND 15) + 1) = n"
    using assms by (simp add: unat_of_nat take_bit_nat_eq_self)
  show "i \<noteq> 15" using assms by auto
  show "b \<noteq> 0" using d assms(1) by (metis drop_bit_of_0 word_gt_0 linorder_not_le word_less_1)
qed

lemma length_put_extension:
  "length (put_extension profile e) =
     length (ext_payload e) + (if profile = EXTENSION_PROFILE_ONE_BYTE then 1 else 2)"
  by (simp add: put_extension_def)

lemma length_put_extensions:
  "extension_profile h = EXTENSION_PROFILE_ONE_BYTE \<or> extension_profile h = EXTENSION_PROFILE_TWO_BYTE \<Longrightarrow>
     length (concat (map (put_extension (extension_profile h)) (extensions h))) = get_extension_payload_len h"
proof -
  assume p: "extension_profile h = EXTENSION_PROFILE_ONE_BYTE \<or> extension_profile h = EXTENSION_PROFILE_TWO_BYTE"
  have "length (concat (map (put_extension pr) es)) =
      sum_list (map (\<lambda>e. length (ext_payload e)) es)
      + length es * (if pr = EXTENSION_PROFILE_ONE_BYTE then 1 else 2)" for pr es
    by (induction es) (simp_all add: length_put_extension)
  then show ?thesis
    using p by (auto simp: get_extension_payload_len_def rtp_profiles)
qed

lemma one_byte_put:
  assumes "list_all (rtp_extension_ok EXTENSION_PROFILE_ONE_BYTE) es"
  shows "one_byte_extensions c
      (c + length (concat (map (put_extension EXTENSION_PROFILE_ONE_BYTE) es)) + k)
      (concat (map (put_extension EXTENSION_PROFILE_ONE_BYTE) es) @ replicate k 0 @ raw) = Inr (es, raw)"
  using assms
proof (induction es arbitrary: c)
  case (Cons e es)
  let ?n = "length (ext_payload e)"
  let ?b = "push_bit 4 (ext_id e) OR (of_nat ?n - 1) :: u8"
  have ok: "1 \<le> ext_id e" "ext_id e \<le> 14" "1 \<le> ?n" "?n \<le> 16"
    using Cons.prems by (auto simp: rtp_extension_ok_def)
  note b = one_byte_head [OF ok]
  have IH: "one_byte_extensions (c + 1 + ?n)
      (c + 1 + ?n + length (concat (map (put_extension EXTENSION_PROFILE_ONE_BYTE) es)) + k)
      (concat (map (put_extension EXTENSION_PROFILE_ONE_BYTE) es) @ replicate k 0 @ raw) = Inr (es, raw)"
    using Cons.prems by (intro Cons.IH) simp
  have p: "put_extension EXTENSION_PROFILE_ONE_BYTE e = put_u8 ?b @ ext_payload e"
    by (simp add: put_extension_def)
  show ?case
    using b IH
    by (subst one_byte_extensions.simps)
       (simp add: p copy_to_bytes_def Let_def EXTENSION_ID_RESERVED_def ac_simps)
qed (simp add: one_byte_padding)

lemma two_byte_put:
  assumes "list_all (rtp_extension_ok EXTENSION_PROFILE_TWO_BYTE) es"
  shows "two_byte_extensions c
      (c + length (concat (map (put_extension EXTENSION_PROFILE_TWO_BYTE) es)) + k)
      (concat (map (put_extension EXTENSION_PROFILE_TWO_BYTE) es) @ replicate k 0 @ raw) = Inr (es, raw)"
  using assms
proof (induction es arbitrary: c)
  case (Cons e es)
  let ?n = "length (ext_payload e)"
  have ok: "ext_id e \<noteq> 0" "?n \<le> 255"
    using Cons.prems by (auto simp: rtp_extension_ok_def rtp_profiles word_le_nat_alt)
  have n: "unat (of_nat ?n :: u8) = ?n"
    using ok by (simp add: unat_of_nat)
  have IH: "two_byte_extensions (c + 2 + ?n)
      (c + 2 + ?n + length (concat (map (put_extension EXTENSION_PROFILE_TWO_BYTE) es)) + k)
      (concat (map (put_extension EXTENSION_PROFILE_TWO_BYTE) es) @ replicate k 0 @ raw) = Inr (es, raw)"
    using Cons.prems by (intro Cons.IH) simp
  have p: "put_extension EXTENSION_PROFILE_TWO_BYTE e =
      put_u8 (ext_id e) @ put_u8 (of_nat ?n) @ ext_payload e"
    by (simp add: put_extension_def rtp_profiles)
  show ?case
    using ok n IH
    by (subst two_byte_extensions.simps)
       (simp add: p copy_to_bytes_def Let_def ac_simps)
qed (simp add: two_byte_padding)

text \<open>The two packed bytes at the front.\<close>

lemma bit_flags: "bit (16 :: int) n \<longleftrightarrow> n = 4" "bit (32 :: int) n \<longleftrightarrow> n = 5" "bit (128 :: int) n \<longleftrightarrow> n = 7"
  using bit_exp_iff [of 4 n, where ?'a = int] bit_exp_iff [of 5 n, where ?'a = int]
    bit_exp_iff [of 7 n, where ?'a = int]
  by auto

lemma bit_0_pos: "0 < (w AND 1 :: u8) \<longleftrightarrow> bit w 0"
  by (simp add: and_one_eq word_gt_0 odd_iff_mod_2_eq_one bit_0 mod2_eq_if)

lemma rtp_b0:
  fixes v c :: u8 and p x :: bool
  assumes "v < 4" "c \<le> 15"
  defines "b0 \<equiv> (push_bit 6 v OR c) OR (if p then push_bit 5 1 else 0) OR (if x then push_bit 4 1 else 0)"
  shows "drop_bit 6 b0 AND 3 = v" "b0 AND 15 = c"
    "0 < (drop_bit 5 b0 AND 1) \<longleftrightarrow> p" "0 < (drop_bit 4 b0 AND 1) \<longleftrightarrow> x"
proof -
  have v: "unat v < 2 ^ 2" and c: "unat c < 2 ^ 4"
    using assms by (auto simp: word_less_nat_alt word_le_nat_alt)
  note d = bit_smallD [OF v] bit_smallD [OF c]
  have b: "bit b0 n \<longleftrightarrow> n < 8 \<and> (6 \<le> n \<and> bit v (n - 6) \<or> bit c n \<or> n = 5 \<and> p \<or> n = 4 \<and> x)" for n
    unfolding b0_def using d(2) [of n] by (auto simp: bit_simps bit_flags)
  show "drop_bit 6 b0 AND 3 = v"
  proof -
    have "drop_bit 6 b0 AND mask 2 = v"
      by (rule bit_word_eqI) (auto simp: b bit_simps dest: d)
    then show ?thesis by (simp add: mask_eq_exp_minus_1)
  qed
  show "b0 AND 15 = c"
  proof -
    have "b0 AND mask 4 = c"
      by (rule bit_word_eqI) (auto simp: b bit_simps dest: d)
    then show ?thesis by (simp add: mask_eq_exp_minus_1)
  qed
  show "0 < (drop_bit 5 b0 AND 1) \<longleftrightarrow> p" "0 < (drop_bit 4 b0 AND 1) \<longleftrightarrow> x"
    using d(2) [of 5] d(2) [of 4] by (auto simp: bit_0_pos bit_drop_bit_eq b)
qed

lemma rtp_b1:
  fixes pt :: u8 and m :: bool
  assumes "pt < 128"
  defines "b1 \<equiv> pt OR (if m then push_bit 7 1 else 0)"
  shows "b1 AND 127 = pt" "0 < (drop_bit 7 b1 AND 1) \<longleftrightarrow> m"
proof -
  have v: "unat pt < 2 ^ 7"
    using assms by (auto simp: word_less_nat_alt)
  note d = bit_smallD [OF v]
  have "b1 AND mask 7 = pt"
    unfolding b1_def by (rule bit_word_eqI) (use d in \<open>auto simp: bit_simps bit_flags\<close>)
  then show "b1 AND 127 = pt" by (simp add: mask_eq_exp_minus_1)
  show "0 < (drop_bit 7 b1 AND 1) \<longleftrightarrow> m"
    unfolding b1_def using d by (auto simp: bit_0_pos bit_simps bit_flags)
qed

lemma extension_words:
  assumes "len \<le> 65532"
  shows "unat ((of_nat len + 3 :: u16) div 4) = (len + 3) div 4"
proof -
  have "unat (of_nat len + 3 :: u16) = len + 3"
    using assms unat_of_nat16 [of "len + 3"] by simp
  then show ?thesis by (simp add: unat_div_distrib)
qed

lemma rtp_extensions_round_trip:
  assumes ok: "rtp_header_ok h" and x: "extension h"
  shows "\<exists>ext. rtp_extensions_marshal h = Inr ext \<and>
    length ext = 4 + (get_extension_payload_len h + 3) div 4 * 4 \<and>
    (\<forall>off rest. rtp_extensions_unmarshal (off + length ext + length rest) off (ext @ rest) =
      Inr ((extension_profile h, extensions h), rest))"
proof -
  let ?len = "get_extension_payload_len h" and ?p = "extension_profile h"
  let ?size = "(of_nat ?len + 3 :: u16) div 4"
  define k where "k = (?len + 3) div 4 * 4 - ?len"
  have len: "?len \<le> 65532"
    using ok x by (simp add: rtp_header_ok_def)
  note size = extension_words [OF len]
  have k: "(?len + 3) div 4 * 4 = ?len + k"
    unfolding k_def by presburger
  show ?thesis
  proof (cases "?p = EXTENSION_PROFILE_ONE_BYTE \<or> ?p = EXTENSION_PROFILE_TWO_BYTE")
    case True
    let ?body = "concat (map (put_extension ?p) (extensions h))"
    have all: "list_all (rtp_extension_ok ?p) (extensions h)"
      using ok x True by (simp add: rtp_header_ok_def)
    have b: "length ?body = ?len"
      by (rule length_put_extensions [OF True])
    have m: "rtp_extensions_marshal h = Inr (put_u16 ?p @ put_u16 ?size @ ?body @ replicate k 0)"
      using True by (simp only: rtp_extensions_marshal_def Let_def size k) auto
    have u1: "one_byte_extensions off (off + (?len + k)) (?body @ replicate k 0 @ rest) = Inr (extensions h, rest)"
      if "?p = EXTENSION_PROFILE_ONE_BYTE" for off rest
      using one_byte_put [OF all [unfolded that], of off k rest] b that by (simp add: add.assoc)
    have u2: "two_byte_extensions off (off + (?len + k)) (?body @ replicate k 0 @ rest) = Inr (extensions h, rest)"
      if "?p = EXTENSION_PROFILE_TWO_BYTE" for off rest
      using two_byte_put [OF all [unfolded that], of off k rest] b that by (simp add: add.assoc)
    have "rtp_extensions_unmarshal (Suc (Suc (Suc (Suc (off + (?len + k) + length rest))))) off
        (put_u16 ?p @ put_u16 ?size @ ?body @ replicate k 0 @ rest) = Inr ((?p, extensions h), rest)" for off rest
      using True u1 [of "off + 4" rest] u2 [of "off + 4" rest]
      by (auto simp: rtp_extensions_unmarshal_def size Let_def k)
    then show ?thesis
      using b by (simp add: m k)
  next
    case False
    then obtain e where "extensions h = [e]" "ext_id e = 0" "length (ext_payload e) mod 4 = 0"
      using ok x by (cases "extensions h") (auto simp: rtp_header_ok_def)
    then obtain p where e: "extensions h = [\<lparr>ext_id = 0, ext_payload = p\<rparr>]" "length p mod 4 = 0"
      by (cases e) auto
    have l: "?len = length p"
      using False e by (auto simp: get_extension_payload_len_def)
    have d: "(length p + 3) div 4 * 4 = length p"
      using e(2) by presburger
    have z: "unat ?size * 4 = length p"
      using size d by (simp only: l)
    have m: "rtp_extensions_marshal h = Inr (put_u16 ?p @ put_u16 ?size @ p)"
      using False e by (simp add: rtp_extensions_marshal_def Let_def z [unfolded l] l)
    have "rtp_extensions_unmarshal (Suc (Suc (Suc (Suc (off + length p + length rest))))) off
        (put_u16 ?p @ put_u16 ?size @ p @ rest) = Inr ((?p, extensions h), rest)" for off rest
      using False e(1) by (simp add: rtp_extensions_unmarshal_def Let_def copy_to_bytes_def z)
    then show ?thesis
      by (simp add: m l d)
  qed
qed

lemma rtp_header_marshal_parts:
  assumes ok: "rtp_header_ok h"
  shows "\<exists>bs. rtp_header_marshal h = Inr bs \<and> length bs = rtp_header_marshal_size h \<and>
    (\<forall>rest. rtp_header_unmarshal (bs @ rest) = Inr (h, rest))"
proof -
  define c where "c = (of_nat (length (csrc h)) :: u8)"
  define b0 where "b0 = (push_bit 6 (version h) OR c) OR (if padding h then push_bit 5 1 else 0)
      OR (if extension h then push_bit 4 1 else 0)"
  define b1 where "b1 = payload_type h OR (if marker h then push_bit 7 1 else 0)"
  have w: "version h < 4" "payload_type h < 128" "length (csrc h) \<le> 15"
    using ok by (auto simp: rtp_header_ok_def)
  have c: "unat c = length (csrc h)"
    using w by (simp add: unat_of_nat c_def)
  then have c15: "c \<le> 15"
    using w by (simp add: word_le_nat_alt)
  note b = rtp_b0 [OF w(1) c15, of "padding h" "extension h", folded b0_def]
    rtp_b1 [OF w(2), of "marker h", folded b1_def]
  obtain ext where ext: "(if extension h then rtp_extensions_marshal h else Inr []) = Inr ext"
      "length ext = (if extension h then 4 + (get_extension_payload_len h + 3) div 4 * 4 else 0)"
    and uext: "\<And>l off rest. l = off + length ext + length rest \<Longrightarrow> (if extension h
        then rtp_extensions_unmarshal l off (ext @ rest)
        else Inr ((0, []), ext @ rest)) = Inr ((extension_profile h, extensions h), rest)"
  proof (cases "extension h")
    case True
    then show ?thesis using rtp_extensions_round_trip [OF ok True] that by auto
  next
    case False
    then show ?thesis using that [of "[]"] ok by (simp add: rtp_header_ok_def)
  qed
  define bs where "bs = put_u8 b0 @ put_u8 b1 @ put_u16 (sequence_number h) @ put_u32 (timestamp h)
      @ put_u32 (ssrc h) @ concat (map put_u32 (csrc h)) @ ext"
  have l: "length bs = rtp_header_marshal_size h"
    using ext(2) by (simp add: bs_def rtp_header_marshal_size_def Let_def length_concat_map [of put_u32 4] rtp_consts)
  have m: "rtp_header_marshal h = Inr bs"
    using ext(1) l unfolding bs_def b0_def b1_def c_def
    by (cases "padding h"; cases "extension h"; cases "marker h")
      (simp_all add: rtp_header_marshal_def marshal_with_def rtp_header_marshal_to_def Let_def rtp_consts or.assoc)
  have "rtp_header_unmarshal (bs @ rest) = Inr (h, rest)" for rest
    using uext [of "12 + (4 * length (csrc h) + (length ext + length rest))" "12 + length (csrc h) * 4" rest] b c
    by (cases "extension h")
      (simp_all add: bs_def rtp_header_unmarshal_def Let_def rtp_consts get_many_put length_concat_map [of put_u32 4])
  then show ?thesis using m l by blast
qed

text \<open>
  Encoding a header whose fields fit the wire format fills exactly the announced size, and
  decoding it in front of any payload gives the header back and leaves exactly the payload, with one
  byte, two byte and RFC 3550 extensions alike.
\<close>

theorem rtp_header_round_trip:
  assumes "rtp_header_ok h"
  shows "\<exists>bs. rtp_header_marshal h = Inr bs \<and> length bs = rtp_header_marshal_size h \<and>
    (\<forall>rest. rtp_header_unmarshal (bs @ rest) = Inr (h, rest))"
  using assms by (rule rtp_header_marshal_parts)

theorem rtp_header_round_trip_witness:
  "\<exists>h bs. extension h \<and> length (extensions h) = 2 \<and> rtp_header_marshal h = Inr bs \<and>
     rtp_header_unmarshal (bs @ [7, 7]) = Inr (h, [7, 7])"
proof -
  let ?h = "rtp_header_default\<lparr>version := 2, marker := True, payload_type := 96, sequence_number := 65535,
    csrc := [5], extension := True, extension_profile := EXTENSION_PROFILE_ONE_BYTE,
    extensions := [\<lparr>ext_id = 1, ext_payload = [1, 2, 3]\<rparr>, \<lparr>ext_id = 14, ext_payload = [4]\<rparr>]\<rparr>"
  have "rtp_header_ok ?h"
    by (simp add: rtp_header_ok_def rtp_header_default_def rtp_extension_ok_def get_extension_payload_len_def)
  from rtp_header_round_trip [OF this] obtain bs where
    "rtp_header_marshal ?h = Inr bs" "rtp_header_unmarshal (bs @ [7, 7]) = Inr (?h, [7, 7])"
    by blast
  then show ?thesis
    by (intro exI [of _ ?h] exI [of _ bs]) simp
qed

section \<open>Laws of the extension interface\<close>

lemma position_find: "find P xs = map_option (\<lambda>i. xs ! i) (position P xs)"
  by (induction xs) (auto simp: option.map_comp comp_def)

lemma position_SomeD: "position P xs = Some i \<Longrightarrow> i < length xs \<and> P (xs ! i)"
  by (induction xs arbitrary: i) (auto split: if_splits)

lemma position_None: "position P xs = None \<longleftrightarrow> (\<forall>x \<in> set xs. \<not> P x)"
  by (induction xs) auto

lemma find_upd_same:
  "position (\<lambda>e. ext_id e = a) es = Some i \<Longrightarrow>
     find (\<lambda>e. ext_id e = a) (es[i := (es ! i)\<lparr>ext_payload := p\<rparr>]) = Some ((es ! i)\<lparr>ext_payload := p\<rparr>)"
  by (induction es arbitrary: i) (auto split: if_splits)

lemma find_upd_other:
  "b \<noteq> a \<Longrightarrow> position (\<lambda>e. ext_id e = a) es = Some i \<Longrightarrow>
     find (\<lambda>e. ext_id e = b) (es[i := (es ! i)\<lparr>ext_payload := p\<rparr>]) = find (\<lambda>e. ext_id e = b) es"
  by (induction es arbitrary: i) (auto split: if_splits)

lemma find_append: "find P (xs @ ys) = (case find P xs of Some x \<Rightarrow> Some x | None \<Rightarrow> find P ys)"
  by (induction xs) auto

lemma find_del_other:
  "b \<noteq> a \<Longrightarrow> position (\<lambda>e. ext_id e = a) es = Some i \<Longrightarrow>
     find (\<lambda>e. ext_id e = b) (take i es @ drop (Suc i) es) = find (\<lambda>e. ext_id e = b) es"
  by (induction es arbitrary: i) (auto split: if_splits)

lemma find_del_same:
  "distinct (map ext_id es) \<Longrightarrow> position (\<lambda>e. ext_id e = a) es = Some i \<Longrightarrow>
     find (\<lambda>e. ext_id e = a) (take i es @ drop (Suc i) es) = None"
  by (induction es arbitrary: i) (auto simp: find_None_iff image_iff split: if_splits)

text \<open>The header as a finite map from identifiers to payloads.\<close>

lemma one_le_word: "(1 :: 'a::len word) \<le> a \<longleftrightarrow> a \<noteq> 0"
  by (metis linorder_not_less word_less_1)

lemma set_extension_cases:
  assumes "set_extension a p h = Inr h'"
  obtains (upd) i where "extension h" "position (\<lambda>e. ext_id e = a) (extensions h) = Some i"
      "h' = h\<lparr>extensions := (extensions h)[i := (extensions h ! i)\<lparr>ext_payload := p\<rparr>]\<rparr>"
    | (add) "extension h" "position (\<lambda>e. ext_id e = a) (extensions h) = None"
      "h' = h\<lparr>extensions := extensions h @ [\<lparr>ext_id = a, ext_payload = p\<rparr>]\<rparr>"
    | (first) "\<not> extension h" "extension h'" "extensions h' = extensions h @ [\<lparr>ext_id = a, ext_payload = p\<rparr>]"
proof (cases "extension h")
  case True
  then have r: "(case position (\<lambda>e. ext_id e = a) (extensions h) of
      Some i \<Rightarrow> Inr (h\<lparr>extensions := (extensions h)[i := (extensions h ! i)\<lparr>ext_payload := p\<rparr>]\<rparr>)
    | None \<Rightarrow> Inr (h\<lparr>extensions := extensions h @ [\<lparr>ext_id = a, ext_payload = p\<rparr>]\<rparr>)) = (Inr h' :: rtp_header result)"
    using assms by (simp add: set_extension_def split: if_splits)
  show thesis
  proof (cases "position (\<lambda>e. ext_id e = a) (extensions h)")
    case None
    with r True show thesis by (intro add) auto
  next
    case (Some i)
    with r True show thesis by (intro upd [of i]) auto
  qed
next
  case False
  with assms show thesis by (intro first) (auto simp: set_extension_def)
qed

lemma get_set_extension:
  assumes s: "set_extension a p h = Inr h'" and x: "extension h \<or> extensions h = []"
  shows "get_extension b h' = (if b = a then Some p else get_extension b h)"
  using s
proof (cases rule: set_extension_cases)
  case (upd i)
  then show ?thesis
    by (cases "b = a") (simp_all add: get_extension_def find_upd_same find_upd_other)
next
  case add
  then have "find (\<lambda>e. ext_id e = a) (extensions h) = None"
    by (simp add: position_find)
  with add show ?thesis
    by (cases "b = a") (auto simp: get_extension_def find_append split: option.split)
next
  case first
  with x show ?thesis by (simp add: get_extension_def)
qed

lemma get_del_extension:
  assumes "del_extension a h = Inr h'" "distinct (get_extension_ids h)"
  shows "get_extension b h' = (if b = a then None else get_extension b h)"
proof -
  have x: "extension h"
    using assms(1) by (cases "extension h") (simp_all add: del_extension_def)
  then obtain i where i: "position (\<lambda>e. ext_id e = a) (extensions h) = Some i"
    and h': "h' = h\<lparr>extensions := take i (extensions h) @ drop (Suc i) (extensions h)\<rparr>"
    using assms(1) by (auto simp: del_extension_def split: option.splits)
  have "distinct (map ext_id (extensions h))"
    using assms(2) x by (simp add: get_extension_ids_def)
  with i h' x show ?thesis
    by (cases "b = a") (simp_all add: get_extension_def find_del_same find_del_other)
qed

lemma map_ext_id_upd: "map ext_id (es[i := (es ! i)\<lparr>ext_payload := p\<rparr>]) = map ext_id es"
  by (cases "i < length es") (simp_all add: map_update list_update_same_conv list_update_beyond)

lemma set_extension_distinct:
  assumes "set_extension a p h = Inr h'" "extension h \<or> extensions h = []" "distinct (get_extension_ids h)"
  shows "distinct (get_extension_ids h')"
  using assms(1)
proof (cases rule: set_extension_cases)
  case upd
  with assms(3) show ?thesis by (simp add: get_extension_ids_def map_ext_id_upd)
next
  case add
  with assms(3) show ?thesis by (auto simp: get_extension_ids_def position_None)
next
  case first
  with assms(2) show ?thesis by (simp add: get_extension_ids_def)
qed

lemma list_all_update: "list_all P xs \<Longrightarrow> P y \<Longrightarrow> list_all P (xs[i := y])"
  by (induction xs arbitrary: i) (auto split: nat.split)

text \<open>Which extension keeps the header encodable: with a header extension already there, every one
  \<^verbatim>\<open>set_extension\<close> lets through, except an empty one in the one byte form.\<close>

lemma set_extension_ok:
  assumes ok: "rtp_header_ok h" and x: "extension h" and s: "set_extension a p h = Inr h'"
    and p: "extension_profile h = EXTENSION_PROFILE_ONE_BYTE \<and> p \<noteq> [] \<or> extension_profile h = EXTENSION_PROFILE_TWO_BYTE"
    and len: "get_extension_payload_len h' \<le> 65532"
  shows "rtp_header_ok h'"
proof -
  have "rtp_extension_ok (extension_profile h) \<lparr>ext_id = a, ext_payload = p\<rparr>"
    using s x p one_le_word [of a]
    by (simp add: set_extension_def rtp_extension_ok_def rtp_profiles Suc_le_eq linorder_not_less
        split: if_splits) fastforce
  then have e: "rtp_extension_ok (extension_profile h) e" if "ext_id e = a" "ext_payload e = p" for e
    using that by (auto simp: rtp_extension_ok_def)
  from s show ?thesis
  proof (cases rule: set_extension_cases)
    case (upd i)
    have "rtp_extension_ok (extension_profile h) ((extensions h ! i)\<lparr>ext_payload := p\<rparr>)"
      using position_SomeD [OF upd(2)] by (intro e) auto
    then show ?thesis
      using ok x p len unfolding upd(3) by (auto simp: rtp_header_ok_def intro: list_all_update)
  next
    case add
    then show ?thesis
      using ok x p len e by (auto simp: rtp_header_ok_def)
  qed (use x in simp)
qed

end
