(* ===== verification/Rtp_Packet.thy ===== *)
theory Rtp_Packet
  imports Rtp_Header
begin

unbundle bit_operations_syntax

text \<open>
  RTP packets (\<^verbatim>\<open>rtc-rtp/src/packet/mod.rs\<close>), the sequence number generator
  (\<^verbatim>\<open>sequence.rs\<close>) and the payload formats of the header extensions (\<^verbatim>\<open>extension/\<close>): absolute
  send time, audio level, transport wide congestion control and video orientation. Packets and
  extension payloads survive encoding and decoding; the receiver's estimate of the send time is
  correct to within four microseconds.
\<close>

section \<open>Packets\<close>

record rtp_packet =
  pkt_header :: rtp_header
  pkt_payload :: bytes

definition get_padding :: "nat \<Rightarrow> nat" where
  "get_padding len = (if len mod 4 = 0 then 0 else 4 - len mod 4)"

definition rtp_packet_unmarshal :: "bytes \<Rightarrow> rtp_packet result" where
  "rtp_packet_unmarshal raw =
     rbind (rtp_header_unmarshal raw) (\<lambda>(h, pl).
       let payload_len = length pl in
       if padding h then
         if payload_len > 0 then
           let padding_len = unat (pl ! (payload_len - 1)) in
           if padding_len \<le> payload_len
           then Inr \<lparr>pkt_header = h, pkt_payload = take (payload_len - padding_len) pl\<rparr>
           else Inl (Err ''ErrShortPacket'')
         else Inl (Err ''ErrShortPacket'')
       else Inr \<lparr>pkt_header = h, pkt_payload = pl\<rparr>)"

definition rtp_packet_padding_len :: "rtp_packet \<Rightarrow> nat" where
  "rtp_packet_padding_len p =
     (if padding (pkt_header p)
      then if get_padding (length (pkt_payload p)) = 0 then 4 else get_padding (length (pkt_payload p))
      else 0)"

definition rtp_packet_marshal_size :: "rtp_packet \<Rightarrow> nat" where
  "rtp_packet_marshal_size p =
     rtp_header_marshal_size (pkt_header p) + length (pkt_payload p) + rtp_packet_padding_len p"

definition rtp_packet_marshal_to :: "nat \<Rightarrow> rtp_packet \<Rightarrow> bytes result" where
  "rtp_packet_marshal_to n p =
     (if n < rtp_packet_marshal_size p then Inl (Err ''ErrBufferTooSmall'')
      else rbind (rtp_header_marshal_to n (pkt_header p)) (\<lambda>hb.
        let pad = rtp_packet_padding_len p;
            out = hb @ pkt_payload p @ map (\<lambda>i. if i \<noteq> pad - 1 then 0 else of_nat pad) [0..<pad]
        in if length out \<le> n then Inr out else Inl Panic))"

definition rtp_packet_marshal :: "rtp_packet \<Rightarrow> bytes result" where
  "rtp_packet_marshal p = marshal_with (rtp_packet_marshal_size p) (\<lambda>n. rtp_packet_marshal_to n p)"

lemma rtp_header_marshal_to_more:
  assumes "rtp_header_ok h" "rtp_header_marshal_size h \<le> n"
  shows "rtp_header_marshal_to n h = rtp_header_marshal h"
proof -
  obtain bs where bs: "rtp_header_marshal h = Inr bs" "length bs = rtp_header_marshal_size h"
    using rtp_header_marshal_parts [OF assms(1)] by blast
  then have m: "rtp_header_marshal_to (rtp_header_marshal_size h) h = Inr bs"
    by (simp add: rtp_header_marshal_def marshal_with_def rbind_eq_Inr split: if_splits)
  let ?e = "if extension h then rtp_extensions_marshal h else Inr []"
  obtain ext where e: "?e = Inr ext"
  proof (cases ?e)
    case (Inl a)
    have "rtp_header_marshal_to (rtp_header_marshal_size h) h = Inl a"
      by (simp only: rtp_header_marshal_to_def Let_def Inl rbind_simps less_irrefl if_False)
    with m show ?thesis by simp
  qed
  have "\<exists>out. \<forall>n. \<not> n < rtp_header_marshal_size h \<longrightarrow>
      rtp_header_marshal_to n h = (if length out \<le> n then Inr out else Inl Panic)"
    unfolding rtp_header_marshal_to_def Let_def e rbind_simps
    by (intro exI allI impI) (simp only: if_False)
  then obtain out where out: "\<And>n. \<not> n < rtp_header_marshal_size h \<Longrightarrow>
      rtp_header_marshal_to n h = (if length out \<le> n then Inr out else Inl Panic)"
    by blast
  have "length out \<le> rtp_header_marshal_size h" "out = bs"
    using m out [of "rtp_header_marshal_size h"] by (auto split: if_splits)
  with bs(1) out [of n] assms(2) show ?thesis by simp
qed

lemma rtp_packet_marshal_parts:
  assumes ok: "rtp_header_ok (pkt_header p)"
  shows "\<exists>bs. rtp_packet_marshal p = Inr bs \<and> length bs = rtp_packet_marshal_size p \<and>
    rtp_packet_unmarshal bs = Inr p"
proof -
  let ?h = "pkt_header p" and ?pad = "rtp_packet_padding_len p"
  let ?tail = "map (\<lambda>i. if i \<noteq> ?pad - 1 then 0 else of_nat ?pad) [0..<?pad] :: bytes"
  obtain hb where hb: "rtp_header_marshal ?h = Inr hb" "length hb = rtp_header_marshal_size ?h"
    "\<And>rest. rtp_header_unmarshal (hb @ rest) = Inr (?h, rest)"
    using rtp_header_marshal_parts [OF ok] by blast
  let ?bs = "hb @ pkt_payload p @ ?tail"
  have l: "length ?bs = rtp_packet_marshal_size p"
    using hb(2) by (simp add: rtp_packet_marshal_size_def)
  have m: "rtp_packet_marshal p = Inr ?bs"
    using l hb(1) rtp_header_marshal_to_more [OF ok, of "rtp_packet_marshal_size p"]
    by (simp add: rtp_packet_marshal_def marshal_with_def rtp_packet_marshal_to_def
        rtp_packet_marshal_size_def Let_def)
  have "rtp_packet_unmarshal ?bs = Inr p"
  proof (cases "padding ?h")
    case True
    then have pad: "1 \<le> ?pad" "?pad \<le> 4"
      by (auto simp: rtp_packet_padding_len_def get_padding_def Suc_le_eq)
    have "(pkt_payload p @ ?tail) ! (length (pkt_payload p) + ?pad - 1) = of_nat ?pad"
      using pad(1) nth_append_length_plus [of "pkt_payload p" ?tail "?pad - 1"] by simp
    moreover have "unat (of_nat ?pad :: u8) = ?pad"
      using pad by (simp add: unat_of_nat)
    ultimately show ?thesis
      using True pad by (simp add: rtp_packet_unmarshal_def hb(3) Let_def)
  next
    case False
    then show ?thesis
      by (simp add: rtp_packet_unmarshal_def hb(3) Let_def rtp_packet_padding_len_def)
  qed
  with m l show ?thesis by blast
qed

text \<open>
  C8. Encoding a packet fills exactly the announced size and decoding gives the packet back, with the
  padding the header announces added and stripped again.
\<close>

theorem rtp_packet_round_trip:
  assumes "rtp_header_ok (pkt_header p)"
  shows "\<exists>bs. rtp_packet_marshal p = Inr bs \<and> length bs = rtp_packet_marshal_size p \<and>
    rtp_packet_unmarshal bs = Inr p"
  using assms by (rule rtp_packet_marshal_parts)

theorem rtp_packet_round_trip_witness:
  "\<exists>p bs. padding (pkt_header p) \<and> pkt_payload p = [1, 2, 3] \<and> rtp_packet_marshal p = Inr bs \<and>
     rtp_packet_unmarshal bs = Inr p"
proof -
  let ?p = "\<lparr>pkt_header = rtp_header_default\<lparr>version := 2, padding := True\<rparr>, pkt_payload = [1, 2, 3]\<rparr>"
  have "rtp_header_ok (pkt_header ?p)"
    by (simp add: rtp_header_ok_def rtp_header_default_def)
  from rtp_packet_round_trip [OF this] show ?thesis
    by (intro exI [of _ ?p]) auto
qed

section \<open>Sequence numbers\<close>

text \<open>The two counters of a \<^verbatim>\<open>SequencerImpl\<close>. \<^verbatim>\<open>new_random_sequencer\<close> starts from an
  arbitrary number, a parameter.\<close>

record sequencer =
  seq_number :: u16
  roll_over_count :: u64

definition new_random_sequencer :: "u16 \<Rightarrow> sequencer" where
  "new_random_sequencer r = \<lparr>seq_number = r, roll_over_count = 0\<rparr>"

definition new_fixed_sequencer :: "u16 \<Rightarrow> sequencer" where
  "new_fixed_sequencer s = \<lparr>seq_number = (if s = 0 then 65535 else s - 1), roll_over_count = 0\<rparr>"

definition next_sequence_number :: "sequencer \<Rightarrow> u16 \<times> sequencer" where
  "next_sequence_number q =
     (if seq_number q = 65535
      then (0, q\<lparr>roll_over_count := roll_over_count q + 1, seq_number := 0\<rparr>)
      else (seq_number q + 1, q\<lparr>seq_number := seq_number q + 1\<rparr>))"

lemma next_sequence_number_succ:
  "fst (next_sequence_number q) = seq_number q + 1"
  "seq_number (snd (next_sequence_number q)) = seq_number q + 1"
  by (auto simp: next_sequence_number_def)

lemma new_fixed_sequencer_first: "fst (next_sequence_number (new_fixed_sequencer s)) = s"
  by (auto simp: next_sequence_number_succ new_fixed_sequencer_def)

text \<open>The counters together are the extended sequence number: each call adds one to it.\<close>

definition extended_number :: "sequencer \<Rightarrow> nat" where
  "extended_number q = unat (roll_over_count q) * 65536 + unat (seq_number q)"

lemma word_succ: "x \<noteq> - 1 \<Longrightarrow> unat (x + 1 :: 'a::len word) = unat x + 1"
  using unatSuc [of x] by (simp add: eq_neg_iff_add_eq_0 add.commute)

lemma next_sequence_number_extended:
  assumes "roll_over_count q \<noteq> - 1"
  shows "extended_number (snd (next_sequence_number q)) = extended_number q + 1"
proof (cases "seq_number q = 65535")
  case True
  have "unat (roll_over_count q + 1) = unat (roll_over_count q) + 1"
    using assms by (rule word_succ)
  with True show ?thesis
    by (simp add: next_sequence_number_def extended_number_def)
next
  case False
  moreover have "(65535 :: u16) = - 1" by simp
  ultimately have "seq_number q \<noteq> - 1" by metis
  with False show ?thesis
    by (simp add: next_sequence_number_def extended_number_def word_succ)
qed

section \<open>The absolute send time extension\<close>

text \<open>A \<^verbatim>\<open>SystemTime\<close> is its nanoseconds since the Unix epoch; \<^verbatim>\<open>duration_since\<close> of an earlier
  time is an error, which the code turns into zero.\<close>

definition NTP_OFFSET :: u64 where "NTP_OFFSET = 0x83AA7E80"

definition unix2ntp :: "int \<Rightarrow> u64" where
  "unix2ntp st =
     (let u = of_nat (nat st) :: u64;
          s = u div 1000000000 + NTP_OFFSET;
          f = push_bit 32 (u mod 1000000000) div 1000000000
      in push_bit 32 s OR f)"

definition ntp2unix :: "u64 \<Rightarrow> int" where
  "ntp2unix t =
     (let f = drop_bit 32 ((t AND 0xFFFFFFFF) * 1000000000);
          s = drop_bit 32 t - NTP_OFFSET;
          u = s * 1000000000 + f
      in int (unat u))"

definition abs_send_time_new :: "int \<Rightarrow> u64" where
  "abs_send_time_new st = drop_bit 14 (unix2ntp st)"

definition abs_send_time_estimate_ntp :: "u64 \<Rightarrow> u64 \<Rightarrow> u64" where
  "abs_send_time_estimate_ntp ts receive_ntp =
     (let ntp = (receive_ntp AND 0xFFFFFFC000000000) OR push_bit 14 (ts AND 0xFFFFFF)
      in if receive_ntp < ntp then ntp - push_bit 14 0x1000000 else ntp)"

definition abs_send_time_estimate :: "u64 \<Rightarrow> int \<Rightarrow> int" where
  "abs_send_time_estimate ts receive = ntp2unix (abs_send_time_estimate_ntp ts (unix2ntp receive))"

definition abs_send_time_marshal_to :: "nat \<Rightarrow> u64 \<Rightarrow> bytes result" where
  "abs_send_time_marshal_to n ts =
     (if n < 3 then Inl (Err ''ErrBufferTooSmall'')
      else Inr (put_u8 (ucast (drop_bit 16 (ts AND 0xFF0000)))
        @ put_u8 (ucast (drop_bit 8 (ts AND 0xFF00))) @ put_u8 (ucast (ts AND 0xFF))))"

definition abs_send_time_unmarshal :: "bytes \<Rightarrow> u64 result" where
  "abs_send_time_unmarshal raw =
     (if length raw < 3 then Inl (Err ''ErrBufferTooSmall'')
      else rbind (get_u8 raw) (\<lambda>(b0, raw). rbind (get_u8 raw) (\<lambda>(b1, raw).
        rbind (get_u8 raw) (\<lambda>(b2, raw).
          Inr (push_bit 16 (ucast b0) OR push_bit 8 (ucast b1) OR ucast b2)))))"

lemma mask24: "(0xFFFFFF :: u64) = mask 24" "(0xFF0000 :: u64) = push_bit 16 (mask 8)"
  "(0xFF00 :: u64) = push_bit 8 (mask 8)" "(0xFF :: u64) = mask 8"
  "(0xFFFFFFC000000000 :: u64) = NOT (mask 38)"
  by (simp_all add: mask_eq_exp_minus_1)

lemma abs_send_time_round_trip:
  "\<exists>bs. abs_send_time_marshal_to 3 ts = Inr bs \<and> length bs = 3 \<and>
     abs_send_time_unmarshal bs = Inr (ts AND 0xFFFFFF)"
proof -
  have "push_bit 16 (ucast (ucast (drop_bit 16 (ts AND 0xFF0000)) :: u8)) OR
      push_bit 8 (ucast (ucast (drop_bit 8 (ts AND 0xFF00)) :: u8)) OR
      ucast (ucast (ts AND 0xFF) :: u8) = (ts AND 0xFFFFFF :: u64)"
    unfolding mask24
  proof (rule bit_word_eqI)
    fix n
    assume "n < LENGTH(64)"
    consider "n < 8" | "8 \<le> n" "n < 16" | "16 \<le> n" "n < 24" | "24 \<le> n" by linarith
    then show "bit (push_bit 16 (ucast (ucast (drop_bit 16 (ts AND push_bit 16 (mask 8))) :: u8)) OR
        push_bit 8 (ucast (ucast (drop_bit 8 (ts AND push_bit 8 (mask 8))) :: u8)) OR
        ucast (ucast (ts AND mask 8) :: u8) :: u64) n = bit (ts AND mask 24) n"
      by cases (auto simp: bit_simps)
  qed
  then show ?thesis
    by (simp add: abs_send_time_marshal_to_def abs_send_time_unmarshal_def)
qed

lemma estimate_arith:
  fixes t r m :: nat
  assumes "t \<le> r" "r - t < m"
  shows "r < r div m * m + t mod m \<Longrightarrow> r div m * m + t mod m = t + m"
    "\<not> r < r div m * m + t mod m \<Longrightarrow> r div m * m + t mod m = t"
proof -
  have m: "0 < m" using assms by simp
  have t: "t = t div m * m + t mod m" and r: "r = r div m * m + r mod m" by simp_all
  have "t div m \<le> r div m" using assms by (simp add: div_le_mono)
  moreover have "r div m \<le> t div m + 1"
  proof -
    have "r div m \<le> (t + m) div m" using assms by (intro div_le_mono) simp
    with m show ?thesis by (simp add: div_add_self2)
  qed
  ultimately consider "r div m = t div m" | "r div m = t div m + 1" by linarith
  then show "r < r div m * m + t mod m \<Longrightarrow> r div m * m + t mod m = t + m"
    "\<not> r < r div m * m + t mod m \<Longrightarrow> r div m * m + t mod m = t"
    using assms t by (cases; simp)+
qed

lemma estimate_ntp:
  fixes t r :: u64
  defines "t' \<equiv> push_bit 14 (drop_bit 14 t)"
  assumes le: "t' \<le> r" and near: "unat r - unat t' < 2 ^ 38"
  shows "abs_send_time_estimate_ntp (drop_bit 14 t AND 0xFFFFFF) r = t'"
proof -
  let ?m = "2 ^ 38 :: nat"
  define n where "n = (r AND 0xFFFFFFC000000000) OR push_bit 14 (drop_bit 14 t AND 0xFFFFFF)"
  have "n = push_bit 38 (drop_bit 38 r) OR take_bit 38 t'"
    unfolding n_def t'_def mask24 by (rule bit_word_eqI) (auto simp: bit_simps)
  also have "\<dots> = push_bit 38 (drop_bit 38 r) + take_bit 38 t'"
    by (rule disjunctive_add_eq_or [symmetric], rule bit_word_eqI) (auto simp: bit_simps)
  finally have n: "n = push_bit 38 (drop_bit 38 r) + take_bit 38 t'" .
  have "unat r < 2 ^ 64" using unsigned_less [of r] by simp
  moreover have "unat r div ?m * ?m \<le> unat r" by (rule div_times_less_eq_dividend)
  ultimately have "unat r div ?m * ?m < 2 ^ 64" by linarith
  then have hi: "unat (push_bit 38 (drop_bit 38 r)) = unat r div ?m * ?m"
    by (simp add: push_bit_eq_mult drop_bit_eq_div unat_word_ariths unat_div)
  have lo: "unat (take_bit 38 t') = unat t' mod ?m"
    by (simp add: take_bit_eq_mod unat_mod)
  have "unat r div ?m * ?m + unat t' mod ?m < 2 ^ 64"
  proof -
    have "unat r div ?m < 2 ^ 26" using \<open>unat r < 2 ^ 64\<close> by (simp add: less_mult_imp_div_less)
    moreover have "unat t' mod ?m < ?m" by simp
    ultimately show ?thesis by simp
  qed
  then have un: "unat n = unat r div ?m * ?m + unat t' mod ?m"
    unfolding n by (simp add: unat_plus_if' hi lo)
  note ar = estimate_arith [OF le [unfolded word_le_nat_alt] near]
  show ?thesis
  proof (cases "r < n")
    case True
    then have "unat n = unat t' + ?m"
      using ar(1) by (simp add: un word_less_nat_alt)
    then have "n - push_bit 14 0x1000000 = t'"
      by (simp add: word_unat_eq_iff unat_diff_wrap)
    with True show ?thesis
      by (simp add: abs_send_time_estimate_ntp_def n_def Let_def)
  next
    case False
    then have "unat n = unat t'"
      using ar(2) by (simp add: un word_less_nat_alt)
    with False show ?thesis
      by (simp add: abs_send_time_estimate_ntp_def n_def Let_def word_unat_eq_iff)
  qed
qed

text \<open>The conversions to and from NTP time in numbers, for the times of the first NTP era, which
  ends in 2036.\<close>

lemma or_add_small: "unat (b :: u64) < 2 ^ k \<Longrightarrow> push_bit k a OR b = push_bit k a + b"
  by (rule disjunctive_add_eq_or [symmetric], rule bit_word_eqI) (auto simp: bit_simps dest: bit_smallD)

lemma unat_of_nat64: "n < 18446744073709551616 \<Longrightarrow> unat (of_nat n :: u64) = n"
  by (simp add: unat_of_nat)

lemma unix2ntp_nat:
  assumes "n < 2085978496 * 1000000000"
  shows "unat (unix2ntp (int n)) =
    (n div 1000000000 + 2208988800) * 4294967296 + n mod 1000000000 * 4294967296 div 1000000000"
proof -
  let ?u = "of_nat n :: u64"
  let ?s = "?u div 1000000000 + NTP_OFFSET" and ?f = "push_bit 32 (?u mod 1000000000) div 1000000000"
  have u: "unat ?u = n" using assms by (intro unat_of_nat64) simp
  have d: "n div 1000000000 < 2085978496"
    using assms by (simp add: less_mult_imp_div_less)
  have s: "unat ?s = n div 1000000000 + 2208988800"
    using d by (simp add: unat_plus_if' unat_div u NTP_OFFSET_def)
  have m: "n mod 1000000000 < 1000000000" by simp
  have f: "unat ?f = n mod 1000000000 * 4294967296 div 1000000000"
    using m by (simp add: push_bit_eq_mult unat_div unat_word_ariths unat_mod u)
  have b: "n mod 1000000000 * 4294967296 div 1000000000 < 2 ^ 32"
    using m by (intro less_mult_imp_div_less) simp
  then have w: "unix2ntp (int n) = push_bit 32 ?s + ?f"
    unfolding f [symmetric] by (simp add: unix2ntp_def Let_def or_add_small)
  have h: "unat (push_bit 32 ?s) = (n div 1000000000 + 2208988800) * 4294967296"
    using d unfolding push_bit_eq_mult unat_word_ariths(2) s by simp
  show ?thesis
    unfolding w unat_plus_if' f h using b d by simp
qed

lemma ntp2unix_nat:
  assumes "unat x = (a + 2208988800) * 4294967296 + f" "f < 4294967296" "a < 2085978496"
  shows "ntp2unix x = int (a * 1000000000 + f * 1000000000 div 4294967296)"
proof -
  have lo: "unat (x AND 0xFFFFFFFF) = f"
  proof -
    have "x AND mask 32 = take_bit 32 x" by (simp add: take_bit_eq_mask)
    then have "unat (x AND 0xFFFFFFFF) = unat x mod 4294967296"
      by (simp add: mask_eq_exp_minus_1 take_bit_eq_mod unat_mod)
    also have "\<dots> = f"
      unfolding assms(1) using assms(2) by (simp only: mod_mult_self3 mod_less)
    finally show ?thesis .
  qed
  have "unat x div 4294967296 = a + 2208988800"
    unfolding assms(1) using assms(2) by (simp only: div_mult_self3 div_less)
  then have hi: "unat (drop_bit 32 x) = a + 2208988800"
    by (simp add: drop_bit_eq_div unat_div)
  have s: "unat (drop_bit 32 x - NTP_OFFSET) = a"
    unfolding unat_diff_wrap hi by (simp add: NTP_OFFSET_def)
  have "unat ((x AND 0xFFFFFFFF) * 1000000000) = f * 1000000000"
    unfolding unat_word_ariths(2) lo using assms(2) by simp
  then have ff: "unat (drop_bit 32 ((x AND 0xFFFFFFFF) * 1000000000)) = f * 1000000000 div 4294967296"
    by (simp add: drop_bit_eq_div unat_div)
  have "f * 1000000000 div 4294967296 < 1000000000"
    using assms(2) by (intro less_mult_imp_div_less) simp
  moreover have "unat ((drop_bit 32 x - NTP_OFFSET) * 1000000000) = a * 1000000000"
    unfolding unat_word_ariths(2) s using assms(3) by simp
  ultimately show ?thesis
    unfolding ntp2unix_def Let_def unat_plus_if' ff using assms(3) by simp
qed

lemma scale_div: "(n :: nat) div g * p + n mod g * p div g = n * p div g" if "0 < g"
proof -
  have "n * p = n mod g * p + n div g * p * g"
    by (metis add.commute distrib_right div_mult_mod_eq mult.assoc mult.commute)
  then show ?thesis
    using that by (simp add: add.commute)
qed

lemma unix2ntp_scaled:
  assumes "n < 2085978496 * 1000000000"
  shows "unat (unix2ntp (int n)) = 2208988800 * 4294967296 + n * 4294967296 div 1000000000"
  unfolding unix2ntp_nat [OF assms]
  by (simp only: scale_div [symmetric, of 1000000000 n 4294967296] zero_less_numeral distrib_right
      add.assoc add.left_commute add.commute)

lemma ntp2unix_scaled:
  assumes "unat x = 2208988800 * 4294967296 + q" "q < 2085978496 * 4294967296"
  shows "ntp2unix x = int (q * 1000000000 div 4294967296)"
proof -
  have "unat x = (q div 4294967296 + 2208988800) * 4294967296 + q mod 4294967296"
    using assms(1) by simp
  moreover have "q div 4294967296 < 2085978496"
    using assms(2) by (simp add: less_mult_imp_div_less)
  ultimately have "ntp2unix x = int (q div 4294967296 * 1000000000 + q mod 4294967296 * 1000000000 div 4294967296)"
    by (intro ntp2unix_nat) simp_all
  then show ?thesis
    by (simp only: scale_div [of 4294967296 q 1000000000] zero_less_numeral)
qed

lemma estimate_close:
  fixes t q q' e :: nat
  assumes "q = t * 4294967296 div 1000000000" "q' = q div 16384 * 16384" "e = q' * 1000000000 div 4294967296"
  shows "e \<le> t" "t \<le> e + 3815"
proof -
  have a: "q * 1000000000 \<le> t * 4294967296" "t * 4294967296 < (q + 1) * 1000000000"
    unfolding assms(1) by (rule div_times_less_eq_dividend) (use dividend_less_div_times [of 1000000000 "t * 4294967296"] in simp)
  have b: "q' \<le> q" "q < q' + 16384"
    unfolding assms(2) by (rule div_times_less_eq_dividend) (use dividend_less_div_times [of 16384 q] in simp)
  have c: "e * 4294967296 \<le> q' * 1000000000" "q' * 1000000000 < (e + 1) * 4294967296"
    unfolding assms(3) by (rule div_times_less_eq_dividend) (use dividend_less_div_times [of 4294967296 "q' * 1000000000"] in simp)
  show "e \<le> t"
    using a(1) b(1) c(1) by linarith
  have "t * 4294967296 < (q + 1) * 1000000000" by (rule a(2))
  also have "\<dots> \<le> (q' + 16384) * 1000000000"
    using b(2) by (intro mult_le_mono1) simp
  also have "\<dots> = q' * 1000000000 + 16384 * 1000000000" by (rule distrib_right)
  also have "\<dots> < (e + 1) * 4294967296 + 16384 * 1000000000"
    using c(2) by (rule add_strict_right_mono)
  also have "\<dots> \<le> (e + 3816) * 4294967296" by simp
  finally have "t < e + 3816" by (simp only: mult_less_cancel2)
  then show "t \<le> e + 3815" by simp
qed

text \<open>
  C29. The absolute send time extension carries 24 bits of the send time in units of 1/262144 second.
  A receiver that decodes it and gets the packet within 63 seconds of its sending recovers the
  send time: the estimate is never later than it and at most 3815 nanoseconds earlier.
\<close>

theorem abs_send_time_recovered:
  assumes "t \<le> r" "r \<le> t + 63 * 1000000000" "r < 2085978496 * 1000000000"
  shows "\<exists>bs ts. abs_send_time_marshal_to 3 (abs_send_time_new (int t)) = Inr bs \<and>
    abs_send_time_unmarshal bs = Inr ts \<and>
    abs_send_time_estimate ts (int r) \<le> int t \<and> int t \<le> abs_send_time_estimate ts (int r) + 3815"
proof -
  let ?p = "4294967296 :: nat" and ?g = "1000000000 :: nat"
  define q where "q = t * ?p div ?g"
  define q' where "q' = q div 16384 * 16384"
  define w where "w = push_bit 14 (drop_bit 14 (unix2ntp (int t)))"
  have qq: "q' \<le> q" "q < q' + 16384"
    unfolding q'_def by (rule div_times_less_eq_dividend) (use dividend_less_div_times [of 16384 q] in simp)
  have q: "q < 2085978496 * ?p"
    unfolding q_def using assms by (intro less_mult_imp_div_less) simp
  have ut: "unat (unix2ntp (int t)) = 2208988800 * ?p + q"
    unfolding q_def using assms by (intro unix2ntp_scaled) simp
  have ur: "unat (unix2ntp (int r)) = 2208988800 * ?p + r * ?p div ?g"
    using assms(3) by (rule unix2ntp_scaled)
  have "w = unix2ntp (int t) div 16384 * 16384"
    by (simp add: w_def push_bit_eq_mult drop_bit_eq_div)
  moreover have "(2208988800 * ?p + q) div 16384 * 16384 = 2208988800 * ?p + q'"
    unfolding q'_def using div_mult_self3 [of 16384 "2208988800 * 262144" q] by simp
  ultimately have w: "unat w = 2208988800 * ?p + q'"
    using qq(1) q by (simp add: unat_word_ariths unat_div ut)
  have lo: "q \<le> r * ?p div ?g"
    unfolding q_def using assms(1) by (intro div_le_mono) simp
  have "r * ?p div ?g \<le> (t * ?p + 63 * ?p * ?g) div ?g"
    using assms(2) by (intro div_le_mono) simp
  then have hi: "r * ?p div ?g \<le> q + 63 * ?p"
    unfolding q_def by simp
  have "abs_send_time_estimate_ntp (drop_bit 14 (unix2ntp (int t)) AND 0xFFFFFF) (unix2ntp (int r)) = w"
    unfolding w_def
    by (rule estimate_ntp) (use lo hi qq in \<open>simp_all add: w_def [symmetric] word_le_nat_alt w ur\<close>)
  moreover have "ntp2unix w = int (q' * ?g div ?p)"
    using w qq(1) q by (intro ntp2unix_scaled) simp_all
  ultimately have e: "abs_send_time_estimate (abs_send_time_new (int t) AND 0xFFFFFF) (int r) = int (q' * ?g div ?p)"
    by (simp add: abs_send_time_estimate_def abs_send_time_new_def)
  obtain bs where "abs_send_time_marshal_to 3 (abs_send_time_new (int t)) = Inr bs"
    "abs_send_time_unmarshal bs = Inr (abs_send_time_new (int t) AND 0xFFFFFF)"
    using abs_send_time_round_trip by blast
  then show ?thesis
    using e estimate_close [OF q_def q'_def refl] by (intro exI conjI) (assumption | simp)+
qed

theorem abs_send_time_recovered_witness:
  "\<exists>bs ts. abs_send_time_marshal_to 3 (abs_send_time_new (int 1600000000000000005)) = Inr bs \<and>
    abs_send_time_unmarshal bs = Inr ts \<and>
    abs_send_time_estimate ts (int 1600000050000000000) \<le> int 1600000000000000005 \<and>
    int 1600000000000000005 \<le> abs_send_time_estimate ts (int 1600000050000000000) + 3815"
  by (rule abs_send_time_recovered) simp_all

section \<open>The other extension payloads\<close>

record audio_level =
  level :: u8
  voice :: bool

definition audio_level_marshal_to :: "nat \<Rightarrow> audio_level \<Rightarrow> bytes result" where
  "audio_level_marshal_to n a =
     (if n < 1 then Inl (Err ''ErrBufferTooSmall'')
      else if level a > 127 then Inl (Err ''AudioLevelOverflow'')
      else Inr (put_u8 ((if voice a then 0x80 else 0) OR level a)))"

definition audio_level_unmarshal :: "bytes \<Rightarrow> audio_level result" where
  "audio_level_unmarshal raw =
     (if length raw < 1 then Inl (Err ''ErrBufferTooSmall'')
      else rbind (get_u8 raw) (\<lambda>(b, raw). Inr \<lparr>level = b AND 0x7F, voice = (b AND 0x80 \<noteq> 0)\<rparr>))"

definition transport_cc_marshal_to :: "nat \<Rightarrow> u16 \<Rightarrow> bytes result" where
  "transport_cc_marshal_to n sq = (if n < 2 then Inl (Err ''ErrBufferTooSmall'') else Inr (put_u16 sq))"

definition transport_cc_unmarshal :: "bytes \<Rightarrow> u16 result" where
  "transport_cc_unmarshal raw =
     (if length raw < 2 then Inl (Err ''ErrBufferTooSmall'')
      else rbind (get_u8 raw) (\<lambda>(b0, raw). rbind (get_u8 raw) (\<lambda>(b1, raw).
        Inr (push_bit 8 (ucast b0) OR ucast b1))))"

datatype camera_direction = Front | Back

datatype video_rotation = Degree0 | Degree90 | Degree180 | Degree270

record video_orientation =
  direction :: camera_direction
  flip :: bool
  rotation :: video_rotation

definition camera_direction_u8 :: "camera_direction \<Rightarrow> u8" where
  "camera_direction_u8 d = (case d of Front \<Rightarrow> 0 | Back \<Rightarrow> 1)"

definition camera_direction_try_from :: "u8 \<Rightarrow> camera_direction result" where
  "camera_direction_try_from v =
     (if v = 0 then Inr Front else if v = 1 then Inr Back else Inl (Err ''Other''))"

definition video_rotation_u8 :: "video_rotation \<Rightarrow> u8" where
  "video_rotation_u8 r = (case r of Degree0 \<Rightarrow> 0 | Degree90 \<Rightarrow> 1 | Degree180 \<Rightarrow> 2 | Degree270 \<Rightarrow> 3)"

definition video_rotation_try_from :: "u8 \<Rightarrow> video_rotation result" where
  "video_rotation_try_from v =
     (if v = 0 then Inr Degree0 else if v = 1 then Inr Degree90 else if v = 2 then Inr Degree180
      else if v = 3 then Inr Degree270 else Inl (Err ''Other''))"

definition video_orientation_marshal_to :: "nat \<Rightarrow> video_orientation \<Rightarrow> bytes result" where
  "video_orientation_marshal_to n v =
     (let c = push_bit 3 (camera_direction_u8 (direction v)); f = (if flip v then 4 else 0);
          r = video_rotation_u8 (rotation v)
      in if n < 1 then Inl Panic else Inr (put_u8 (c OR f OR r)))"

definition video_orientation_unmarshal :: "bytes \<Rightarrow> video_orientation result" where
  "video_orientation_unmarshal raw =
     (if length raw < 1 then Inl (Err ''ErrBufferTooSmall'')
      else rbind (get_u8 raw) (\<lambda>(b, raw).
        rbind (camera_direction_try_from (drop_bit 3 (b AND 8))) (\<lambda>d.
          rbind (video_rotation_try_from (b AND 3)) (\<lambda>r.
            Inr \<lparr>direction = d, flip = (b AND 4 > 0), rotation = r\<rparr>))))"

datatype header_extension =
    AbsSendTime u64
  | AudioLevel audio_level
  | TransportCc u16
  | VideoOrientation video_orientation
  | Custom string nat "nat \<Rightarrow> bytes result"

definition header_extension_uri :: "header_extension \<Rightarrow> string" where
  "header_extension_uri e = (case e of
      AbsSendTime _ \<Rightarrow> ''http://www.webrtc.org/experiments/rtp-hdrext/abs-send-time''
    | AudioLevel _ \<Rightarrow> ''urn:ietf:params:rtp-hdrext:ssrc-audio-level''
    | TransportCc _ \<Rightarrow> ''http://www.ietf.org/id/draft-holmer-rmcat-transport-wide-cc-extensions-01''
    | VideoOrientation _ \<Rightarrow> ''urn:3gpp:video-orientation''
    | Custom uri _ _ \<Rightarrow> uri)"

definition header_extension_is_same :: "header_extension \<Rightarrow> header_extension \<Rightarrow> bool" where
  "header_extension_is_same e e' = (case (e, e') of
      (AbsSendTime _, AbsSendTime _) \<Rightarrow> True
    | (AudioLevel _, AudioLevel _) \<Rightarrow> True
    | (TransportCc _, TransportCc _) \<Rightarrow> True
    | (VideoOrientation _, VideoOrientation _) \<Rightarrow> True
    | (Custom uri _ _, Custom uri' _ _) \<Rightarrow> uri = uri'
    | _ \<Rightarrow> False)"

definition header_extension_marshal_size :: "header_extension \<Rightarrow> nat" where
  "header_extension_marshal_size e = (case e of
      AbsSendTime _ \<Rightarrow> 3 | AudioLevel _ \<Rightarrow> 1 | TransportCc _ \<Rightarrow> 2 | VideoOrientation _ \<Rightarrow> 1
    | Custom _ n _ \<Rightarrow> n)"

definition header_extension_marshal_to :: "nat \<Rightarrow> header_extension \<Rightarrow> bytes result" where
  "header_extension_marshal_to n e = (case e of
      AbsSendTime ts \<Rightarrow> abs_send_time_marshal_to n ts
    | AudioLevel a \<Rightarrow> audio_level_marshal_to n a
    | TransportCc sq \<Rightarrow> transport_cc_marshal_to n sq
    | VideoOrientation v \<Rightarrow> video_orientation_marshal_to n v
    | Custom _ _ f \<Rightarrow> f n)"

lemma audio_level_round_trip:
  assumes "level a \<le> 127"
  shows "\<exists>bs. audio_level_marshal_to 1 a = Inr bs \<and> audio_level_unmarshal bs = Inr a"
proof -
  have p: "level a < 128" using assms by unat_arith
  have "((if voice a then 0x80 else 0) OR level a) AND 127 = level a"
    using rtp_b1(1) [OF p, of "voice a"] by (cases "voice a") (simp_all add: or.commute)
  moreover have "((if voice a then 0x80 else 0) OR level a) AND 128 \<noteq> 0 \<longleftrightarrow> voice a"
  proof -
    have "\<not> bit (level a) 7"
      using bit_smallD [of "level a" 7 7] p by (auto simp: word_less_nat_alt)
    moreover have "x AND 128 \<noteq> 0 \<longleftrightarrow> bit x 7" for x :: u8
      using and_exp_eq_0_iff_not_bit [of x 7] by simp
    ultimately show ?thesis by (simp add: bit_simps)
  qed
  ultimately show ?thesis
    using assms by (simp add: audio_level_marshal_to_def audio_level_unmarshal_def linorder_not_less put_u8_def)
qed

lemma transport_cc_round_trip:
  "\<exists>bs. transport_cc_marshal_to 2 sq = Inr bs \<and> transport_cc_unmarshal bs = Inr sq"
  using be16_put [of sq]
  by (simp add: transport_cc_marshal_to_def transport_cc_unmarshal_def put_u16_def be16_def)

lemma video_orientation_round_trip:
  "\<exists>bs. video_orientation_marshal_to 1 v = Inr bs \<and> video_orientation_unmarshal bs = Inr v"
proof (cases v)
  case (fields d f r)
  show ?thesis
    unfolding fields
    by (cases d; cases f; cases r)
      (simp_all add: video_orientation_marshal_to_def video_orientation_unmarshal_def put_u8_def
        camera_direction_u8_def video_rotation_u8_def camera_direction_try_from_def video_rotation_try_from_def)
qed

end
