(* ===== verification/Rtp_Packetizer.thy ===== *)
theory Rtp_Packetizer
  imports Rtp_Packet
begin

unbundle bit_operations_syntax

text \<open>
  The packetizer of \<^verbatim>\<open>rtc-rtp/src/packetizer/mod.rs\<close>, the contract of the payloaders it calls (a
  locale, interpreted on the payloaders of the code), the fragmentation loop they share with its
  equivalence to cutting a list into pieces, and the payloaders and depacketizers for G.711, G.722,
  Opus and VP8 (\<^verbatim>\<open>rtc-rtp/src/codecs/\<close>).
\<close>

section \<open>The packetizer\<close>

text \<open>
  A payloader is an operation \<open>payload mtu b s\<close> on its state \<open>s\<close> that returns the payloads of the
  packets for the frame \<open>b\<close>. The packetizer holds one as a trait object, so the operation is an
  argument of the definitions here.
\<close>

type_synonym 's payloader = "nat \<Rightarrow> bytes \<Rightarrow> 's \<Rightarrow> bytes list result \<times> 's"

record 's packetizer =
  pz_mtu :: nat
  pz_payload_type :: u8
  pz_ssrc :: u32
  pz_payloader :: 's
  pz_sequencer :: sequencer
  pz_timestamp :: u32
  pz_clock_rate :: u32
  pz_abs_send_time :: u8

definition new_packetizer ::
    "u32 \<Rightarrow> nat \<Rightarrow> u8 \<Rightarrow> u32 \<Rightarrow> 's \<Rightarrow> sequencer \<Rightarrow> u32 \<Rightarrow> 's packetizer" where
  "new_packetizer rnd mtu pt ss pl sq rate =
     \<lparr>pz_mtu = mtu, pz_payload_type = pt, pz_ssrc = ss, pz_payloader = pl, pz_sequencer = sq,
      pz_timestamp = rnd, pz_clock_rate = rate, pz_abs_send_time = 0\<rparr>"

definition enable_abs_send_time :: "u8 \<Rightarrow> 's packetizer \<Rightarrow> 's packetizer" where
  "enable_abs_send_time v z = z\<lparr>pz_abs_send_time := v\<rparr>"

definition skip_samples :: "u32 \<Rightarrow> 's packetizer \<Rightarrow> 's packetizer" where
  "skip_samples n z = z\<lparr>pz_timestamp := pz_timestamp z + n\<rparr>"

text \<open>The subtraction \<^verbatim>\<open>self.mtu - 12\<close> of two \<^verbatim>\<open>usize\<close> wraps.\<close>

definition usize_sub :: "nat \<Rightarrow> nat \<Rightarrow> nat" where
  "usize_sub a b = (if b \<le> a then a - b else a + 2 ^ 64 - b)"

text \<open>The loop over the payloads: packet \<open>i\<close> of \<open>n\<close>.\<close>

fun rtp_packetize_loop ::
    "u8 \<Rightarrow> u32 \<Rightarrow> u32 \<Rightarrow> nat \<Rightarrow> nat \<Rightarrow> sequencer \<Rightarrow> bytes list \<Rightarrow> rtp_packet list \<times> sequencer" where
  "rtp_packetize_loop pt ts ss n i sq [] = ([], sq)"
| "rtp_packetize_loop pt ts ss n i sq (p # ps) =
     (let (sn, sq) = next_sequence_number sq;
          pkt = \<lparr>pkt_header = rtp_header_default\<lparr>version := 2, padding := False, extension := False,
                   marker := (i = n - 1), payload_type := pt, sequence_number := sn,
                   timestamp := ts, ssrc := ss\<rparr>,
                 pkt_payload = p\<rparr>;
          (pkts, sq) = rtp_packetize_loop pt ts ss n (i + 1) sq ps
      in (pkt # pkts, sq))"

definition packetize ::
    "'s payloader \<Rightarrow> int \<Rightarrow> bytes \<Rightarrow> u32 \<Rightarrow> 's packetizer \<Rightarrow> rtp_packet list result \<times> 's packetizer" where
  "packetize payload now b samples z =
     (case payload (usize_sub (pz_mtu z) 12) b (pz_payloader z) of
        (Inl e, s) \<Rightarrow> (Inl e, z\<lparr>pz_payloader := s\<rparr>)
      | (Inr payloads, s) \<Rightarrow>
          let n = length payloads;
              (packets, sq) = rtp_packetize_loop (pz_payload_type z) (pz_timestamp z) (pz_ssrc z) n 0
                (pz_sequencer z) payloads;
              z = z\<lparr>pz_payloader := s, pz_sequencer := sq, pz_timestamp := pz_timestamp z + samples\<rparr>
          in if n \<noteq> 0 \<and> pz_abs_send_time z \<noteq> 0
             then (rbind (abs_send_time_marshal_to 3 (abs_send_time_new now)) (\<lambda>raw.
                     rbind (set_extension (pz_abs_send_time z) raw (pkt_header (packets ! (n - 1)))) (\<lambda>h.
                       Inr (packets[n - 1 := (packets ! (n - 1))\<lparr>pkt_header := h\<rparr>]))), z)
             else (Inr packets, z))"

lemma rtp_packetize_loop_facts:
  "rtp_packetize_loop pt ts ss n i sq ps = (pkts, sq') \<Longrightarrow>
     map pkt_payload pkts = ps \<and>
     (\<forall>k < length ps. pkt_header (pkts ! k) =
       rtp_header_default\<lparr>version := 2, marker := (i + k = n - 1), payload_type := pt,
         sequence_number := seq_number sq + 1 + of_nat k, timestamp := ts, ssrc := ss\<rparr>) \<and>
     seq_number sq' = seq_number sq + of_nat (length ps)"
proof (induction ps arbitrary: i sq pkts sq')
  case (Cons p ps)
  obtain sn sq1 where sn: "next_sequence_number sq = (sn, sq1)" by fastforce
  obtain pkts1 sq2 where l: "rtp_packetize_loop pt ts ss n (i + 1) sq1 ps = (pkts1, sq2)" by fastforce
  have n: "sn = seq_number sq + 1" "seq_number sq1 = seq_number sq + 1"
    using next_sequence_number_succ [of sq] sn by simp_all
  have r: "pkts = \<lparr>pkt_header = rtp_header_default\<lparr>version := 2, padding := False, extension := False,
        marker := (i = n - 1), payload_type := pt, sequence_number := sn, timestamp := ts, ssrc := ss\<rparr>,
      pkt_payload = p\<rparr> # pkts1" "sq' = sq2"
    using Cons.prems sn l by (auto simp: Let_def)
  note IH = Cons.IH [OF l]
  have "pkt_header (pkts ! k) = rtp_header_default\<lparr>version := 2, marker := (i + k = n - 1),
      payload_type := pt, sequence_number := seq_number sq + 1 + of_nat k, timestamp := ts, ssrc := ss\<rparr>"
    if "k < length (p # ps)" for k
    using IH that n by (cases k) (auto simp: r rtp_header_default_def ac_simps)
  then show ?case using IH n by (simp add: r)
qed simp

lemma packetize_plain:
  assumes "pz_abs_send_time z = 0" "packetize payload now b samples z = (Inr pkts, z')"
  obtains ps s where "payload (usize_sub (pz_mtu z) 12) b (pz_payloader z) = (Inr ps, s)"
    "map pkt_payload pkts = ps"
    "\<And>k. k < length ps \<Longrightarrow> pkt_header (pkts ! k) =
       rtp_header_default\<lparr>version := 2, marker := (k = length ps - 1), payload_type := pz_payload_type z,
         sequence_number := seq_number (pz_sequencer z) + 1 + of_nat k, timestamp := pz_timestamp z,
         ssrc := pz_ssrc z\<rparr>"
    "seq_number (pz_sequencer z') = seq_number (pz_sequencer z) + of_nat (length ps)"
    "pz_timestamp z' = pz_timestamp z + samples"
proof -
  obtain r s where p: "payload (usize_sub (pz_mtu z) 12) b (pz_payloader z) = (r, s)" by fastforce
  with assms(2) obtain ps where r: "r = Inr ps"
    by (cases r) (auto simp: packetize_def)
  obtain pkts1 sq1 where l: "rtp_packetize_loop (pz_payload_type z) (pz_timestamp z) (pz_ssrc z) (length ps) 0
      (pz_sequencer z) ps = (pkts1, sq1)" by fastforce
  have "pkts = pkts1" "z' = z\<lparr>pz_payloader := s, pz_sequencer := sq1, pz_timestamp := pz_timestamp z + samples\<rparr>"
    using assms p r l by (simp_all add: packetize_def Let_def)
  with rtp_packetize_loop_facts [OF l] p r show thesis
    by (intro that [of ps s]) simp_all
qed

lemma packetize_total:
  assumes "pz_abs_send_time z = 0" "payload (usize_sub (pz_mtu z) 12) b (pz_payloader z) = (Inr ps, s)"
  shows "\<exists>pkts z'. packetize payload now b samples z = (Inr pkts, z') \<and> length pkts = length ps"
proof -
  obtain pkts sq where l: "rtp_packetize_loop (pz_payload_type z) (pz_timestamp z) (pz_ssrc z) (length ps) 0
      (pz_sequencer z) ps = (pkts, sq)" by fastforce
  have "length pkts = length ps"
    using rtp_packetize_loop_facts [OF l] by (metis length_map)
  with assms l show ?thesis by (simp add: packetize_def Let_def)
qed

section \<open>The contract of a payloader\<close>

text \<open>Every payload fits the size the packetizer asked for.\<close>

locale bounded_payloader =
  fixes payload :: "'s payloader"
  assumes fits: "payload mtu b s = (Inr ps, s') \<Longrightarrow> p \<in> set ps \<Longrightarrow> length p \<le> mtu"
begin

lemma packetize_fits:
  assumes z: "12 \<le> pz_mtu z" "pz_abs_send_time z = 0" "pz_payload_type z < 128"
    and r: "packetize payload now b samples z = (Inr pkts, z')" and p: "pkt \<in> set pkts"
  shows "\<exists>bs. rtp_packet_marshal pkt = Inr bs \<and> length bs \<le> pz_mtu z \<and> rtp_packet_unmarshal bs = Inr pkt"
proof -
  obtain ps s where pl: "payload (usize_sub (pz_mtu z) 12) b (pz_payloader z) = (Inr ps, s)"
    and m: "map pkt_payload pkts = ps"
    and h: "\<And>k. k < length ps \<Longrightarrow> pkt_header (pkts ! k) =
       rtp_header_default\<lparr>version := 2, marker := (k = length ps - 1), payload_type := pz_payload_type z,
         sequence_number := seq_number (pz_sequencer z) + 1 + of_nat k, timestamp := pz_timestamp z,
         ssrc := pz_ssrc z\<rparr>"
    by (rule packetize_plain [OF z(2) r]) blast
  obtain k where k: "k < length ps" "pkt = pkts ! k"
    using p m by (auto simp: in_set_conv_nth)
  have "pkt_payload pkt \<in> set ps" using p m by auto
  with fits [OF pl] z(1) have l: "length (pkt_payload pkt) \<le> pz_mtu z - 12"
    by (auto simp: usize_sub_def)
  have ok: "rtp_header_ok (pkt_header pkt)"
    using h [OF k(1)] k(2) z(3) by (simp add: rtp_header_ok_def rtp_header_default_def)
  have "rtp_packet_marshal_size pkt = 12 + length (pkt_payload pkt)"
    using h [OF k(1)] k(2)
    by (simp add: rtp_packet_marshal_size_def rtp_header_marshal_size_def rtp_header_default_def
        rtp_packet_padding_len_def Let_def)
  with rtp_packet_marshal_parts [OF ok] l z(1) show ?thesis by auto
qed

end

section \<open>Fragmentation\<close>

text \<open>
  The loop the payloaders share: cut at most \<open>max_size\<close> bytes off what remains until nothing does;
  \<open>mk first last p\<close> is the payload made of the fragment \<open>p\<close>. A fragment size of zero would not
  end.
\<close>

function fragment_loop ::
    "(bool \<Rightarrow> bool \<Rightarrow> bytes \<Rightarrow> bytes) \<Rightarrow> nat \<Rightarrow> bytes \<Rightarrow> bool \<Rightarrow> nat \<Rightarrow> nat \<Rightarrow> bytes list result" where
  "fragment_loop mk max_size b first index remaining =
     (if remaining > 0 then
        let current = min max_size remaining in
        if current = 0 then Inl Hang
        else rbind (slice index (index + current) b) (\<lambda>p.
          rbind (fragment_loop mk max_size b False (index + current) (remaining - current)) (\<lambda>ps.
            Inr (mk first (remaining - current = 0) p # ps)))
      else Inr [])"
  by pat_completeness auto

termination fragment_loop
  by (relation "measure (\<lambda>(mk, max_size, b, first, index, remaining). remaining)") auto

declare fragment_loop.simps [simp del]

fun mark_fragments :: "(bool \<Rightarrow> bool \<Rightarrow> bytes \<Rightarrow> bytes) \<Rightarrow> bool \<Rightarrow> bytes list \<Rightarrow> bytes list" where
  "mark_fragments mk first [] = []"
| "mark_fragments mk first (p # ps) = mk first (ps = []) p # mark_fragments mk False ps"

lemma fragment_loop_pieces:
  assumes "0 < n"
  shows "index + r = length b \<Longrightarrow>
    fragment_loop mk n b first index r = Inr (mark_fragments mk first (pieces n (drop index b)))"
proof (induction r arbitrary: index first rule: less_induct)
  case (less r)
  show ?case
  proof (cases "r = 0")
    case True
    with less.prems show ?thesis by (simp add: fragment_loop.simps [where remaining = 0])
  next
    case False
    let ?c = "min n r"
    have c: "0 < ?c" "?c \<le> r" using assms False by auto
    have IH: "fragment_loop mk n b False (index + ?c) (r - ?c) =
        Inr (mark_fragments mk False (pieces n (drop (index + ?c) b)))"
      using c less.prems by (intro less.IH) auto
    have d: "drop n (drop index b) = drop (index + ?c) b" "take n (drop index b) = take ?c (drop index b)"
      using less.prems by (auto simp: min_def add.commute)
    have "drop (index + ?c) b = [] \<longleftrightarrow> r - ?c = 0"
      using less.prems c by auto
    then have e: "pieces n (drop (index + ?c) b) = [] \<longleftrightarrow> r - ?c = 0"
      using pieces_eq_Nil [OF assms] by metis
    have "drop index b \<noteq> []" using less.prems False by auto
    then have ch: "pieces n (drop index b) = take ?c (drop index b) # pieces n (drop (index + ?c) b)"
      using assms d by (subst pieces.simps) simp
    have sl: "slice index (index + ?c) b = Inr (take ?c (drop index b))"
      using less.prems c by (simp add: slice_def)
    have "fragment_loop mk n b first index r =
        Inr (mk first (r - ?c = 0) (take ?c (drop index b)) # mark_fragments mk False (pieces n (drop (index + ?c) b)))"
      using c(1) False unfolding fragment_loop.simps [of mk n b first index r] Let_def sl IH rbind_simps by simp
    then show ?thesis
      by (simp only: ch mark_fragments.simps e)
  qed
qed

lemma mark_fragments_set:
  "q \<in> set (mark_fragments mk first ps) \<Longrightarrow> \<exists>f l p. p \<in> set ps \<and> q = mk f l p"
  by (induction ps arbitrary: first) (auto, metis)

lemma mark_fragments_plain: "mark_fragments (\<lambda>f l p. p) first ps = ps"
  by (induction ps arbitrary: first) auto

section \<open>G.711, G.722 and Opus\<close>

definition g7xx_payload :: "unit payloader" where
  "g7xx_payload mtu b s =
     (if b = [] \<or> mtu = 0 then (Inr [], s)
      else (fragment_loop (\<lambda>first last p. p) mtu b True 0 (length b), s))"

definition opus_payload :: "unit payloader" where
  "opus_payload mtu b s = (if b = [] \<or> mtu = 0 then (Inr [], s) else (Inr [b], s))"

definition opus_depacketize :: "bytes \<Rightarrow> bytes result" where
  "opus_depacketize packet = (if packet = [] then Inl (Err ''ErrShortPacket'') else Inr packet)"

lemma g7xx_payload_eq: "g7xx_payload mtu b s = (Inr (pieces mtu b), s)"
  using fragment_loop_pieces [of mtu 0 "length b" b]
  by (auto simp: g7xx_payload_def mark_fragments_plain pieces.simps [of mtu b])

interpretation g7xx: bounded_payloader g7xx_payload
  by unfold_locales (auto simp: g7xx_payload_eq dest: pieces_length)

section \<open>VP8\<close>

record vp8_payloader =
  enable_picture_id :: bool
  vp8_picture_id :: u16

definition VP8_HEADER_SIZE :: nat where "VP8_HEADER_SIZE = 1"

definition vp8_using_header_size :: "vp8_payloader \<Rightarrow> nat" where
  "vp8_using_header_size s =
     (if enable_picture_id s
      then if vp8_picture_id s = 0 \<or> vp8_picture_id s < 128 then VP8_HEADER_SIZE + 2 else VP8_HEADER_SIZE + 3
      else VP8_HEADER_SIZE)"

text \<open>The descriptor in front of a fragment, cut from the four byte buffer the code fills.\<close>

definition vp8_descriptor :: "vp8_payloader \<Rightarrow> bool \<Rightarrow> bytes" where
  "vp8_descriptor s first =
     (let size = vp8_using_header_size s;
          b0 = (if first then 0x10 else 0);
          buf = (if enable_picture_id s then
                   if size = VP8_HEADER_SIZE + 2
                   then [b0 OR 0x80, 0x80, ucast (vp8_picture_id s AND 0x7F), 0]
                   else if size = VP8_HEADER_SIZE + 3
                   then [b0 OR 0x80, 0x80, 0x80 OR ucast (drop_bit 8 (vp8_picture_id s) AND 0x7F),
                         ucast (vp8_picture_id s AND 0xFF)]
                   else [b0, 0, 0, 0]
                 else [b0, 0, 0, 0])
      in take size buf)"

definition vp8_payload :: "vp8_payloader payloader" where
  "vp8_payload mtu b s =
     (if b = [] \<or> mtu = 0 then (Inr [], s)
      else
        let max_fragment_size = int mtu - int (vp8_using_header_size s) in
        if min max_fragment_size (int (length b)) \<le> 0 then (Inr [], s)
        else (fragment_loop (\<lambda>first last p. vp8_descriptor s first @ p) (nat max_fragment_size) b True 0 (length b),
              s\<lparr>vp8_picture_id := (vp8_picture_id s + 1) AND 0x7FFF\<rparr>))"

record vp8_packet =
  v_x :: u8
  v_n :: u8
  v_s :: u8
  v_pid :: u8
  v_i :: u8
  v_l :: u8
  v_t :: u8
  v_k :: u8
  v_picture_id :: u16
  v_tl0_pic_idx :: u8
  v_tid :: u8
  v_y :: u8
  v_key_idx :: u8

definition vp8_packet_default :: vp8_packet where
  "vp8_packet_default = \<lparr>v_x = 0, v_n = 0, v_s = 0, v_pid = 0, v_i = 0, v_l = 0, v_t = 0, v_k = 0,
     v_picture_id = 0, v_tl0_pic_idx = 0, v_tid = 0, v_y = 0, v_key_idx = 0\<rparr>"

text \<open>
  The depacketizer, a state machine over the descriptor's optional bytes. The code reads through a
  cursor that stands at \<open>payload_index\<close>; here the byte is taken at that index. The first length check
  covers the reads before the second one.
\<close>

definition vp8_depacketize :: "bytes \<Rightarrow> vp8_packet \<Rightarrow> bytes result \<times> vp8_packet" where
  "vp8_depacketize packet v =
     (if length packet < 4 then (Inl (Err ''ErrShortPacket''), v)
      else
        let b = packet ! 0;
            v = v\<lparr>v_x := drop_bit 7 (b AND 0x80), v_n := drop_bit 5 (b AND 0x20),
                  v_s := drop_bit 4 (b AND 0x10), v_pid := b AND 7\<rparr>;
            (v, idx) =
              (if v_x v = 1 then
                 let b = packet ! 1 in
                 (v\<lparr>v_i := drop_bit 7 (b AND 0x80), v_l := drop_bit 6 (b AND 0x40),
                    v_t := drop_bit 5 (b AND 0x20), v_k := drop_bit 4 (b AND 0x10)\<rparr>, 2)
               else (v, 1));
            (v, idx) =
              (if v_i v = 1 then
                 let b = packet ! idx in
                 if b AND 0x80 > 0
                 then (v\<lparr>v_picture_id := push_bit 8 (ucast (b AND 0x7F)) OR ucast (packet ! (idx + 1))\<rparr>, idx + 2)
                 else (v\<lparr>v_picture_id := ucast b\<rparr>, idx + 1)
               else (v, idx))
        in if idx \<ge> length packet then (Inl (Err ''ErrShortPacket''), v)
        else
          let (v, idx) = (if v_l v = 1 then (v\<lparr>v_tl0_pic_idx := packet ! idx\<rparr>, idx + 1) else (v, idx))
          in if idx \<ge> length packet then (Inl (Err ''ErrShortPacket''), v)
          else
            let (v, idx) =
              (if v_t v = 1 \<or> v_k v = 1 then
                 let b = packet ! idx;
                     v = (if v_t v = 1 then v\<lparr>v_tid := drop_bit 6 b, v_y := drop_bit 5 b AND 1\<rparr> else v);
                     v = (if v_k v = 1 then v\<lparr>v_key_idx := b AND 0x1F\<rparr> else v)
                 in (v, idx + 1)
               else (v, idx))
            in if idx \<ge> length packet then (Inl (Err ''ErrShortPacket''), v)
               else (Inr (drop idx packet), v))"

definition vp8_is_partition_head :: "bytes \<Rightarrow> bool" where
  "vp8_is_partition_head p = (if p = [] then False else p ! 0 AND 0x10 \<noteq> 0)"

definition vp8_is_partition_tail :: "bool \<Rightarrow> bytes \<Rightarrow> bool" where
  "vp8_is_partition_tail m p = m"

lemma vp8_descriptor_length: "length (vp8_descriptor s first) = vp8_using_header_size s"
  by (simp add: vp8_descriptor_def vp8_using_header_size_def VP8_HEADER_SIZE_def Let_def)

lemma vp8_payload_eq:
  "vp8_payload mtu b s =
     (if b = [] \<or> mtu \<le> vp8_using_header_size s then (Inr [], s)
      else (Inr (mark_fragments (\<lambda>first last p. vp8_descriptor s first @ p) True
              (pieces (mtu - vp8_using_header_size s) b)),
            s\<lparr>vp8_picture_id := (vp8_picture_id s + 1) AND 0x7FFF\<rparr>))"
proof -
  have "nat (int mtu - int h) = mtu - h" for h by simp
  then show ?thesis
    using fragment_loop_pieces [of "mtu - vp8_using_header_size s" 0 "length b" b]
    by (auto simp: vp8_payload_def Let_def min_def)
qed

interpretation vp8: bounded_payloader vp8_payload
proof
  fix mtu b s ps s' p
  assume "vp8_payload mtu b s = (Inr ps, s')" "p \<in> set ps"
  then obtain q f where "p = vp8_descriptor s f @ q" "q \<in> set (pieces (mtu - vp8_using_header_size s) b)"
      "vp8_using_header_size s < mtu"
    by (auto simp: vp8_payload_eq linorder_not_le dest!: mark_fragments_set split: if_splits)
  then show "length p \<le> mtu"
    using pieces_length [of q] by (fastforce simp: vp8_descriptor_length)
qed

text \<open>With picture identifiers every payload says all the depacketizer needs.\<close>

lemma vp8_depacketize_short_id:
  assumes "q \<noteq> []"
  shows "vp8_depacketize ([(if f then 0x10 else 0) OR 0x80, 0x80, i AND 0x7F] @ q) v =
    (Inr q, v\<lparr>v_x := 1, v_n := 0, v_s := (if f then 1 else 0), v_pid := 0, v_i := 1, v_l := 0,
       v_t := 0, v_k := 0, v_picture_id := ucast (i AND 0x7F)\<rparr>)"
proof -
  have "(i AND 0x7F) AND 0x80 = 0"
    by (simp add: and.assoc)
  then show ?thesis
    using assms by (cases q; cases f) (simp_all add: vp8_depacketize_def Let_def)
qed

lemma vp8_depacketize_long_id:
  assumes "q \<noteq> []"
  shows "vp8_depacketize ([(if f then 0x10 else 0) OR 0x80, 0x80, 0x80 OR (i AND 0x7F), j] @ q) v =
    (Inr q, v\<lparr>v_x := 1, v_n := 0, v_s := (if f then 1 else 0), v_pid := 0, v_i := 1, v_l := 0,
       v_t := 0, v_k := 0, v_picture_id := push_bit 8 (ucast (i AND 0x7F)) OR ucast j\<rparr>)"
proof -
  have "(0x80 OR (i AND 0x7F)) AND 0x80 = (0x80 :: u8)" "(0x80 OR (i AND 0x7F)) AND 0x7F = i AND 0x7F"
    by (simp_all add: bit.conj_disj_distrib2 and.assoc)
  then show ?thesis
    using assms by (cases q; cases f) (simp_all add: vp8_depacketize_def Let_def)
qed

lemma vp8_depacketize_fragment:
  assumes "enable_picture_id s" "vp8_picture_id s < 0x8000" "q \<noteq> []"
  shows "\<exists>v'. vp8_depacketize (vp8_descriptor s f @ q) v = (Inr q, v') \<and>
    v_picture_id v' = vp8_picture_id s \<and> v_s v' = (if f then 1 else 0)"
proof (cases "vp8_picture_id s < 128")
  case True
  let ?i = "ucast (vp8_picture_id s) :: u8"
  have u: "ucast (vp8_picture_id s AND 0x7F) = ?i AND 0x7F"
    by (intro bit_word_eqI) (auto simp: bit_simps)
  have "unat (vp8_picture_id s) < 2 ^ 7"
    using True by (simp add: word_less_nat_alt)
  note d = bit_smallD [OF this]
  have "ucast (?i AND mask 7) = vp8_picture_id s"
    by (rule bit_word_eqI) (auto simp: bit_simps dest: d)
  then have p: "ucast (?i AND 0x7F) = vp8_picture_id s"
    by (simp add: mask_eq_exp_minus_1)
  have "vp8_descriptor s f = [(if f then 0x10 else 0) OR 0x80, 0x80, ?i AND 0x7F]"
    using assms(1) True u
    by (simp add: vp8_descriptor_def vp8_using_header_size_def VP8_HEADER_SIZE_def Let_def)
  with vp8_depacketize_short_id [OF assms(3), of f ?i v] p show ?thesis by simp
next
  case False
  let ?i = "ucast (drop_bit 8 (vp8_picture_id s)) :: u8" and ?j = "ucast (vp8_picture_id s AND 0xFF) :: u8"
  have u: "ucast (drop_bit 8 (vp8_picture_id s) AND 0x7F) = ?i AND 0x7F"
    by (intro bit_word_eqI) (auto simp: bit_simps)
  have "unat (vp8_picture_id s) < 2 ^ 15"
    using assms(2) by (simp add: word_less_nat_alt)
  note d = bit_smallD [OF this]
  have "push_bit 8 (ucast (?i AND mask 7)) OR ucast (ucast (vp8_picture_id s AND mask 8) :: u8) = vp8_picture_id s"
  proof (rule bit_word_eqI)
    fix n assume "n < LENGTH(16)"
    consider "n < 8" | "8 \<le> n" by linarith
    then show "bit (push_bit 8 (ucast (?i AND mask 7)) OR ucast (ucast (vp8_picture_id s AND mask 8) :: u8) :: u16) n
        = bit (vp8_picture_id s) n"
      using d [of n] by cases (auto simp: bit_simps)
  qed
  then have p: "push_bit 8 (ucast (?i AND 0x7F)) OR ucast ?j = vp8_picture_id s"
    by (simp add: mask_eq_exp_minus_1)
  have "vp8_descriptor s f = [(if f then 0x10 else 0) OR 0x80, 0x80, 0x80 OR (?i AND 0x7F), ?j]"
    using assms(1) False u
    by (auto simp: vp8_descriptor_def vp8_using_header_size_def VP8_HEADER_SIZE_def Let_def)
  with vp8_depacketize_long_id [OF assms(3), of f ?i ?j v] p show ?thesis by simp
qed

lemma mark_fragments_nth:
  "k < length ps \<Longrightarrow> mark_fragments mk first ps ! k = mk (first \<and> k = 0) (Suc k = length ps) (ps ! k)"
  by (induction ps arbitrary: first k) (auto simp: nth_Cons split: nat.splits)

lemma mark_fragments_length [simp]: "length (mark_fragments mk first ps) = length ps"
  by (induction ps arbitrary: first) auto



text \<open>Without them a payload of one or two bytes is emitted and then refused as too short, and a
  descriptor without the extension bit is read with the control bits an earlier packet left.\<close>

lemma vp8_short_fragment_refused:
  "vp8_payload 4 [1, 2, 3, 4, 5] \<lparr>enable_picture_id = False, vp8_picture_id = 0\<rparr> =
     (Inr [[0x10, 1, 2, 3], [0, 4, 5]], \<lparr>enable_picture_id = False, vp8_picture_id = 1\<rparr>)"
  "fst (vp8_depacketize [0, 4, 5] v) = Inl (Err ''ErrShortPacket'')"
  by (code_simp, simp add: vp8_depacketize_def)

lemma vp8_stale_control_bits:
  "fst (vp8_depacketize [0x10, 1, 2, 3, 4] vp8_packet_default) = Inr [1, 2, 3, 4]"
  "fst (vp8_depacketize [0x10, 1, 2, 3, 4] (snd (vp8_depacketize [0x90, 0x80, 5, 6] vp8_packet_default))) = Inr [2, 3, 4]"
  by code_simp+



end
