(* ===== verification/Rtp_H264.thy ===== *)
theory Rtp_H264
  imports Rtp_Packetizer
begin

unbundle bit_operations_syntax

text \<open>
  The H.264 payloader and depacketizer of \<^verbatim>\<open>rtc-rtp/src/codecs/h264/mod.rs\<close>: the search for start
  codes, single units, the aggregate of the two parameter sets and fragmentation units. The theorem
  is that payloading an Annex B stream and depacketizing the payloads gives the stream of the units
  the payloader sends, described by an abstract definition over lists of units.
\<close>

section \<open>The payloader\<close>

definition STAPA_NALU_TYPE :: u8 where "STAPA_NALU_TYPE = 24"
definition FUA_NALU_TYPE :: u8 where "FUA_NALU_TYPE = 28"
definition FUB_NALU_TYPE :: u8 where "FUB_NALU_TYPE = 29"
definition SPS_NALU_TYPE :: u8 where "SPS_NALU_TYPE = 7"
definition PPS_NALU_TYPE :: u8 where "PPS_NALU_TYPE = 8"
definition AUD_NALU_TYPE :: u8 where "AUD_NALU_TYPE = 9"
definition FILLER_NALU_TYPE :: u8 where "FILLER_NALU_TYPE = 12"
definition FUA_HEADER_SIZE :: nat where "FUA_HEADER_SIZE = 2"
definition NALU_TYPE_BITMASK :: u8 where "NALU_TYPE_BITMASK = 0x1F"
definition NALU_REF_IDC_BITMASK :: u8 where "NALU_REF_IDC_BITMASK = 0x60"
definition FU_START_BITMASK :: u8 where "FU_START_BITMASK = 0x80"
definition FU_END_BITMASK :: u8 where "FU_END_BITMASK = 0x40"
definition OUTPUT_STAP_AHEADER :: u8 where "OUTPUT_STAP_AHEADER = 0x78"
definition ANNEXB_NALUSTART_CODE :: bytes where "ANNEXB_NALUSTART_CODE = [0, 0, 0, 1]"

lemmas h264_consts = STAPA_NALU_TYPE_def FUA_NALU_TYPE_def FUB_NALU_TYPE_def SPS_NALU_TYPE_def
  PPS_NALU_TYPE_def AUD_NALU_TYPE_def FILLER_NALU_TYPE_def FUA_HEADER_SIZE_def NALU_TYPE_BITMASK_def
  NALU_REF_IDC_BITMASK_def FU_START_BITMASK_def FU_END_BITMASK_def OUTPUT_STAP_AHEADER_def
  ANNEXB_NALUSTART_CODE_def

record h264_payloader =
  sps_nalu :: "bytes option"
  pps_nalu :: "bytes option"

text \<open>The position and length of the next start code from \<open>start\<close> on, \<open>None\<close> for the code's
  \<^verbatim>\<open>(-1, -1)\<close>.\<close>

fun next_ind_loop :: "nat \<Rightarrow> nat \<Rightarrow> bytes \<Rightarrow> (nat \<times> nat) option" where
  "next_ind_loop zero_count i [] = None"
| "next_ind_loop zero_count i (b # bs) =
     (if b = 0 then next_ind_loop (zero_count + 1) (i + 1) bs
      else if b = 1 \<and> zero_count \<ge> 2 then Some (i - zero_count, zero_count + 1)
      else next_ind_loop 0 (i + 1) bs)"

definition next_ind :: "bytes \<Rightarrow> nat \<Rightarrow> (nat \<times> nat) option" where
  "next_ind nalu start = next_ind_loop 0 start (drop start nalu)"

definition stap_a :: "bytes \<Rightarrow> bytes \<Rightarrow> bytes" where
  "stap_a sps pps = OUTPUT_STAP_AHEADER # put_u16 (of_nat (length sps)) @ sps @ put_u16 (of_nat (length pps)) @ pps"

definition fua_fragment :: "u8 \<Rightarrow> u8 \<Rightarrow> bool \<Rightarrow> bool \<Rightarrow> bytes \<Rightarrow> bytes" where
  "fua_fragment nalu_ref_idc nalu_type first final p =
     [FUA_NALU_TYPE OR nalu_ref_idc,
      (if first then nalu_type OR push_bit 7 1 else if final then nalu_type OR push_bit 6 1 else nalu_type)] @ p"

definition h264_emit :: "bytes \<Rightarrow> nat \<Rightarrow> h264_payloader \<Rightarrow> bytes list result \<times> h264_payloader" where
  "h264_emit nalu mtu s =
     (if nalu = [] then (Inr [], s)
      else
        let nalu_type = nalu ! 0 AND NALU_TYPE_BITMASK;
            nalu_ref_idc = nalu ! 0 AND NALU_REF_IDC_BITMASK
        in if nalu_type = AUD_NALU_TYPE \<or> nalu_type = FILLER_NALU_TYPE then (Inr [], s)
        else if nalu_type = SPS_NALU_TYPE then (Inr [], s\<lparr>sps_nalu := Some nalu\<rparr>)
        else if nalu_type = PPS_NALU_TYPE then (Inr [], s\<lparr>pps_nalu := Some nalu\<rparr>)
        else
          let stap = (case (sps_nalu s, pps_nalu s) of
                (Some sps, Some pps) \<Rightarrow> if length (stap_a sps pps) \<le> mtu then [stap_a sps pps] else []
              | _ \<Rightarrow> []);
              s = (if sps_nalu s \<noteq> None \<and> pps_nalu s \<noteq> None
                   then s\<lparr>sps_nalu := None, pps_nalu := None\<rparr> else s)
          in if length nalu \<le> mtu then (Inr (stap @ [nalu]), s)
          else
            let max_fragment_size = int mtu - int FUA_HEADER_SIZE;
                nalu_data_length = length nalu - 1
            in if min max_fragment_size (int nalu_data_length) \<le> 0 then (Inr stap, s)
            else (rbind (fragment_loop (fua_fragment nalu_ref_idc nalu_type) (nat max_fragment_size) nalu True 1
                    nalu_data_length) (\<lambda>fs. Inr (stap @ fs)), s))"

lemma next_ind_loop_bounds:
  "next_ind_loop z i bs = Some (p, l) \<Longrightarrow> z \<le> i \<Longrightarrow> i - z \<le> p \<and> i < p + l \<and> p + l \<le> i + length bs"
proof (induction z i bs rule: next_ind_loop.induct)
  case (2 z i b bs)
  consider "b = 0" | "b = 1" "2 \<le> z" | "b \<noteq> 0" "\<not> (b = 1 \<and> 2 \<le> z)" by blast
  then show ?case
  proof cases
    case 1
    then show ?thesis using "2.IH"(1) [OF 1] "2.prems" by simp
  next
    case 2
    then show ?thesis using "2.prems" by auto
  next
    case 3
    then have "next_ind_loop 0 (i + 1) bs = Some (p, l)" using "2.prems"(1) by (simp split: if_splits)
    then show ?thesis using "2.IH"(2) [OF 3] by auto
  qed
qed simp

lemma next_ind_bounds:
  "next_ind b start = Some (p, l) \<Longrightarrow> start \<le> p \<and> start < p + l \<and> p + l \<le> length b"
  using next_ind_loop_bounds [of 0 start "drop start b" p l]
  by (cases "start \<le> length b") (auto simp: next_ind_def)

text \<open>The loop over the start codes: \<open>prev_start\<close> is where the current unit begins.\<close>

function h264_payload_loop ::
    "nat \<Rightarrow> bytes \<Rightarrow> nat \<Rightarrow> h264_payloader \<Rightarrow> bytes list result \<times> h264_payloader" where
  "h264_payload_loop mtu b prev_start s =
     (case next_ind b prev_start of
        Some (start, len) \<Rightarrow>
          (case h264_emit (take (start - prev_start) (drop prev_start b)) mtu s of
             (Inl e, s) \<Rightarrow> (Inl e, s)
           | (Inr ps, s) \<Rightarrow>
               (case h264_payload_loop mtu b (start + len) s of
                  (r, s) \<Rightarrow> (rbind r (\<lambda>qs. Inr (ps @ qs)), s)))
      | None \<Rightarrow> h264_emit (drop prev_start b) mtu s)"
  by pat_completeness auto

termination h264_payload_loop
  by (relation "measure (\<lambda>(mtu, b, prev_start, s). length b - prev_start)")
    (auto dest!: next_ind_bounds)

declare h264_payload_loop.simps [simp del]

definition h264_payload :: "h264_payloader payloader" where
  "h264_payload mtu b s =
     (if b = [] \<or> mtu = 0 then (Inr [], s)
      else (case next_ind b 0 of
          None \<Rightarrow> h264_emit b mtu s
        | Some (start, len) \<Rightarrow> h264_payload_loop mtu b (start + len) s))"

section \<open>The depacketizer\<close>

record h264_packet =
  is_avc :: bool
  fua_buffer :: "bytes option"

definition nalu_prefix :: "bool \<Rightarrow> nat \<Rightarrow> bytes" where
  "nalu_prefix avc n = (if avc then put_u32 (of_nat n) else ANNEXB_NALUSTART_CODE)"

function stapa_loop :: "bool \<Rightarrow> bytes \<Rightarrow> nat \<Rightarrow> bytes result" where
  "stapa_loop avc packet curr_offset =
     (if curr_offset < length packet then
        if curr_offset + 1 < length packet then
          let nalu_size = unat (be16 (packet ! curr_offset) (packet ! (curr_offset + 1)));
              curr_offset' = curr_offset + 2
          in if length packet < curr_offset' + nalu_size then Inl (Err ''StapASizeLargerThanBuffer'')
          else rbind (stapa_loop avc packet (curr_offset' + nalu_size)) (\<lambda>rest.
            Inr (nalu_prefix avc nalu_size @ take nalu_size (drop curr_offset' packet) @ rest))
        else Inl Panic
      else Inr [])"
  by pat_completeness auto

termination stapa_loop
  by (relation "measure (\<lambda>(avc, packet, curr_offset). length packet - curr_offset)") auto

declare stapa_loop.simps [simp del]

definition h264_depacketize :: "bytes \<Rightarrow> h264_packet \<Rightarrow> bytes result \<times> h264_packet" where
  "h264_depacketize packet d =
     (if length packet \<le> 2 then (Inl (Err ''ErrShortPacket''), d)
      else
        let b0 = packet ! 0; nalu_type = b0 AND NALU_TYPE_BITMASK in
        if 1 \<le> nalu_type \<and> nalu_type \<le> 23
        then (Inr (nalu_prefix (is_avc d) (length packet) @ packet), d)
        else if nalu_type = STAPA_NALU_TYPE
        then (stapa_loop (is_avc d) packet 1, d)
        else if nalu_type = FUA_NALU_TYPE then
          let buf = (case fua_buffer d of None \<Rightarrow> [] | Some q \<Rightarrow> q) @ drop FUA_HEADER_SIZE packet;
              b1 = packet ! 1
          in if b1 AND FU_END_BITMASK \<noteq> 0
             then (Inr (nalu_prefix (is_avc d) (length buf + 1)
                     @ [(b0 AND NALU_REF_IDC_BITMASK) OR (b1 AND NALU_TYPE_BITMASK)] @ buf),
                   d\<lparr>fua_buffer := None\<rparr>)
             else (Inr [], d\<lparr>fua_buffer := Some buf\<rparr>)
        else (Inl (Err ''NaluTypeIsNotHandled''), d))"

definition h264_is_partition_head :: "bytes \<Rightarrow> bool" where
  "h264_is_partition_head p =
     (if length p < 2 then False
      else if p ! 0 AND NALU_TYPE_BITMASK = FUA_NALU_TYPE \<or> p ! 0 AND NALU_TYPE_BITMASK = FUB_NALU_TYPE
      then p ! 1 AND FU_START_BITMASK \<noteq> 0 else True)"

text \<open>A receiver that depacketizes the payloads in order and concatenates what it gets.\<close>

fun h264_depacketize_all :: "bytes list \<Rightarrow> h264_packet \<Rightarrow> bytes result \<times> h264_packet" where
  "h264_depacketize_all [] d = (Inr [], d)"
| "h264_depacketize_all (p # ps) d =
     (case h264_depacketize p d of
        (Inl e, d) \<Rightarrow> (Inl e, d)
      | (Inr out, d) \<Rightarrow>
          (case h264_depacketize_all ps d of (r, d) \<Rightarrow> (rbind r (\<lambda>rest. Inr (out @ rest)), d)))"

section \<open>From the stream to the stream\<close>

text \<open>
  The abstract view: a stream is a list of NAL units, in Annex B form with four byte start codes. The
  payloader drops delimiters and filler, holds parameter sets back until the next unit that is
  neither, and sends the two in front of it when they fit one packet; what comes out is the list
  \<open>h264_sent\<close> of units.
\<close>

definition annexb :: "bytes list \<Rightarrow> bytes" where
  "annexb ns = concat (map (\<lambda>n. ANNEXB_NALUSTART_CODE @ n) ns)"

definition h264_stream :: "bool \<Rightarrow> bytes list \<Rightarrow> bytes" where
  "h264_stream avc ns = concat (map (\<lambda>n. nalu_prefix avc (length n) @ n) ns)"

definition nalu_type :: "bytes \<Rightarrow> u8" where
  "nalu_type n = n ! 0 AND NALU_TYPE_BITMASK"

definition h264_sent_one :: "nat \<Rightarrow> bytes \<Rightarrow> h264_payloader \<Rightarrow> bytes list \<times> h264_payloader" where
  "h264_sent_one mtu n s =
     (if nalu_type n = AUD_NALU_TYPE \<or> nalu_type n = FILLER_NALU_TYPE then ([], s)
      else if nalu_type n = SPS_NALU_TYPE then ([], s\<lparr>sps_nalu := Some n\<rparr>)
      else if nalu_type n = PPS_NALU_TYPE then ([], s\<lparr>pps_nalu := Some n\<rparr>)
      else (case (sps_nalu s, pps_nalu s) of
          (Some a, Some b) \<Rightarrow>
            ((if 5 + length a + length b \<le> mtu then [a, b] else []) @ [n], s\<lparr>sps_nalu := None, pps_nalu := None\<rparr>)
        | _ \<Rightarrow> ([n], s)))"

fun h264_sent :: "nat \<Rightarrow> bytes list \<Rightarrow> h264_payloader \<Rightarrow> bytes list \<times> h264_payloader" where
  "h264_sent mtu [] s = ([], s)"
| "h264_sent mtu (n # ns) s =
     (let (out, s) = h264_sent_one mtu n s; (rest, s) = h264_sent mtu ns s in (out @ rest, s))"

text \<open>A unit the wire format can carry: no start code inside or at its end, more than two bytes, a
  type below the aggregation types and a zero first bit.\<close>

definition nalu_ok :: "bytes \<Rightarrow> bool" where
  "nalu_ok n \<longleftrightarrow> 2 < length n \<and> last n \<noteq> 0 \<and> next_ind_loop 0 0 n = None \<and>
     1 \<le> nalu_type n \<and> nalu_type n \<le> 23 \<and> n ! 0 AND 0x80 = 0"

definition params_ok :: "h264_payloader \<Rightarrow> bool" where
  "params_ok s \<longleftrightarrow> (\<forall>a. sps_nalu s = Some a \<longrightarrow> nalu_ok a) \<and> (\<forall>a. pps_nalu s = Some a \<longrightarrow> nalu_ok a)"

subsection \<open>Splitting the stream\<close>

lemma next_ind_loop_shift:
  "z \<le> i \<Longrightarrow> next_ind_loop z (i + k) bs = map_option (\<lambda>(p, l). (p + k, l)) (next_ind_loop z i bs)"
proof (induction z i bs rule: next_ind_loop.induct)
  case (2 z i b bs)
  then show ?case by (cases "b = 0"; cases "b = 1 \<and> 2 \<le> z") auto
qed simp

lemma next_ind_loop_unit:
  "n \<noteq> [] \<Longrightarrow> last n \<noteq> 0 \<Longrightarrow> next_ind_loop z i n = None \<Longrightarrow>
     next_ind_loop z i (n @ ANNEXB_NALUSTART_CODE @ rest) = Some (i + length n, 4)"
proof (induction z i n rule: next_ind_loop.induct)
  case (2 z i b bs)
  show ?case
  proof (cases "bs = []")
    case True
    then show ?thesis using "2.prems" by (auto simp: ANNEXB_NALUSTART_CODE_def split: if_splits)
  next
    case False
    then have l: "last bs \<noteq> 0" using "2.prems" by simp
    consider "b = 0" | "b \<noteq> 0" "\<not> (b = 1 \<and> 2 \<le> z)"
      using "2.prems"(3) by (cases "b = 0"; cases "b = 1 \<and> 2 \<le> z") auto
    then show ?thesis
    proof cases
      case 1
      then show ?thesis using "2.IH"(1) [OF 1 False l] "2.prems"(3) by simp
    next
      case 2
      then have "next_ind_loop z i (b # t) = next_ind_loop 0 (i + 1) t" for t by auto
      then show ?thesis using "2.IH"(2) [OF 2 False l] "2.prems"(3) by simp
    qed
  qed
qed simp

lemma next_ind_unit:
  assumes "nalu_ok n" "start = length pre"
  shows "next_ind (pre @ n @ ANNEXB_NALUSTART_CODE @ rest) start = Some (start + length n, 4)"
    "next_ind (pre @ n) start = None"
proof -
  have n: "n \<noteq> []" "last n \<noteq> 0" "next_ind_loop 0 start n = None"
    using assms(1) next_ind_loop_shift [of 0 0 start n] by (auto simp: nalu_ok_def)
  show "next_ind (pre @ n @ ANNEXB_NALUSTART_CODE @ rest) start = Some (start + length n, 4)"
    using next_ind_loop_unit [OF n] assms(2) by (simp add: next_ind_def)
  show "next_ind (pre @ n) start = None"
    using n(3) assms(2) by (simp add: next_ind_def)
qed

lemma next_ind_first: "next_ind (ANNEXB_NALUSTART_CODE @ rest) 0 = Some (0, 4)"
  by (simp add: next_ind_def ANNEXB_NALUSTART_CODE_def)

text \<open>The loop emits the units one by one.\<close>

fun emit_all :: "nat \<Rightarrow> bytes list \<Rightarrow> h264_payloader \<Rightarrow> bytes list result \<times> h264_payloader" where
  "emit_all mtu [] s = (Inr [], s)"
| "emit_all mtu (n # ns) s =
     (case h264_emit n mtu s of
        (Inl e, s) \<Rightarrow> (Inl e, s)
      | (Inr ps, s) \<Rightarrow> (case emit_all mtu ns s of (r, s) \<Rightarrow> (rbind r (\<lambda>qs. Inr (ps @ qs)), s)))"

lemma h264_payload_loop_units:
  assumes "nalu_ok n" "\<forall>m \<in> set ns. nalu_ok m"
  shows "h264_payload_loop mtu (pre @ n @ annexb ns) (length pre) s = emit_all mtu (n # ns) s"
  using assms
proof (induction ns arbitrary: pre n s)
  case Nil
  then have "next_ind (pre @ n) (length pre) = None" by (intro next_ind_unit) simp_all
  then show ?case
    by (subst h264_payload_loop.simps) (auto simp: annexb_def split: prod.split sum.split)
next
  case (Cons m ns)
  have a: "annexb (m # ns) = ANNEXB_NALUSTART_CODE @ m @ annexb ns" by (simp add: annexb_def)
  have i: "next_ind (pre @ n @ ANNEXB_NALUSTART_CODE @ m @ annexb ns) (length pre) = Some (length pre + length n, 4)"
    using Cons.prems by (intro next_ind_unit) simp_all
  have IH: "h264_payload_loop mtu ((pre @ n @ ANNEXB_NALUSTART_CODE) @ m @ annexb ns)
      (length (pre @ n @ ANNEXB_NALUSTART_CODE)) s = emit_all mtu (m # ns) s" for s
    using Cons.prems by (intro Cons.IH) simp_all
  have l: "length (pre @ n @ ANNEXB_NALUSTART_CODE) = length pre + length n + 4"
    by (simp add: ANNEXB_NALUSTART_CODE_def)
  show ?case
  proof -
    obtain r s' where e: "h264_emit n mtu s = (r, s')" by fastforce
    have "h264_payload_loop mtu (pre @ n @ ANNEXB_NALUSTART_CODE @ m @ annexb ns) (length pre + length n + 4) s'
        = emit_all mtu (m # ns) s'"
      using IH [of s'] unfolding l by simp
    moreover have "take (length pre + length n - length pre) (drop (length pre) (pre @ n @ t)) = n" for t by simp
    ultimately show ?thesis
      unfolding a h264_payload_loop.simps [of mtu _ "length pre" s] i option.case prod.case emit_all.simps(2) [of mtu n]
      by (simp only: e prod.case)
  qed
qed

lemma h264_payload_units:
  assumes "\<forall>m \<in> set ns. nalu_ok m" "ns \<noteq> []" "0 < mtu"
  shows "h264_payload mtu (annexb ns) s = emit_all mtu ns s"
proof (cases ns)
  case (Cons n ms)
  have a: "annexb ns = ANNEXB_NALUSTART_CODE @ n @ annexb ms" by (simp add: annexb_def Cons)
  have "h264_payload_loop mtu (ANNEXB_NALUSTART_CODE @ n @ annexb ms) (length ANNEXB_NALUSTART_CODE) s
      = emit_all mtu (n # ms) s"
    using assms(1) by (intro h264_payload_loop_units) (auto simp: Cons)
  moreover have "ANNEXB_NALUSTART_CODE \<noteq> []" "length ANNEXB_NALUSTART_CODE = 4"
    by (simp_all add: ANNEXB_NALUSTART_CODE_def)
  ultimately show ?thesis
    using assms(3) next_ind_first [of "n @ annexb ms"] unfolding h264_payload_def a by (simp add: Cons)
qed (use assms in simp)

subsection \<open>Single units, aggregates and fragments\<close>

lemma fua_bits:
  fixes x :: u8
  defines "t \<equiv> x AND 0x1F" and "r \<equiv> x AND 0x60"
  shows "(28 OR r) AND 0x1F = 28" "(28 OR r) AND 0x60 = r" "(t OR 0x80) AND 0x40 = 0"
    "(t OR 0x40) AND 0x40 = 0x40" "(t OR 0x40) AND 0x1F = t" "t AND 0x40 = 0"
    "x AND 0x80 = 0 \<Longrightarrow> r OR t = x"
proof -
  show "(28 OR r) AND 0x1F = 28" "(28 OR r) AND 0x60 = r" "(t OR 0x80) AND 0x40 = 0"
    "(t OR 0x40) AND 0x40 = 0x40" "(t OR 0x40) AND 0x1F = t" "t AND 0x40 = 0"
    by (simp_all add: t_def r_def bit.conj_disj_distrib2 and.assoc)
  assume "x AND 0x80 = 0"
  then have "x AND (0x80 OR 0x60 OR 0x1F) = r OR t"
    by (simp only: bit.conj_disj_distrib r_def t_def) simp
  moreover have "(0x80 OR 0x60 OR 0x1F :: u8) = - 1" by simp
  ultimately show "r OR t = x" by (metis and.right_neutral)
qed

lemma depacketize_single:
  "nalu_ok n \<Longrightarrow> h264_depacketize n d = (Inr (h264_stream (is_avc d) [n]), d)"
  by (simp add: h264_depacketize_def nalu_ok_def nalu_type_def h264_stream_def Let_def linorder_not_le)

lemma stapa_loop_step:
  assumes "length a < 65536"
  shows "stapa_loop avc (pre @ put_u16 (of_nat (length a)) @ a @ post) (length pre) =
    rbind (stapa_loop avc (pre @ put_u16 (of_nat (length a)) @ a @ post) (length pre + 2 + length a))
      (\<lambda>rest. Inr (nalu_prefix avc (length a) @ a @ rest))"
proof -
  let ?w = "of_nat (length a) :: u16"
  let ?p = "pre @ put_u16 ?w @ a @ post"
  have "?p ! length pre = ucast (drop_bit 8 ?w)" "?p ! (length pre + 1) = ucast ?w"
    by (simp_all add: put_u16_def nth_append)
  then have "unat (be16 (?p ! length pre) (?p ! (length pre + 1))) = length a"
    using assms by (simp add: be16_put unat_of_nat16)
  moreover have "take (length a) (drop (length pre + 2) ?p) = a" by (simp add: put_u16_def)
  ultimately show ?thesis
    by (subst stapa_loop.simps) (simp add: Let_def)
qed

lemma stapa_loop_end: "length p \<le> i \<Longrightarrow> stapa_loop avc p i = Inr []"
  by (subst stapa_loop.simps) simp

lemma depacketize_stap_a:
  assumes "length a < 65536" "length b < 65536"
  shows "h264_depacketize (stap_a a b) d = (Inr (h264_stream (is_avc d) [a, b]), d)"
proof -
  let ?a = "put_u16 (of_nat (length a)) @ a" and ?b = "put_u16 (of_nat (length b)) @ b"
  have s: "stap_a a b = [OUTPUT_STAP_AHEADER] @ ?a @ ?b" by (simp add: stap_a_def)
  have "stapa_loop (is_avc d) (stap_a a b) 1 = Inr (h264_stream (is_avc d) [a, b])"
    using stapa_loop_step [OF assms(1), of "is_avc d" "[OUTPUT_STAP_AHEADER]" ?b]
      stapa_loop_step [OF assms(2), of "is_avc d" "OUTPUT_STAP_AHEADER # ?a" "[]"]
    by (simp add: s stapa_loop_end h264_stream_def)
  then show ?thesis
    by (simp add: h264_depacketize_def s h264_consts Let_def)
qed

lemma depacketize_fragment:
  fixes n :: bytes
  defines "f \<equiv> fua_fragment (n ! 0 AND NALU_REF_IDC_BITMASK) (n ! 0 AND NALU_TYPE_BITMASK)"
  assumes "p \<noteq> []"
  shows "h264_depacketize (f True final p) d =
      (Inr [], d\<lparr>fua_buffer := Some ((case fua_buffer d of None \<Rightarrow> [] | Some q \<Rightarrow> q) @ p)\<rparr>)"
    "h264_depacketize (f False False p) d =
      (Inr [], d\<lparr>fua_buffer := Some ((case fua_buffer d of None \<Rightarrow> [] | Some q \<Rightarrow> q) @ p)\<rparr>)"
    "n ! 0 AND 0x80 = 0 \<Longrightarrow> h264_depacketize (f False True p) d =
      (Inr (nalu_prefix (is_avc d) (length (case fua_buffer d of None \<Rightarrow> [] | Some q \<Rightarrow> q) + length p + 1)
         @ [n ! 0] @ (case fua_buffer d of None \<Rightarrow> [] | Some q \<Rightarrow> q) @ p), d\<lparr>fua_buffer := None\<rparr>)"
  using assms(2) fua_bits [of "n ! 0"]
  by (simp_all add: f_def fua_fragment_def h264_depacketize_def Let_def h264_consts Suc_le_eq)

lemma depacketize_later_fragments:
  fixes n :: bytes
  defines "f \<equiv> fua_fragment (n ! 0 AND NALU_REF_IDC_BITMASK) (n ! 0 AND NALU_TYPE_BITMASK)"
  assumes "ps \<noteq> []" "\<forall>p \<in> set ps. p \<noteq> []" "n ! 0 AND 0x80 = 0"
  shows "h264_depacketize_all (mark_fragments f False ps) (d\<lparr>fua_buffer := Some q\<rparr>) =
    (Inr (nalu_prefix (is_avc d) (length q + length (concat ps) + 1) @ [n ! 0] @ q @ concat ps),
     d\<lparr>fua_buffer := None\<rparr>)"
  using assms(2,3)
proof (induction ps arbitrary: q)
  case (Cons p ps)
  have p: "p \<noteq> []" using Cons.prems by simp
  show ?case
  proof (cases "ps = []")
    case True
    then show ?thesis
      using depacketize_fragment(3) [OF p assms(4), of "d\<lparr>fua_buffer := Some q\<rparr>"]
      by (simp add: f_def)
  next
    case False
    then show ?thesis
      using depacketize_fragment(2) [OF p, of n "d\<lparr>fua_buffer := Some q\<rparr>"] Cons.IH [of "q @ p"] Cons.prems
      by (simp add: f_def add.assoc)
  qed
qed simp

lemma depacketize_fragments:
  assumes ok: "nalu_ok n" and k: "0 < k" "k < length n - 1" and d: "fua_buffer d = None"
  shows "h264_depacketize_all (mark_fragments (fua_fragment (n ! 0 AND NALU_REF_IDC_BITMASK)
      (n ! 0 AND NALU_TYPE_BITMASK)) True (pieces k (drop 1 n))) d = (Inr (h264_stream (is_avc d) [n]), d)"
proof -
  have n: "n \<noteq> []" "n ! 0 AND 0x80 = 0" using ok by (auto simp: nalu_ok_def)
  have c: "pieces k (drop 1 n) = take k (drop 1 n) # pieces k (drop k (drop 1 n))"
    using k by (subst pieces.simps) auto
  have "drop k (drop 1 n) \<noteq> []" using k by simp
  then have ne: "pieces k (drop k (drop 1 n)) \<noteq> []" using pieces_eq_Nil [OF k(1)] by blast
  have all: "\<forall>p \<in> set (pieces k (drop k (drop 1 n))). p \<noteq> []" using pieces_length by blast
  have p: "take k (drop 1 n) \<noteq> []" using k by auto
  have whole: "n ! 0 # take k (drop 1 n) @ drop k (drop 1 n) = n"
    using n(1) by (cases n) simp_all
  have len: "length (take k (drop 1 n)) + length (drop k (drop 1 n)) + 1 = length n"
    using k by simp
  have [simp]: "d\<lparr>fua_buffer := None\<rparr> = d" using d by simp
  show ?thesis
    using depacketize_fragment(1) [OF p, of n False d] depacketize_later_fragments [OF ne all n(2), where d = d and q = "take k (drop 1 n)"]
      concat_pieces [OF k(1)] ne len whole
    unfolding c by (simp add: d h264_stream_def)
qed

subsection \<open>The stream comes back\<close>

lemma depacketize_all_append:
  "h264_depacketize_all ps d = (Inr x, d') \<Longrightarrow> h264_depacketize_all qs d' = (Inr y, d'') \<Longrightarrow>
     h264_depacketize_all (ps @ qs) d = (Inr (x @ y), d'')"
proof (induction ps arbitrary: d x)
  case (Cons p ps)
  obtain r d1 where e: "h264_depacketize p d = (r, d1)" by fastforce
  with Cons.prems(1) obtain out where r: "r = Inr out" by (cases r) auto
  obtain r2 d2 where e2: "h264_depacketize_all ps d1 = (r2, d2)" by fastforce
  with Cons.prems(1) e r obtain x' where x: "r2 = Inr x'" "x = out @ x'" "d2 = d'" by (cases r2) auto
  then show ?case
    using Cons.IH [of d1 x'] Cons.prems(2) e r e2 by simp
qed simp

lemma h264_stream_append: "h264_stream avc (xs @ ys) = h264_stream avc xs @ h264_stream avc ys"
  by (simp add: h264_stream_def)

lemma length_stap_a: "length (stap_a a b) = 5 + length a + length b"
  by (simp add: stap_a_def)

text \<open>A unit that is no parameter set, delimiter or filler: alone or in fragments.\<close>

definition h264_unit_payloads :: "nat \<Rightarrow> bytes \<Rightarrow> bytes list" where
  "h264_unit_payloads mtu n =
     (if length n \<le> mtu then [n]
      else mark_fragments (fua_fragment (n ! 0 AND NALU_REF_IDC_BITMASK) (n ! 0 AND NALU_TYPE_BITMASK)) True
        (pieces (mtu - 2) (drop 1 n)))"

lemma depacketize_unit:
  assumes "nalu_ok n" "3 \<le> mtu" "fua_buffer d = None"
  shows "h264_depacketize_all (h264_unit_payloads mtu n) d = (Inr (h264_stream (is_avc d) [n]), d)"
proof (cases "length n \<le> mtu")
  case True
  then show ?thesis using depacketize_single [OF assms(1), of d] by (simp add: h264_unit_payloads_def)
next
  case False
  then show ?thesis
    using depacketize_fragments [OF assms(1), of "mtu - 2" d] assms(2,3) by (simp add: h264_unit_payloads_def)
qed

lemma h264_emit_unit:
  assumes "nalu_ok n" "3 \<le> mtu" "nalu_type n \<notin> {AUD_NALU_TYPE, FILLER_NALU_TYPE, SPS_NALU_TYPE, PPS_NALU_TYPE}"
  shows "h264_emit n mtu s =
    (Inr ((case (sps_nalu s, pps_nalu s) of
         (Some a, Some b) \<Rightarrow> if 5 + length a + length b \<le> mtu then [stap_a a b] else [] | _ \<Rightarrow> [])
       @ h264_unit_payloads mtu n),
     (if sps_nalu s \<noteq> None \<and> pps_nalu s \<noteq> None then s\<lparr>sps_nalu := None, pps_nalu := None\<rparr> else s))"
proof -
  have n: "n \<noteq> []" using assms(1) by (auto simp: nalu_ok_def)
  have m: "nat (int mtu - int FUA_HEADER_SIZE) = mtu - 2" "0 < mtu - 2"
    using assms(2) by (simp_all add: FUA_HEADER_SIZE_def)
  have f: "fragment_loop (fua_fragment r t) (mtu - 2) n True 1 (length n - 1) =
      Inr (mark_fragments (fua_fragment r t) True (pieces (mtu - 2) (drop 1 n)))" for r t
    using n by (intro fragment_loop_pieces [OF m(2)]) (cases n; simp)
  have "\<not> min (int mtu - int FUA_HEADER_SIZE) (int (length n - 1)) \<le> 0" if "\<not> length n \<le> mtu"
    using that assms(2) by (auto simp: FUA_HEADER_SIZE_def min_def)
  then show ?thesis
    using n assms(3) f
    by (cases "sps_nalu s"; cases "pps_nalu s")
      (simp_all add: h264_emit_def Let_def nalu_type_def [symmetric] m(1) h264_unit_payloads_def length_stap_a)
qed

lemma h264_emit_sent:
  assumes ok: "nalu_ok n" "params_ok s" and mtu: "3 \<le> mtu" "mtu < 65536" and d: "fua_buffer d = None"
  shows "\<exists>ps out s'. h264_emit n mtu s = (Inr ps, s') \<and> h264_sent_one mtu n s = (out, s') \<and> params_ok s' \<and>
    h264_depacketize_all ps d = (Inr (h264_stream (is_avc d) out), d)"
proof -
  have n: "n \<noteq> []" using ok by (auto simp: nalu_ok_def)
  have e: "h264_depacketize_all [] d = (Inr (h264_stream (is_avc d) []), d)"
    by (simp add: h264_stream_def)
  consider (drop) "nalu_type n = AUD_NALU_TYPE \<or> nalu_type n = FILLER_NALU_TYPE"
    | (sps) "nalu_type n = SPS_NALU_TYPE" | (pps) "nalu_type n = PPS_NALU_TYPE"
    | (unit) "nalu_type n \<notin> {AUD_NALU_TYPE, FILLER_NALU_TYPE, SPS_NALU_TYPE, PPS_NALU_TYPE}" by blast
  then show ?thesis
  proof cases
    case drop
    then show ?thesis
      using n ok e by (auto simp: h264_emit_def h264_sent_one_def nalu_type_def)
  next
    case sps
    then show ?thesis
      using n ok e by (auto simp: h264_emit_def h264_sent_one_def nalu_type_def params_ok_def h264_consts)
  next
    case pps
    then show ?thesis
      using n ok e by (auto simp: h264_emit_def h264_sent_one_def nalu_type_def params_ok_def h264_consts)
  next
    case unit
    note em = h264_emit_unit [OF ok(1) mtu(1) unit, of s] and du = depacketize_unit [OF ok(1) mtu(1) d]
    show ?thesis
    proof (cases "sps_nalu s \<noteq> None \<and> pps_nalu s \<noteq> None")
      case True
      then obtain a b where ab: "sps_nalu s = Some a" "pps_nalu s = Some b" by auto
      have so: "h264_sent_one mtu n s = ((if 5 + length a + length b \<le> mtu then [a, b] else []) @ [n],
          s\<lparr>sps_nalu := None, pps_nalu := None\<rparr>)"
        using unit ab by (auto simp: h264_sent_one_def)
      have "h264_depacketize_all (if 5 + length a + length b \<le> mtu then [stap_a a b] else []) d =
          (Inr (h264_stream (is_avc d) (if 5 + length a + length b \<le> mtu then [a, b] else [])), d)"
        using depacketize_stap_a [of a b d] mtu(2) e by simp
      from depacketize_all_append [OF this du] show ?thesis
        using em ab so by (auto simp: params_ok_def h264_stream_append)
    next
      case False
      then have "h264_sent_one mtu n s = ([n], s)"
        using unit by (auto simp: h264_sent_one_def split: option.splits)
      with False em du ok(2) show ?thesis
        by (cases "sps_nalu s"; cases "pps_nalu s") auto
    qed
  qed
qed

lemma emit_all_sent:
  assumes "\<forall>n \<in> set ns. nalu_ok n" "params_ok s" "3 \<le> mtu" "mtu < 65536" "fua_buffer d = None"
  shows "\<exists>ps out s'. emit_all mtu ns s = (Inr ps, s') \<and> h264_sent mtu ns s = (out, s') \<and>
    h264_depacketize_all ps d = (Inr (h264_stream (is_avc d) out), d)"
  using assms(1,2)
proof (induction ns arbitrary: s)
  case Nil
  then show ?case by (simp add: h264_stream_def)
next
  case (Cons n ns)
  have n: "nalu_ok n" using Cons.prems(1) by simp
  obtain ps out s1 where 1: "h264_emit n mtu s = (Inr ps, s1)" "h264_sent_one mtu n s = (out, s1)" "params_ok s1"
    "h264_depacketize_all ps d = (Inr (h264_stream (is_avc d) out), d)"
    using h264_emit_sent [OF n Cons.prems(2) assms(3,4,5)] by blast
  obtain qs out2 s2 where 2: "emit_all mtu ns s1 = (Inr qs, s2)" "h264_sent mtu ns s1 = (out2, s2)"
    "h264_depacketize_all qs d = (Inr (h264_stream (is_avc d) out2), d)"
    using Cons.IH [OF _ 1(3)] Cons.prems(1) by fastforce
  from depacketize_all_append [OF 1(4) 2(3)] 1 2 show ?case
    by (simp add: h264_stream_append)
qed



text \<open>Parameter sets that do not fit one packet together are dropped, and a unit of at most two
  bytes is sent in a payload the depacketizer refuses.\<close>

lemma h264_parameter_sets_dropped:
  "fst (h264_emit [0x65, 1, 2] 8 \<lparr>sps_nalu = Some [0x67, 1], pps_nalu = Some [0x68, 1]\<rparr>) = Inr [[0x65, 1, 2]]"
  by (simp add: h264_emit_def h264_consts stap_a_def put_u16_def Let_def)

lemma h264_short_unit_refused:
  "fst (h264_emit [0x65, 1] 8 \<lparr>sps_nalu = None, pps_nalu = None\<rparr>) = Inr [[0x65, 1]]"
  "fst (h264_depacketize [0x65, 1] d) = Inl (Err ''ErrShortPacket'')"
  by (simp_all add: h264_emit_def h264_depacketize_def h264_consts Let_def)

section \<open>The payloads fit\<close>

lemma h264_emit_fits:
  assumes "h264_emit n mtu s = (Inr ps, s')" "p \<in> set ps"
  shows "length p \<le> mtu"
proof (cases "n = [] \<or> nalu_type n \<in> {AUD_NALU_TYPE, FILLER_NALU_TYPE, SPS_NALU_TYPE, PPS_NALU_TYPE}")
  case True
  then show ?thesis using assms by (auto simp: h264_emit_def nalu_type_def Let_def split: if_splits)
next
  case False
  let ?stap = "case (sps_nalu s, pps_nalu s) of
      (Some a, Some b) \<Rightarrow> if length (stap_a a b) \<le> mtu then [stap_a a b] else [] | _ \<Rightarrow> []"
  have st: "length q \<le> mtu" if "q \<in> set ?stap" for q
    using that by (auto split: option.splits if_splits)
  show ?thesis
  proof (cases "length n \<le> mtu")
    case True
    then have "ps = ?stap @ [n]"
      using False assms(1) by (auto simp: h264_emit_def nalu_type_def Let_def)
    then show ?thesis using st assms(2) True by auto
  next
    case long: False
    show ?thesis
    proof (cases "mtu \<le> 2")
      case True
      then have "ps = ?stap"
        using False long assms(1) by (auto simp: h264_emit_def nalu_type_def Let_def FUA_HEADER_SIZE_def)
      then show ?thesis using st assms(2) by auto
    next
      case big: False
      let ?f = "fua_fragment (n ! 0 AND NALU_REF_IDC_BITMASK) (n ! 0 AND NALU_TYPE_BITMASK)"
      have "fragment_loop ?f (mtu - 2) n True 1 (length n - 1) = Inr (mark_fragments ?f True (pieces (mtu - 2) (drop 1 n)))"
        using big long by (intro fragment_loop_pieces) auto
      moreover have "nat (int mtu - int FUA_HEADER_SIZE) = mtu - 2"
          "\<not> min (int mtu - int FUA_HEADER_SIZE) (int (length n - 1)) \<le> 0"
        using big long by (auto simp: FUA_HEADER_SIZE_def)
      ultimately have "ps = ?stap @ mark_fragments ?f True (pieces (mtu - 2) (drop 1 n))"
        using False long assms(1) by (auto simp: h264_emit_def nalu_type_def Let_def)
      then show ?thesis
        using st assms(2) big
        by (auto dest!: mark_fragments_set pieces_length simp: fua_fragment_def)
    qed
  qed
qed

lemma h264_loop_fits:
  "h264_payload_loop mtu b i s = (Inr ps, s') \<Longrightarrow> p \<in> set ps \<Longrightarrow> length p \<le> mtu"
proof (induction mtu b i s arbitrary: ps rule: h264_payload_loop.induct)
  case (1 mtu b i s)
  show ?case
  proof (cases "next_ind b i")
    case None
    then show ?thesis
      using "1.prems" h264_emit_fits by (subst (asm) h264_payload_loop.simps) simp
  next
    case (Some a)
    obtain st l where a: "a = (st, l)" by fastforce
    obtain r s1 where e: "h264_emit (take (st - i) (drop i b)) mtu s = (r, s1)" by fastforce
    obtain r2 s2 where l: "h264_payload_loop mtu b (st + l) s1 = (r2, s2)" by fastforce
    obtain qs ps2 where q: "r = Inr qs" "r2 = Inr ps2" "ps = qs @ ps2" "s2 = s'"
      using "1.prems"(1) Some a e l
      by (subst (asm) h264_payload_loop.simps) (cases r; cases r2; auto)
    show ?thesis
      using "1.prems"(2) h264_emit_fits [OF e [unfolded q(1)]] "1.IH" [OF Some a [symmetric] e [symmetric] q(1)] l q
      by auto
  qed
qed

interpretation h264: bounded_payloader h264_payload
proof
  fix mtu b s ps s' p
  assume "h264_payload mtu b s = (Inr ps, s')" "p \<in> set ps"
  then show "length p \<le> mtu"
    using h264_emit_fits h264_loop_fits
    by (auto simp: h264_payload_def split: if_splits option.splits)
qed

text \<open>
  The packets a packetizer makes from an H.264 stream are encodable, fit its limit on the packet
  size and decode to themselves, when no send time extension is asked for.
\<close>

theorem h264_packets_fit:
  assumes "12 \<le> pz_mtu z" "pz_abs_send_time z = 0" "pz_payload_type z < 128"
    and "packetize h264_payload now b samples z = (Inr pkts, z')" and "pkt \<in> set pkts"
  shows "\<exists>bs. rtp_packet_marshal pkt = Inr bs \<and> length bs \<le> pz_mtu z \<and> rtp_packet_unmarshal bs = Inr pkt"
  using assms by (rule h264.packetize_fits)

end
