(* ===== verification/Rtcp_Header.thy ===== *)
theory Rtcp_Header
  imports Rtp_Header
begin

unbundle bit_operations_syntax

text \<open>
  The header all RTCP packets share (\<^verbatim>\<open>rtc-rtcp/src/header.rs\<close>), with its round trip.
\<close>

datatype packet_type =
    Unsupported
  | SenderReport
  | ReceiverReport
  | SourceDescription
  | Goodbye
  | ApplicationDefined
  | TransportSpecificFeedback
  | PayloadSpecificFeedback
  | ExtendedReport

definition packet_type_u8 :: "packet_type \<Rightarrow> u8" where
  "packet_type_u8 t = (case t of Unsupported \<Rightarrow> 0 | SenderReport \<Rightarrow> 200 | ReceiverReport \<Rightarrow> 201
    | SourceDescription \<Rightarrow> 202 | Goodbye \<Rightarrow> 203 | ApplicationDefined \<Rightarrow> 204
    | TransportSpecificFeedback \<Rightarrow> 205 | PayloadSpecificFeedback \<Rightarrow> 206 | ExtendedReport \<Rightarrow> 207)"

definition packet_type_from :: "u8 \<Rightarrow> packet_type" where
  "packet_type_from b =
     (if b = 200 then SenderReport else if b = 201 then ReceiverReport
      else if b = 202 then SourceDescription else if b = 203 then Goodbye
      else if b = 204 then ApplicationDefined else if b = 205 then TransportSpecificFeedback
      else if b = 206 then PayloadSpecificFeedback else if b = 207 then ExtendedReport
      else Unsupported)"

definition RTP_VERSION :: u8 where "RTP_VERSION = 2"
definition COUNT_MASK :: u8 where "COUNT_MASK = 0x1F"
definition SSRC_LENGTH :: nat where "SSRC_LENGTH = 4"

record rtcp_header =
  rtcp_padding :: bool
  rtcp_count :: u8
  rtcp_packet_type :: packet_type
  rtcp_length :: u16

definition rtcp_header_marshal_to :: "nat \<Rightarrow> rtcp_header \<Rightarrow> bytes result" where
  "rtcp_header_marshal_to n h =
     (if rtcp_count h > 31 then Inl (Err ''InvalidHeader'')
      else if n < HEADER_LENGTH then Inl (Err ''BufferTooShort'')
      else Inr (put_u8 (push_bit VERSION_SHIFT RTP_VERSION OR
                 push_bit PADDING_SHIFT (if rtcp_padding h then 1 else 0) OR rtcp_count h)
        @ put_u8 (packet_type_u8 (rtcp_packet_type h)) @ put_u16 (rtcp_length h)))"

definition rtcp_header_unmarshal :: "bytes \<Rightarrow> (rtcp_header \<times> bytes) result" where
  "rtcp_header_unmarshal raw =
     (if length raw < HEADER_LENGTH then Inl (Err ''PacketTooShort'')
      else rbind (get_u8 raw) (\<lambda>(b0, raw).
        if drop_bit VERSION_SHIFT b0 AND VERSION_MASK \<noteq> RTP_VERSION then Inl (Err ''BadVersion'')
        else rbind (get_u8 raw) (\<lambda>(t, raw). rbind (get_u16 raw) (\<lambda>(l, raw).
          Inr (\<lparr>rtcp_padding = drop_bit PADDING_SHIFT b0 AND PADDING_MASK > 0,
                rtcp_count = b0 AND COUNT_MASK, rtcp_packet_type = packet_type_from t,
                rtcp_length = l\<rparr>, raw)))))"

lemma packet_type_from_u8 [simp]: "packet_type_from (packet_type_u8 t) = t"
  by (cases t) (simp_all add: packet_type_from_def packet_type_u8_def)

lemma rtcp_b0:
  fixes c :: u8 and p :: bool
  assumes "c \<le> 31"
  defines "b0 \<equiv> push_bit 6 2 OR push_bit 5 (if p then 1 else 0) OR c"
  shows "drop_bit 6 b0 AND 3 = 2" "0 < (drop_bit 5 b0 AND 1) \<longleftrightarrow> p" "b0 AND 31 = c"
proof -
  have c: "unat c < 2 ^ 5" using assms by (simp add: word_le_nat_alt)
  note d = bit_smallD [OF c]
  have h: "push_bit 6 2 OR push_bit 5 (if p then 1 else 0) = (if p then 0xA0 else 0x80 :: u8)" by simp
  have b: "b0 = (if p then 0xA0 else 0x80) OR c" unfolding b0_def or.assoc [symmetric] h ..
  have dc: "drop_bit 5 c = 0" "drop_bit 6 c = 0"
    by (rule bit_word_eqI; auto simp: bit_simps dest: d)+
  have ct: "c AND 31 = c"
  proof -
    have "c AND mask 5 = c" using take_bit_small [OF c] by (simp add: take_bit_eq_mask)
    then show ?thesis by (simp add: mask_eq_exp_minus_1)
  qed
  show "drop_bit 6 b0 AND 3 = 2" "0 < (drop_bit 5 b0 AND 1) \<longleftrightarrow> p"
    by (cases p; simp add: b dc)+
  show "b0 AND 31 = c"
    by (cases p) (simp_all add: b bit.conj_disj_distrib2 ct)
qed

lemma rtcp_header_round_trip:
  assumes "rtcp_count h \<le> 31"
  shows "\<exists>bs. (\<forall>n \<ge> 4. rtcp_header_marshal_to n h = Inr bs) \<and> length bs = 4 \<and>
    (\<forall>rest. rtcp_header_unmarshal (bs @ rest) = Inr (h, rest))"
proof -
  define b0 where "b0 = push_bit 6 2 OR push_bit 5 (if rtcp_padding h then 1 else 0) OR rtcp_count h"
  note b = rtcp_b0 [OF assms, of "rtcp_padding h", folded b0_def]
  let ?bs = "put_u8 b0 @ put_u8 (packet_type_u8 (rtcp_packet_type h)) @ put_u16 (rtcp_length h)"
  have "rtcp_header_marshal_to n h = Inr ?bs" if "4 \<le> n" for n
    using that assms
    by (simp add: rtcp_header_marshal_to_def b0_def rtp_consts RTP_VERSION_def linorder_not_less)
  moreover have "rtcp_header_unmarshal (?bs @ rest) = Inr (h, rest)" for rest
    using b by (simp add: rtcp_header_unmarshal_def rtp_consts RTP_VERSION_def COUNT_MASK_def)
  ultimately show ?thesis by (intro exI [of _ ?bs]) simp
qed

end
