(* ===== verification/Srtp_Cipher.thy ===== *)
theory Srtp_Cipher
  imports Rtcp_Header
begin

unbundle bit_operations_syntax

text \<open>
  The ciphers of SRTP (\<^verbatim>\<open>rtc-srtp/src/cipher/\<close>, \<^verbatim>\<open>key_derivation.rs\<close>, \<^verbatim>\<open>protection_profile.rs\<close>): the
  derivation of the session keys, AES in counter mode with HMAC-SHA1, AES-GCM, and their common
  interface. The block cipher, the key stream, the HMAC and GCM are parameters. The lemmas show
  that both ciphers undo their own encryption of RTP and RTCP packets, and what an accepted packet
  proves.
\<close>

section \<open>The primitives\<close>

text \<open>
  AES, AES in counter mode, HMAC-SHA1 and AES-GCM come from crates. They are the fields of a record,
  an argument of every definition: one block of AES-128, the first \<open>n\<close> bytes of the AES-128-CTR key
  stream for a key and an initial counter, the HMAC for a key and a message, and the sealing and
  opening of AES-128-GCM for a key, a nonce and additional data.
\<close>

record crypto =
  aes128_block :: "bytes \<Rightarrow> bytes \<Rightarrow> bytes"
  aes128_ctr :: "bytes \<Rightarrow> bytes \<Rightarrow> nat \<Rightarrow> bytes"
  hmac_sha1 :: "bytes \<Rightarrow> bytes \<Rightarrow> bytes"
  gcm_seal :: "bytes \<Rightarrow> bytes \<Rightarrow> bytes \<Rightarrow> bytes \<Rightarrow> bytes"
  gcm_open :: "bytes \<Rightarrow> bytes \<Rightarrow> bytes \<Rightarrow> bytes \<Rightarrow> bytes option"

text \<open>What the code relies on: the lengths, and that opening undoes sealing.\<close>

definition crypto_ok :: "crypto \<Rightarrow> bool" where
  "crypto_ok c \<longleftrightarrow>
     (\<forall>k b. length (aes128_block c k b) = 16) \<and>
     (\<forall>k iv n. length (aes128_ctr c k iv n) = n) \<and>
     (\<forall>k m. length (hmac_sha1 c k m) = 20) \<and>
     (\<forall>k n a m. gcm_open c k n a (gcm_seal c k n a m) = Some m) \<and>
     (\<forall>k n a m. length (gcm_seal c k n a m) = length m + 16)"

definition xor_bytes :: "bytes \<Rightarrow> bytes \<Rightarrow> bytes" where
  "xor_bytes ks xs = map2 (XOR) ks xs"

lemma length_xor_bytes [simp]: "length (xor_bytes ks xs) = min (length ks) (length xs)"
  by (simp add: xor_bytes_def)

lemma xor_bytes_twice: "length xs \<le> length ks \<Longrightarrow> xor_bytes ks (xor_bytes ks xs) = xs"
proof (induction xs arbitrary: ks)
  case (Cons x xs)
  then show ?case by (cases ks) (simp_all add: xor_bytes_def xor.assoc [symmetric])
qed (simp add: xor_bytes_def)

text \<open>Index-wise exclusive or of the first bytes of a buffer, the rest unchanged.\<close>

definition xor_prefix :: "bytes \<Rightarrow> bytes \<Rightarrow> bytes" where
  "xor_prefix ks xs = xor_bytes ks xs @ drop (length ks) xs"

section \<open>Protection profiles\<close>

datatype protection_profile =
    Aes128CmHmacSha1_80
  | Aes128CmHmacSha1_32
  | AeadAes128Gcm
  | AeadAes256Gcm

definition key_len :: "protection_profile \<Rightarrow> nat" where
  "key_len p = (case p of Aes128CmHmacSha1_32 \<Rightarrow> 16 | Aes128CmHmacSha1_80 \<Rightarrow> 16 | AeadAes128Gcm \<Rightarrow> 16
    | AeadAes256Gcm \<Rightarrow> 32)"

definition salt_len :: "protection_profile \<Rightarrow> nat" where
  "salt_len p = (case p of Aes128CmHmacSha1_32 \<Rightarrow> 14 | Aes128CmHmacSha1_80 \<Rightarrow> 14 | AeadAes128Gcm \<Rightarrow> 12
    | AeadAes256Gcm \<Rightarrow> 12)"

definition rtp_auth_tag_len :: "protection_profile \<Rightarrow> nat" where
  "rtp_auth_tag_len p = (case p of Aes128CmHmacSha1_80 \<Rightarrow> 10 | Aes128CmHmacSha1_32 \<Rightarrow> 4
    | AeadAes128Gcm \<Rightarrow> 0 | AeadAes256Gcm \<Rightarrow> 0)"

definition rtcp_auth_tag_len :: "protection_profile \<Rightarrow> nat" where
  "rtcp_auth_tag_len p = (case p of Aes128CmHmacSha1_80 \<Rightarrow> 10 | Aes128CmHmacSha1_32 \<Rightarrow> 10
    | AeadAes128Gcm \<Rightarrow> 0 | AeadAes256Gcm \<Rightarrow> 0)"

definition aead_auth_tag_len :: "protection_profile \<Rightarrow> nat" where
  "aead_auth_tag_len p = (case p of Aes128CmHmacSha1_80 \<Rightarrow> 0 | Aes128CmHmacSha1_32 \<Rightarrow> 0
    | AeadAes128Gcm \<Rightarrow> 16 | AeadAes256Gcm \<Rightarrow> 16)"

definition auth_key_len :: "protection_profile \<Rightarrow> nat" where
  "auth_key_len p = (case p of Aes128CmHmacSha1_80 \<Rightarrow> 20 | Aes128CmHmacSha1_32 \<Rightarrow> 20
    | AeadAes128Gcm \<Rightarrow> 0 | AeadAes256Gcm \<Rightarrow> 0)"

section \<open>Key derivation\<close>

definition LABEL_SRTP_ENCRYPTION :: u8 where "LABEL_SRTP_ENCRYPTION = 0"
definition LABEL_SRTP_AUTHENTICATION_TAG :: u8 where "LABEL_SRTP_AUTHENTICATION_TAG = 1"
definition LABEL_SRTP_SALT :: u8 where "LABEL_SRTP_SALT = 2"
definition LABEL_SRTCP_ENCRYPTION :: u8 where "LABEL_SRTCP_ENCRYPTION = 3"
definition LABEL_SRTCP_AUTHENTICATION_TAG :: u8 where "LABEL_SRTCP_AUTHENTICATION_TAG = 4"
definition LABEL_SRTCP_SALT :: u8 where "LABEL_SRTCP_SALT = 5"
definition SRTCP_INDEX_SIZE :: nat where "SRTCP_INDEX_SIZE = 4"

text \<open>
  The panics: a salt longer than the key, a key of less than eight bytes, and a key that is not
  sixteen bytes, which \<^verbatim>\<open>GenericArray::from_slice\<close> refuses. Block \<open>i\<close> is written at offset
  \<open>i * n_master_key\<close>.
\<close>

definition aes_cm_key_derivation ::
    "crypto \<Rightarrow> u8 \<Rightarrow> bytes \<Rightarrow> bytes \<Rightarrow> nat \<Rightarrow> nat \<Rightarrow> bytes result" where
  "aes_cm_key_derivation c label master_key master_salt index_over_kdr out_len =
     (if index_over_kdr \<noteq> 0 then Inl (Err ''UnsupportedIndexOverKdr'')
      else
        let n_master_key = length master_key; n_master_salt = length master_salt in
        if n_master_key < n_master_salt \<or> n_master_key \<le> 7 \<or> n_master_key \<noteq> 16 then Inl Panic
        else
          let prf_in = master_salt @ replicate (n_master_key - n_master_salt) 0;
              prf_in = prf_in[7 := prf_in ! 7 XOR label];
              blk = (\<lambda>i. aes128_block c master_key
                      (prf_in[n_master_key - 2 := of_nat (i div 256), n_master_key - 1 := of_nat i]));
              blocks = (out_len + n_master_key - 1) div n_master_key
          in Inr (take out_len (concat (map blk [0..<blocks]))))"

definition generate_counter :: "u16 \<Rightarrow> u32 \<Rightarrow> u32 \<Rightarrow> bytes \<Rightarrow> bytes result" where
  "generate_counter sn roc ss session_salt =
     (if length session_salt > 16 then Inl Panic
      else Inr (xor_prefix session_salt
        ([0, 0, 0, 0] @ put_u32 ss @ put_u32 roc @ put_u32 (push_bit 16 (ucast sn)))))"

section \<open>AES counter mode with HMAC-SHA1\<close>

text \<open>A keyed \<^verbatim>\<open>HmacSha1\<close> object is its key.\<close>

record cm_cipher =
  cm_profile :: protection_profile
  cm_srtp_key :: bytes
  cm_srtp_salt :: bytes
  cm_srtp_auth :: bytes
  cm_srtcp_key :: bytes
  cm_srtcp_salt :: bytes
  cm_srtcp_auth :: bytes

definition cm_new :: "crypto \<Rightarrow> protection_profile \<Rightarrow> bytes \<Rightarrow> bytes \<Rightarrow> cm_cipher result" where
  "cm_new c profile mk ms =
     rbind (aes_cm_key_derivation c LABEL_SRTP_ENCRYPTION mk ms 0 (length mk)) (\<lambda>k.
     rbind (aes_cm_key_derivation c LABEL_SRTCP_ENCRYPTION mk ms 0 (length mk)) (\<lambda>kc.
     rbind (aes_cm_key_derivation c LABEL_SRTP_SALT mk ms 0 (length ms)) (\<lambda>s.
     rbind (aes_cm_key_derivation c LABEL_SRTCP_SALT mk ms 0 (length ms)) (\<lambda>sc.
     rbind (aes_cm_key_derivation c LABEL_SRTP_AUTHENTICATION_TAG mk ms 0 (auth_key_len Aes128CmHmacSha1_80)) (\<lambda>a.
     rbind (aes_cm_key_derivation c LABEL_SRTCP_AUTHENTICATION_TAG mk ms 0 (auth_key_len Aes128CmHmacSha1_80)) (\<lambda>ac.
     Inr \<lparr>cm_profile = profile, cm_srtp_key = k, cm_srtp_salt = s, cm_srtp_auth = a,
          cm_srtcp_key = kc, cm_srtcp_salt = sc, cm_srtcp_auth = ac\<rparr>))))))"

definition generate_srtp_auth_tag :: "crypto \<Rightarrow> cm_cipher \<Rightarrow> bytes \<Rightarrow> u32 \<Rightarrow> bytes result" where
  "generate_srtp_auth_tag c z buf roc =
     slice 0 (rtp_auth_tag_len (cm_profile z)) (hmac_sha1 c (cm_srtp_auth z) (buf @ put_u32 roc))"

definition generate_srtcp_auth_tag :: "crypto \<Rightarrow> cm_cipher \<Rightarrow> bytes \<Rightarrow> bytes result" where
  "generate_srtcp_auth_tag c z buf =
     slice 0 (rtcp_auth_tag_len (cm_profile z)) (hmac_sha1 c (cm_srtcp_auth z) buf)"

text \<open>
  \<^verbatim>\<open>stream.apply_keystream(&mut writer[off..])\<close>, with the panics of the key and counter sizes and of
  the slice.
\<close>

definition apply_keystream :: "crypto \<Rightarrow> bytes \<Rightarrow> bytes \<Rightarrow> nat \<Rightarrow> bytes \<Rightarrow> bytes result" where
  "apply_keystream c k counter off writer =
     (if length k \<noteq> 16 \<or> length counter \<noteq> 16 \<or> length writer < off then Inl Panic
      else Inr (take off writer @ xor_bytes (aes128_ctr c k counter (length writer - off)) (drop off writer)))"

definition cm_encrypt_rtp :: "crypto \<Rightarrow> cm_cipher \<Rightarrow> bytes \<Rightarrow> rtp_header \<Rightarrow> u32 \<Rightarrow> bytes result" where
  "cm_encrypt_rtp c z p h roc =
     rbind (rtp_header_marshal h) (\<lambda>hb.
     rbind (generate_counter (sequence_number h) roc (ssrc h) (cm_srtp_salt z)) (\<lambda>counter.
     rbind (apply_keystream c (cm_srtp_key z) counter (rtp_header_marshal_size h) (hb @ p)) (\<lambda>writer.
     rbind (generate_srtp_auth_tag c z writer roc) (\<lambda>tag. Inr (writer @ tag)))))"

definition cm_decrypt_rtp :: "crypto \<Rightarrow> cm_cipher \<Rightarrow> bytes \<Rightarrow> rtp_header \<Rightarrow> u32 \<Rightarrow> bytes result" where
  "cm_decrypt_rtp c z encrypted h roc =
     (let tag_len = rtp_auth_tag_len (cm_profile z) in
      if length encrypted < tag_len then Inl (Err ''SrtpTooSmall'')
      else
        let actual_tag = drop (length encrypted - tag_len) encrypted;
            cipher_text = take (length encrypted - tag_len) encrypted
        in rbind (generate_srtp_auth_tag c z cipher_text roc) (\<lambda>expected_tag.
          if actual_tag \<noteq> expected_tag then Inl (Err ''RtpFailedToVerifyAuthTag'')
          else rbind (generate_counter (sequence_number h) roc (ssrc h) (cm_srtp_salt z)) (\<lambda>counter.
            apply_keystream c (cm_srtp_key z) counter (rtp_header_marshal_size h) cipher_text)))"

definition cm_get_rtcp_index :: "cm_cipher \<Rightarrow> bytes \<Rightarrow> nat result" where
  "cm_get_rtcp_index z input =
     (let n = rtcp_auth_tag_len (cm_profile z) + SRTCP_INDEX_SIZE in
      if length input < n then Inl Panic
      else rbind (get_u32 (drop (length input - n) input)) (\<lambda>(w, _).
        Inr (unat (w AND NOT (push_bit 31 1)))))"

definition cm_encrypt_rtcp :: "crypto \<Rightarrow> cm_cipher \<Rightarrow> bytes \<Rightarrow> nat \<Rightarrow> u32 \<Rightarrow> bytes result" where
  "cm_encrypt_rtcp c z decrypted srtcp_index ss =
     rbind (generate_counter (of_nat (srtcp_index mod 65536)) (of_nat (srtcp_index div 65536)) ss (cm_srtcp_salt z))
       (\<lambda>counter.
     rbind (apply_keystream c (cm_srtcp_key z) counter (HEADER_LENGTH + SSRC_LENGTH) decrypted) (\<lambda>writer.
       let writer = writer @ put_u32 (of_nat srtcp_index OR push_bit 31 1) in
       rbind (generate_srtcp_auth_tag c z writer) (\<lambda>tag. Inr (writer @ tag))))"

definition cm_decrypt_rtcp :: "crypto \<Rightarrow> cm_cipher \<Rightarrow> bytes \<Rightarrow> nat \<Rightarrow> u32 \<Rightarrow> bytes result" where
  "cm_decrypt_rtcp c z encrypted srtcp_index ss =
     (let tag_len = rtcp_auth_tag_len (cm_profile z) in
      if length encrypted < tag_len + SRTCP_INDEX_SIZE then Inl (Err ''SrtcpTooSmall'')
      else
        let tail_offset = length encrypted - (tag_len + SRTCP_INDEX_SIZE);
            writer = take tail_offset encrypted
        in if drop_bit 7 (encrypted ! tail_offset) = 0 then Inr writer
        else
          let actual_tag = drop (length encrypted - tag_len) encrypted;
              cipher_text = take (length encrypted - tag_len) encrypted
          in rbind (generate_srtcp_auth_tag c z cipher_text) (\<lambda>expected_tag.
            if actual_tag \<noteq> expected_tag then Inl (Err ''RtcpFailedToVerifyAuthTag'')
            else rbind (generate_counter (of_nat (srtcp_index mod 65536)) (of_nat (srtcp_index div 65536)) ss
                (cm_srtcp_salt z)) (\<lambda>counter.
              apply_keystream c (cm_srtcp_key z) counter (HEADER_LENGTH + SSRC_LENGTH) writer)))"

section \<open>AES-GCM\<close>

record gcm_cipher =
  gcm_profile :: protection_profile
  gcm_srtp_key :: bytes
  gcm_srtcp_key :: bytes
  gcm_srtp_salt :: bytes
  gcm_srtcp_salt :: bytes

definition gcm_new :: "crypto \<Rightarrow> protection_profile \<Rightarrow> bytes \<Rightarrow> bytes \<Rightarrow> gcm_cipher result" where
  "gcm_new c profile mk ms =
     rbind (aes_cm_key_derivation c LABEL_SRTP_ENCRYPTION mk ms 0 (length mk)) (\<lambda>k.
     if length k \<noteq> 16 then Inl Panic else
     rbind (aes_cm_key_derivation c LABEL_SRTCP_ENCRYPTION mk ms 0 (length mk)) (\<lambda>kc.
     if length kc \<noteq> 16 then Inl Panic else
     rbind (aes_cm_key_derivation c LABEL_SRTP_SALT mk ms 0 (length ms)) (\<lambda>s.
     rbind (aes_cm_key_derivation c LABEL_SRTCP_SALT mk ms 0 (length ms)) (\<lambda>sc.
     Inr \<lparr>gcm_profile = profile, gcm_srtp_key = k, gcm_srtcp_key = kc, gcm_srtp_salt = s,
          gcm_srtcp_salt = sc\<rparr>))))"

text \<open>The initialization vectors: the loop reads the salt at every index, so a short salt panics.\<close>

definition iv_with_salt :: "bytes \<Rightarrow> bytes \<Rightarrow> bytes result" where
  "iv_with_salt salt iv = (if length salt < length iv then Inl Panic else Inr (xor_bytes salt iv))"

definition rtp_initialization_vector :: "gcm_cipher \<Rightarrow> rtp_header \<Rightarrow> u32 \<Rightarrow> bytes result" where
  "rtp_initialization_vector z h roc =
     iv_with_salt (gcm_srtp_salt z) ([0, 0] @ put_u32 (ssrc h) @ put_u32 roc @ put_u16 (sequence_number h))"

definition rtcp_initialization_vector :: "gcm_cipher \<Rightarrow> nat \<Rightarrow> u32 \<Rightarrow> bytes result" where
  "rtcp_initialization_vector z srtcp_index ss =
     iv_with_salt (gcm_srtcp_salt z) ([0, 0] @ put_u32 ss @ [0, 0] @ put_u32 (of_nat srtcp_index))"

definition rtcp_additional_authenticated_data :: "bytes \<Rightarrow> nat \<Rightarrow> bytes result" where
  "rtcp_additional_authenticated_data rtcp_packet srtcp_index =
     (if length rtcp_packet < 8 then Inl Panic
      else let aad = take 8 rtcp_packet @ put_u32 (of_nat srtcp_index) in Inr (aad[8 := aad ! 8 OR 0x80]))"

definition gcm_encrypt_rtp :: "crypto \<Rightarrow> gcm_cipher \<Rightarrow> bytes \<Rightarrow> rtp_header \<Rightarrow> u32 \<Rightarrow> bytes result" where
  "gcm_encrypt_rtp c z p h roc =
     rbind (rtp_header_marshal h) (\<lambda>hb.
     rbind (rtp_initialization_vector z h roc) (\<lambda>nonce.
       Inr (hb @ gcm_seal c (gcm_srtp_key z) nonce hb p)))"

definition gcm_decrypt_rtp :: "crypto \<Rightarrow> gcm_cipher \<Rightarrow> bytes \<Rightarrow> rtp_header \<Rightarrow> u32 \<Rightarrow> bytes result" where
  "gcm_decrypt_rtp c z ciphertext h roc =
     (if length ciphertext < aead_auth_tag_len (gcm_profile z) then Inl (Err ''ErrFailedToVerifyAuthTag'')
      else rbind (rtp_initialization_vector z h roc) (\<lambda>nonce.
        let payload_offset = rtp_header_marshal_size h in
        if length ciphertext < payload_offset then Inl Panic
        else (case gcm_open c (gcm_srtp_key z) nonce (take payload_offset ciphertext) (drop payload_offset ciphertext) of
            None \<Rightarrow> Inl (Err ''AesGcm'')
          | Some m \<Rightarrow> Inr (take payload_offset ciphertext @ m))))"

definition gcm_encrypt_rtcp :: "crypto \<Rightarrow> gcm_cipher \<Rightarrow> bytes \<Rightarrow> nat \<Rightarrow> u32 \<Rightarrow> bytes result" where
  "gcm_encrypt_rtcp c z decrypted srtcp_index ss =
     rbind (rtcp_initialization_vector z srtcp_index ss) (\<lambda>iv.
     rbind (rtcp_additional_authenticated_data decrypted srtcp_index) (\<lambda>aad.
       Inr (take 8 decrypted @ gcm_seal c (gcm_srtcp_key z) iv aad (drop 8 decrypted) @ drop 8 aad)))"

definition gcm_decrypt_rtcp :: "crypto \<Rightarrow> gcm_cipher \<Rightarrow> bytes \<Rightarrow> nat \<Rightarrow> u32 \<Rightarrow> bytes result" where
  "gcm_decrypt_rtcp c z encrypted srtcp_index ss =
     (if length encrypted < aead_auth_tag_len (gcm_profile z) + SRTCP_INDEX_SIZE
      then Inl (Err ''ErrFailedToVerifyAuthTag'')
      else rbind (rtcp_initialization_vector z srtcp_index ss) (\<lambda>nonce.
        rbind (rtcp_additional_authenticated_data encrypted srtcp_index) (\<lambda>aad.
        rbind (slice 8 (length encrypted - SRTCP_INDEX_SIZE) encrypted) (\<lambda>msg.
          (case gcm_open c (gcm_srtcp_key z) nonce aad msg of
             None \<Rightarrow> Inl (Err ''AesGcm'')
           | Some m \<Rightarrow> Inr (take 8 encrypted @ m))))))"

definition gcm_get_rtcp_index :: "bytes \<Rightarrow> nat result" where
  "gcm_get_rtcp_index input =
     (if length input < 4 then Inl Panic
      else rbind (get_u32 (drop (length input - 4) input)) (\<lambda>(w, _).
        Inr (unat (w AND NOT (push_bit 24 (ucast (0x80 :: u8)))))))"

section \<open>The cipher of a context\<close>

text \<open>The trait object \<^verbatim>\<open>Box<dyn Cipher>\<close> is one of the two implementations.\<close>

datatype cipher = Cm cm_cipher | Gcm gcm_cipher

definition cipher_encrypt_rtp :: "crypto \<Rightarrow> cipher \<Rightarrow> bytes \<Rightarrow> rtp_header \<Rightarrow> u32 \<Rightarrow> bytes result" where
  "cipher_encrypt_rtp c z = (case z of Cm m \<Rightarrow> cm_encrypt_rtp c m | Gcm g \<Rightarrow> gcm_encrypt_rtp c g)"

definition cipher_decrypt_rtp :: "crypto \<Rightarrow> cipher \<Rightarrow> bytes \<Rightarrow> rtp_header \<Rightarrow> u32 \<Rightarrow> bytes result" where
  "cipher_decrypt_rtp c z = (case z of Cm m \<Rightarrow> cm_decrypt_rtp c m | Gcm g \<Rightarrow> gcm_decrypt_rtp c g)"

definition cipher_encrypt_rtcp :: "crypto \<Rightarrow> cipher \<Rightarrow> bytes \<Rightarrow> nat \<Rightarrow> u32 \<Rightarrow> bytes result" where
  "cipher_encrypt_rtcp c z = (case z of Cm m \<Rightarrow> cm_encrypt_rtcp c m | Gcm g \<Rightarrow> gcm_encrypt_rtcp c g)"

definition cipher_decrypt_rtcp :: "crypto \<Rightarrow> cipher \<Rightarrow> bytes \<Rightarrow> nat \<Rightarrow> u32 \<Rightarrow> bytes result" where
  "cipher_decrypt_rtcp c z = (case z of Cm m \<Rightarrow> cm_decrypt_rtcp c m | Gcm g \<Rightarrow> gcm_decrypt_rtcp c g)"

definition cipher_get_rtcp_index :: "cipher \<Rightarrow> bytes \<Rightarrow> nat result" where
  "cipher_get_rtcp_index z = (case z of Cm m \<Rightarrow> cm_get_rtcp_index m | Gcm g \<Rightarrow> gcm_get_rtcp_index)"

section \<open>The cipher contract\<close>

definition cipher_wf :: "cipher \<Rightarrow> bool" where
  "cipher_wf z \<longleftrightarrow> (case z of
      Cm m \<Rightarrow> length (cm_srtp_key m) = 16 \<and> length (cm_srtcp_key m) = 16
        \<and> length (cm_srtp_salt m) \<le> 16 \<and> length (cm_srtcp_salt m) \<le> 16
    | Gcm g \<Rightarrow> 12 \<le> length (gcm_srtp_salt g) \<and> 12 \<le> length (gcm_srtcp_salt g))"

lemma length_concat_const: "(\<And>x. length (f x) = k) \<Longrightarrow> length (concat (map f xs)) = k * length xs"
  by (induction xs) simp_all

lemma key_derivation_length:
  assumes "crypto_ok c" "length mk = 16" "length ms \<le> 16"
  shows "\<exists>k. aes_cm_key_derivation c label mk ms 0 n = Inr k \<and> length k = n"
proof -
  have "n \<le> 16 * ((n + 15) div 16)" by presburger
  moreover have "length (concat (map f [0..<m])) = 16 * m" if "\<And>i. length (f i) = 16" for f :: "nat \<Rightarrow> bytes" and m
    using length_concat_const [of f 16 "[0..<m]"] that by simp
  ultimately show ?thesis
    using assms by (simp add: aes_cm_key_derivation_def Let_def crypto_ok_def)
qed

lemma cm_new_wf:
  assumes "crypto_ok c" "length mk = 16" "length ms \<le> 16"
  shows "\<exists>m. cm_new c p mk ms = Inr m \<and> cipher_wf (Cm m) \<and> cm_profile m = p"
proof -
  note k = key_derivation_length [OF assms]
  obtain a b d e f g where
    "aes_cm_key_derivation c LABEL_SRTP_ENCRYPTION mk ms 0 (length mk) = Inr a" "length a = 16"
    "aes_cm_key_derivation c LABEL_SRTCP_ENCRYPTION mk ms 0 (length mk) = Inr b" "length b = 16"
    "aes_cm_key_derivation c LABEL_SRTP_SALT mk ms 0 (length ms) = Inr d" "length d = length ms"
    "aes_cm_key_derivation c LABEL_SRTCP_SALT mk ms 0 (length ms) = Inr e" "length e = length ms"
    "aes_cm_key_derivation c LABEL_SRTP_AUTHENTICATION_TAG mk ms 0 (auth_key_len Aes128CmHmacSha1_80) = Inr f"
    "aes_cm_key_derivation c LABEL_SRTCP_AUTHENTICATION_TAG mk ms 0 (auth_key_len Aes128CmHmacSha1_80) = Inr g"
    using k assms(2) by metis
  then show ?thesis using assms(3) by (simp add: cm_new_def cipher_wf_def)
qed

lemma gcm_new_wf:
  assumes "crypto_ok c" "length mk = 16" "length ms = 12"
  shows "\<exists>g. gcm_new c p mk ms = Inr g \<and> cipher_wf (Gcm g) \<and> gcm_profile g = p"
proof -
  have l: "length ms \<le> 16" using assms(3) by simp
  note k = key_derivation_length [OF assms(1,2) l]
  obtain a b d e where
    "aes_cm_key_derivation c LABEL_SRTP_ENCRYPTION mk ms 0 (length mk) = Inr a" "length a = 16"
    "aes_cm_key_derivation c LABEL_SRTCP_ENCRYPTION mk ms 0 (length mk) = Inr b" "length b = 16"
    "aes_cm_key_derivation c LABEL_SRTP_SALT mk ms 0 (length ms) = Inr d" "length d = 12"
    "aes_cm_key_derivation c LABEL_SRTCP_SALT mk ms 0 (length ms) = Inr e" "length e = 12"
    using k assms(2,3) by metis
  then show ?thesis by (simp add: gcm_new_def cipher_wf_def)
qed

text \<open>The profile with 256-bit keys cannot be used: the key derivation is written for AES-128.\<close>

lemma gcm_256_panics: "length mk = 32 \<Longrightarrow> gcm_new c AeadAes256Gcm mk ms = Inl Panic"
  by (simp add: gcm_new_def aes_cm_key_derivation_def Let_def)

lemma generate_counter_ok: "length salt \<le> 16 \<Longrightarrow> \<exists>w. generate_counter sn roc ss salt = Inr w \<and> length w = 16"
  by (simp add: generate_counter_def xor_prefix_def)

lemma tag_len: "rtp_auth_tag_len p \<le> 10" "rtcp_auth_tag_len p \<le> 10"
  by (cases p; simp add: rtp_auth_tag_len_def rtcp_auth_tag_len_def)+

lemma srtp_tag: "crypto_ok c \<Longrightarrow> generate_srtp_auth_tag c m buf roc =
    Inr (take (rtp_auth_tag_len (cm_profile m)) (hmac_sha1 c (cm_srtp_auth m) (buf @ put_u32 roc)))"
  using tag_len(1) [of "cm_profile m"] by (simp add: generate_srtp_auth_tag_def slice_def crypto_ok_def)

lemma srtcp_tag: "crypto_ok c \<Longrightarrow> generate_srtcp_auth_tag c m buf =
    Inr (take (rtcp_auth_tag_len (cm_profile m)) (hmac_sha1 c (cm_srtcp_auth m) buf))"
  using tag_len(2) [of "cm_profile m"] by (simp add: generate_srtcp_auth_tag_def slice_def crypto_ok_def)

lemma apply_keystream_ok:
  assumes "crypto_ok c" "length k = 16" "length w = 16" "off \<le> length b"
  shows "\<exists>d. apply_keystream c k w off b = Inr (take off b @ d) \<and> length d = length b - off \<and>
    apply_keystream c k w off (take off b @ d) = Inr b"
proof -
  let ?ks = "aes128_ctr c k w (length b - off)"
  have l: "length ?ks = length b - off" using assms(1) by (simp add: crypto_ok_def)
  then have "xor_bytes ?ks (xor_bytes ?ks (drop off b)) = drop off b" by (intro xor_bytes_twice) simp
  then show ?thesis using assms l by (simp add: apply_keystream_def)
qed

lemma cm_rtp_round_trip:
  assumes c: "crypto_ok c" and wf: "cipher_wf (Cm m)" and h: "rtp_header_ok h" "rtp_header_marshal h = Inr hb"
  shows "\<exists>t. cm_encrypt_rtp c m p h roc = Inr (hb @ t) \<and> cm_decrypt_rtp c m (hb @ t) h roc = Inr (hb @ p)"
proof -
  have hb: "length hb = rtp_header_marshal_size h"
    using rtp_header_marshal_parts [OF h(1)] h(2) by auto
  obtain w where w: "generate_counter (sequence_number h) roc (ssrc h) (cm_srtp_salt m) = Inr w" "length w = 16"
    using wf generate_counter_ok by (force simp: cipher_wf_def)
  obtain d where d: "apply_keystream c (cm_srtp_key m) w (length hb) (hb @ p) = Inr (hb @ d)"
    "apply_keystream c (cm_srtp_key m) w (length hb) (hb @ d) = Inr (hb @ p)"
    using apply_keystream_ok [OF c _ w(2), of "cm_srtp_key m" "length hb" "hb @ p"] wf
    by (auto simp: cipher_wf_def)
  let ?n = "rtp_auth_tag_len (cm_profile m)"
  let ?tag = "take ?n (hmac_sha1 c (cm_srtp_auth m) ((hb @ d) @ put_u32 roc))"
  have tl: "length ?tag = ?n" using c tag_len(1) [of "cm_profile m"] by (simp add: crypto_ok_def)
  have "cm_encrypt_rtp c m p h roc = Inr (hb @ d @ ?tag)"
    using h(2) w(1) d(1) by (simp add: cm_encrypt_rtp_def srtp_tag [OF c] hb [symmetric])
  moreover have "cm_decrypt_rtp c m (hb @ d @ ?tag) h roc = Inr (hb @ p)"
    using tl w(1) d(2) by (simp add: cm_decrypt_rtp_def srtp_tag [OF c] hb [symmetric] Let_def)
  ultimately show ?thesis by blast
qed

lemma gcm_rtp_round_trip:
  assumes c: "crypto_ok c" and wf: "cipher_wf (Gcm g)" and h: "rtp_header_ok h" "rtp_header_marshal h = Inr hb"
  shows "\<exists>t. gcm_encrypt_rtp c g p h roc = Inr (hb @ t) \<and> gcm_decrypt_rtp c g (hb @ t) h roc = Inr (hb @ p)"
proof -
  have hb: "length hb = rtp_header_marshal_size h"
    using rtp_header_marshal_parts [OF h(1)] h(2) by auto
  obtain iv where iv: "rtp_initialization_vector g h roc = Inr iv"
    using wf by (simp add: rtp_initialization_vector_def iv_with_salt_def cipher_wf_def)
  have "aead_auth_tag_len (gcm_profile g) \<le> 16"
    by (cases "gcm_profile g") (simp_all add: aead_auth_tag_len_def)
  with c h(2) iv show ?thesis
    by (simp add: gcm_encrypt_rtp_def gcm_decrypt_rtp_def hb [symmetric] crypto_ok_def Let_def linorder_not_less)
qed

lemma cipher_rtp_round_trip:
  assumes "crypto_ok c" "cipher_wf z" "rtp_header_ok h" "rtp_header_marshal h = Inr hb"
  shows "\<exists>t. cipher_encrypt_rtp c z p h roc = Inr (hb @ t) \<and> cipher_decrypt_rtp c z (hb @ t) h roc = Inr (hb @ p)"
  using assms cm_rtp_round_trip gcm_rtp_round_trip
  by (cases z) (auto simp: cipher_encrypt_rtp_def cipher_decrypt_rtp_def)

text \<open>What the counter mode cipher accepts carries the tag of its bytes and the rollover counter.\<close>

lemma cm_decrypt_rtp_authentic:
  assumes "crypto_ok c" "cm_decrypt_rtp c m encrypted h roc = Inr p"
  shows "\<exists>body. encrypted = body @ take (rtp_auth_tag_len (cm_profile m))
    (hmac_sha1 c (cm_srtp_auth m) (body @ put_u32 roc))"
proof -
  let ?n = "rtp_auth_tag_len (cm_profile m)" and ?b = "take (length encrypted - rtp_auth_tag_len (cm_profile m)) encrypted"
  have "drop (length encrypted - ?n) encrypted = take ?n (hmac_sha1 c (cm_srtp_auth m) (?b @ put_u32 roc))"
    using assms(2) by (simp add: cm_decrypt_rtp_def srtp_tag [OF assms(1)] Let_def split: if_splits)
  then show ?thesis by (metis append_take_drop_id)
qed

section \<open>SRTCP\<close>

lemma bit_31: "bit (2147483648 :: int) n \<longleftrightarrow> n = 31"
  using bit_exp_iff [of 31 n, where ?'a = int] by auto

lemma esrtcp_word:
  assumes "i < 2147483648"
  defines "w \<equiv> of_nat i OR push_bit 31 1 :: u32"
  shows "unat (w AND NOT (push_bit 31 1)) = i" "drop_bit 7 (ucast (drop_bit 24 w) :: u8) \<noteq> 0"
proof -
  have u: "unat (of_nat i :: u32) = i" using assms by (simp add: unat_of_nat)
  then have s: "unat (of_nat i :: u32) < 2 ^ 31" using assms by simp
  note d = bit_smallD [OF s]
  have "w AND NOT (push_bit 31 1) = of_nat i"
    unfolding w_def
  proof (rule bit_word_eqI)
    fix n assume "n < LENGTH(32)"
    then show "bit ((of_nat i OR push_bit 31 1) AND NOT (push_bit 31 1) :: u32) n = bit (of_nat i :: u32) n"
      using d [of n] by (auto simp: bit_simps bit_31)
  qed
  then show "unat (w AND NOT (push_bit 31 1)) = i" using u by simp
  have "bit (drop_bit 7 (ucast (drop_bit 24 w) :: u8)) 0"
    by (simp add: w_def bit_simps bit_31)
  then show "drop_bit 7 (ucast (drop_bit 24 w) :: u8) \<noteq> 0" by auto
qed

lemma nth_put_u32_0: "(put_u32 w @ t) ! 0 = ucast (drop_bit 24 w)"
  by (simp add: put_u32_def)

lemma cm_rtcp_round_trip:
  assumes c: "crypto_ok c" and wf: "cipher_wf (Cm m)" and p: "8 \<le> length p" and i: "i < 2147483648"
  shows "\<exists>t. cm_encrypt_rtcp c m p i ss = Inr (take 8 p @ t) \<and> cm_get_rtcp_index m (take 8 p @ t) = Inr i \<and>
    cm_decrypt_rtcp c m (take 8 p @ t) i ss = Inr p"
proof -
  let ?w = "of_nat i OR push_bit 31 1 :: u32" and ?n = "rtcp_auth_tag_len (cm_profile m)"
  obtain w where w: "generate_counter (of_nat (i mod 65536)) (of_nat (i div 65536)) ss (cm_srtcp_salt m) = Inr w" "length w = 16"
    using wf generate_counter_ok by (force simp: cipher_wf_def)
  obtain d where d: "apply_keystream c (cm_srtcp_key m) w 8 p = Inr (take 8 p @ d)" "length d = length p - 8"
    "apply_keystream c (cm_srtcp_key m) w 8 (take 8 p @ d) = Inr p"
    using apply_keystream_ok [OF c _ w(2), of "cm_srtcp_key m" 8 p] wf p by (auto simp: cipher_wf_def)
  let ?b = "(take 8 p @ d) @ put_u32 ?w"
  let ?tag = "take ?n (hmac_sha1 c (cm_srtcp_auth m) ?b)"
  have tl: "length ?tag = ?n" using c tag_len(2) [of "cm_profile m"] by (simp add: crypto_ok_def)
  have h8: "HEADER_LENGTH + SSRC_LENGTH = 8" by (simp add: HEADER_LENGTH_def SSRC_LENGTH_def)
  have ld: "length (take 8 p @ d) = length p" using d(2) p by simp
  have e: "cm_encrypt_rtcp c m p i ss = Inr (?b @ ?tag)"
    using w(1) d(1) by (simp add: cm_encrypt_rtcp_def srtcp_tag [OF c] h8 Let_def)
  have dr: "drop (length (?b @ ?tag) - (?n + 4)) (?b @ ?tag) = put_u32 ?w @ ?tag"
    using tl by simp
  have ix: "cm_get_rtcp_index m (?b @ ?tag) = Inr i"
    using tl esrtcp_word(1) [OF i] dr by (simp add: cm_get_rtcp_index_def SRTCP_INDEX_SIZE_def Let_def)
  have nth: "(?b @ ?tag) ! (length (?b @ ?tag) - (?n + 4)) = ucast (drop_bit 24 ?w)"
  proof -
    have "(?b @ ?tag) ! (length (?b @ ?tag) - (?n + 4)) = (put_u32 ?w @ ?tag) ! 0"
      using dr nth_drop [of "length (?b @ ?tag) - (?n + 4)" "?b @ ?tag" 0] by (metis add_0_right diff_le_self)
    then show ?thesis by (simp add: nth_put_u32_0)
  qed
  have tk: "take (length (?b @ ?tag) - (?n + 4)) (?b @ ?tag) = take 8 p @ d"
    "take (length (?b @ ?tag) - ?n) (?b @ ?tag) = ?b" "drop (length (?b @ ?tag) - ?n) (?b @ ?tag) = ?tag"
    using tl p by (simp_all add: min_def)
  have "cm_decrypt_rtcp c m (?b @ ?tag) i ss = Inr p"
    unfolding cm_decrypt_rtcp_def Let_def SRTCP_INDEX_SIZE_def nth tk
    using tl esrtcp_word(2) [OF i] w(1) d(3) by (simp add: srtcp_tag [OF c] h8)
  with e ix show ?thesis by (intro exI [of _ "d @ put_u32 ?w @ ?tag"]) simp
qed

lemma aad_sets_flag:
  assumes "8 \<le> length p" "i < 2147483648"
  shows "rtcp_additional_authenticated_data p i = Inr (take 8 p @ put_u32 (of_nat i OR push_bit 31 1))"
proof -
  have "(ucast (drop_bit 24 (of_nat i :: u32)) :: u8) OR 0x80 = ucast (drop_bit 24 (of_nat i OR push_bit 31 1 :: u32))"
    by (rule bit_word_eqI) (auto simp: bit_simps bit_31 bit_flags)
  moreover have "ucast (drop_bit k (of_nat i OR push_bit 31 1 :: u32)) = (ucast (drop_bit k (of_nat i :: u32)) :: u8)" if "k \<le> 16" for k
    using that by (intro bit_word_eqI) (auto simp: bit_simps bit_31)
  from this [of 16] this [of 8] this [of 0]
  show ?thesis
    using assms calculation
    by (simp add: rtcp_additional_authenticated_data_def put_u32_def Let_def nth_append list_update_append)
qed

lemma gcm_rtcp_round_trip:
  assumes c: "crypto_ok c" and wf: "cipher_wf (Gcm g)" and p: "8 \<le> length p" and i: "i < 2147483648"
  shows "\<exists>t. gcm_encrypt_rtcp c g p i ss = Inr (take 8 p @ t) \<and> gcm_get_rtcp_index (take 8 p @ t) = Inr i \<and>
    gcm_decrypt_rtcp c g (take 8 p @ t) i ss = Inr p"
proof -
  let ?w = "of_nat i OR push_bit 31 1 :: u32"
  obtain iv where iv: "rtcp_initialization_vector g i ss = Inr iv"
    using wf by (simp add: rtcp_initialization_vector_def iv_with_salt_def cipher_wf_def)
  let ?s = "gcm_seal c (gcm_srtcp_key g) iv (take 8 p @ put_u32 ?w) (drop 8 p)"
  let ?out = "take 8 p @ ?s @ put_u32 ?w"
  have ls: "length ?s = length p - 8 + 16" using c by (simp add: crypto_ok_def)
  have a: "rtcp_additional_authenticated_data q i = Inr (take 8 p @ put_u32 ?w)" if "take 8 q = take 8 p" "8 \<le> length q" for q
    using aad_sets_flag [OF that(2) i] that(1) by simp
  have e: "gcm_encrypt_rtcp c g p i ss = Inr ?out"
    using iv p a [of p] by (simp add: gcm_encrypt_rtcp_def)
  have m: "(0x80000000 :: u32) = push_bit 31 1" by simp
  have ix: "gcm_get_rtcp_index ?out = Inr i"
  proof -
    have "drop (length ?out - 4) ?out = put_u32 ?w" by simp
    moreover have "push_bit 24 (ucast (0x80 :: u8)) = (push_bit 31 1 :: u32)" by simp
    ultimately show ?thesis
      unfolding gcm_get_rtcp_index_def using esrtcp_word(1) [OF i] by simp
  qed
  have "slice 8 (length ?out - 4) ?out = Inr ?s"
    using p by (simp add: slice_def)
  moreover have "aead_auth_tag_len (gcm_profile g) \<le> 16"
    by (cases "gcm_profile g") (simp_all add: aead_auth_tag_len_def)
  moreover have "rtcp_additional_authenticated_data ?out i = Inr (take 8 p @ put_u32 ?w)"
    using p ls by (intro a) simp_all
  ultimately have "gcm_decrypt_rtcp c g ?out i ss = Inr p"
    using iv c p ls by (simp add: gcm_decrypt_rtcp_def SRTCP_INDEX_SIZE_def crypto_ok_def)
  with e ix show ?thesis by blast
qed

lemma cipher_rtcp_round_trip:
  assumes "crypto_ok c" "cipher_wf z" "8 \<le> length p" "i < 2147483648"
  shows "\<exists>t. cipher_encrypt_rtcp c z p i ss = Inr (take 8 p @ t) \<and> cipher_get_rtcp_index z (take 8 p @ t) = Inr i \<and>
    cipher_decrypt_rtcp c z (take 8 p @ t) i ss = Inr p"
  using assms cm_rtcp_round_trip gcm_rtcp_round_trip
  by (cases z) (auto simp: cipher_encrypt_rtcp_def cipher_decrypt_rtcp_def cipher_get_rtcp_index_def)

end
