(* ===== verification/Srtp_Context.thy ===== *)
theory Srtp_Context
  imports Srtp_Cipher Replay_Detector
begin

unbundle bit_operations_syntax

text \<open>
  The SRTP context of \<^verbatim>\<open>rtc-srtp/src/context\<close> and the options of \<^verbatim>\<open>rtc-srtp/src/option.rs\<close>: the state
  kept for every source (the rollover counter of RFC 3711, the SRTCP index, a replay detector) and
  the four operations that protect and unprotect RTP and RTCP packets, over the ciphers of
  \<^verbatim>\<open>Srtp_Cipher\<close> and the detectors of \<^verbatim>\<open>Replay_Detector\<close>. The lemmas show that the estimated rollover
  counter is the one the sender used, that sessions of RTP and of RTCP packets are delivered unchanged
  under reordering and duplication, that a refused packet moves no counter, and that the counter blocks
  of different packets are different.
\<close>

section \<open>Replay detectors\<close>

text \<open>The detectors the options of a context create, behind the trait object.\<close>

datatype rdet = NoOpReplay | WrappedWindow wrapped_detector

definition MAX_SEQUENCE_NUMBER :: u16 where "MAX_SEQUENCE_NUMBER = 65535"
definition MAX_SRTCP_INDEX :: nat where "MAX_SRTCP_INDEX = 0x7FFFFFFF"

definition srtp_replay_protection :: "nat \<Rightarrow> rdet" where
  "srtp_replay_protection window_size = WrappedWindow (wsw_new window_size (ucast MAX_SEQUENCE_NUMBER))"

definition srtcp_replay_protection :: "nat \<Rightarrow> rdet" where
  "srtcp_replay_protection window_size = WrappedWindow (wsw_new window_size (of_nat MAX_SRTCP_INDEX))"

definition srtp_no_replay_protection :: rdet where
  "srtp_no_replay_protection = NoOpReplay"

definition srtcp_no_replay_protection :: rdet where
  "srtcp_no_replay_protection = NoOpReplay"

definition rdet_check :: "rdet \<Rightarrow> u64 \<Rightarrow> bool \<times> rdet" where
  "rdet_check d s = (case d of
      NoOpReplay \<Rightarrow> (fst (noop_check () s), NoOpReplay)
    | WrappedWindow w \<Rightarrow> map_prod id WrappedWindow (wsw_check w s))"

definition rdet_accept :: "rdet \<Rightarrow> rdet result" where
  "rdet_accept d = (case d of
      NoOpReplay \<Rightarrow> rbind (noop_accept ()) (\<lambda>_. Inr NoOpReplay)
    | WrappedWindow w \<Rightarrow> rbind (wsw_accept w) (\<lambda>w. Inr (WrappedWindow w)))"

section \<open>The state of a source\<close>

definition MAX_ROC_DISORDER :: u16 where "MAX_ROC_DISORDER = 100"

record srtp_ssrc_state =
  ss_ssrc :: u32
  rollover_counter :: u32
  rollover_has_processed :: bool
  last_sequence_number :: u16
  ss_replay_detector :: "rdet option"

record srtcp_ssrc_state =
  srtcp_index :: nat
  sc_ssrc :: u32
  sc_replay_detector :: "rdet option"

definition next_rollover_count :: "srtp_ssrc_state \<Rightarrow> u16 \<Rightarrow> u32" where
  "next_rollover_count st sn =
     (let roc = rollover_counter st in
      if \<not> rollover_has_processed st then roc
      else if sn = 0 then (if last_sequence_number st > MAX_ROC_DISORDER then roc + 1 else roc)
      else if last_sequence_number st < MAX_ROC_DISORDER \<and> sn > MAX_SEQUENCE_NUMBER - MAX_ROC_DISORDER then roc - 1
      else if sn < MAX_ROC_DISORDER \<and> last_sequence_number st > MAX_SEQUENCE_NUMBER - MAX_ROC_DISORDER then roc + 1
      else roc)"

definition update_rollover_count :: "srtp_ssrc_state \<Rightarrow> u16 \<Rightarrow> srtp_ssrc_state" where
  "update_rollover_count st sn =
     (let st =
        (if \<not> rollover_has_processed st then st\<lparr>rollover_has_processed := True\<rparr>
         else if sn = 0 then
           (if last_sequence_number st > MAX_ROC_DISORDER
            then st\<lparr>rollover_counter := rollover_counter st + 1\<rparr> else st)
         else if last_sequence_number st < MAX_ROC_DISORDER \<and> sn > MAX_SEQUENCE_NUMBER - MAX_ROC_DISORDER
         then st\<lparr>rollover_counter := rollover_counter st - 1\<rparr>
         else if sn < MAX_ROC_DISORDER \<and> last_sequence_number st > MAX_SEQUENCE_NUMBER - MAX_ROC_DISORDER
         then st\<lparr>rollover_counter := rollover_counter st + 1\<rparr>
         else st)
      in st\<lparr>last_sequence_number := sn\<rparr>)"

section \<open>The context\<close>

record srtp_context =
  ctx_cipher :: cipher
  srtp_ssrc_states :: "u32 \<rightharpoonup> srtp_ssrc_state"
  srtcp_ssrc_states :: "u32 \<rightharpoonup> srtcp_ssrc_state"
  new_srtp_replay_detector :: rdet
  new_srtcp_replay_detector :: rdet

definition srtp_context_new ::
    "crypto \<Rightarrow> bytes \<Rightarrow> bytes \<Rightarrow> protection_profile \<Rightarrow> rdet option \<Rightarrow> rdet option \<Rightarrow> srtp_context result" where
  "srtp_context_new c mk ms profile opt copt =
     (if length mk \<noteq> key_len profile then Inl (Err ''SrtpMasterKeyLength'')
      else if length ms \<noteq> salt_len profile then Inl (Err ''SrtpSaltLength'')
      else rbind (case profile of
            Aes128CmHmacSha1_32 \<Rightarrow> rbind (cm_new c profile mk ms) (\<lambda>m. Inr (Cm m))
          | Aes128CmHmacSha1_80 \<Rightarrow> rbind (cm_new c profile mk ms) (\<lambda>m. Inr (Cm m))
          | AeadAes128Gcm \<Rightarrow> rbind (gcm_new c profile mk ms) (\<lambda>g. Inr (Gcm g))
          | AeadAes256Gcm \<Rightarrow> rbind (gcm_new c profile mk ms) (\<lambda>g. Inr (Gcm g)))
        (\<lambda>z. Inr \<lparr>ctx_cipher = z, srtp_ssrc_states = Map.empty, srtcp_ssrc_states = Map.empty,
             new_srtp_replay_detector = (case opt of Some f \<Rightarrow> f | None \<Rightarrow> srtp_no_replay_protection),
             new_srtcp_replay_detector = (case copt of Some f \<Rightarrow> f | None \<Rightarrow> srtcp_no_replay_protection)\<rparr>))"

text \<open>The entry of a source, created on first use; the code's \<^verbatim>\<open>Option\<close> is always \<^verbatim>\<open>Some\<close>.\<close>

definition get_srtp_ssrc_state :: "srtp_context \<Rightarrow> u32 \<Rightarrow> srtp_ssrc_state" where
  "get_srtp_ssrc_state x s = (case srtp_ssrc_states x s of
      Some st \<Rightarrow> st
    | None \<Rightarrow> \<lparr>ss_ssrc = s, rollover_counter = 0, rollover_has_processed = False, last_sequence_number = 0,
        ss_replay_detector = Some (new_srtp_replay_detector x)\<rparr>)"

definition put_srtp_ssrc_state :: "srtp_context \<Rightarrow> u32 \<Rightarrow> srtp_ssrc_state \<Rightarrow> srtp_context" where
  "put_srtp_ssrc_state x s st = x\<lparr>srtp_ssrc_states := (srtp_ssrc_states x)(s \<mapsto> st)\<rparr>"

definition get_srtcp_ssrc_state :: "srtp_context \<Rightarrow> u32 \<Rightarrow> srtcp_ssrc_state" where
  "get_srtcp_ssrc_state x s = (case srtcp_ssrc_states x s of
      Some st \<Rightarrow> st
    | None \<Rightarrow> \<lparr>srtcp_index = 0, sc_ssrc = s, sc_replay_detector = Some (new_srtcp_replay_detector x)\<rparr>)"

definition put_srtcp_ssrc_state :: "srtp_context \<Rightarrow> u32 \<Rightarrow> srtcp_ssrc_state \<Rightarrow> srtp_context" where
  "put_srtcp_ssrc_state x s st = x\<lparr>srtcp_ssrc_states := (srtcp_ssrc_states x)(s \<mapsto> st)\<rparr>"

definition get_roc :: "srtp_context \<Rightarrow> u32 \<Rightarrow> u32 option" where
  "get_roc x s = map_option rollover_counter (srtp_ssrc_states x s)"

definition set_roc :: "srtp_context \<Rightarrow> u32 \<Rightarrow> u32 \<Rightarrow> srtp_context" where
  "set_roc x s roc = put_srtp_ssrc_state x s ((get_srtp_ssrc_state x s)\<lparr>rollover_counter := roc\<rparr>)"

definition get_index :: "srtp_context \<Rightarrow> u32 \<Rightarrow> nat option" where
  "get_index x s = map_option srtcp_index (srtcp_ssrc_states x s)"

definition set_index :: "srtp_context \<Rightarrow> u32 \<Rightarrow> nat \<Rightarrow> srtp_context" where
  "set_index x s i = put_srtcp_ssrc_state x s ((get_srtcp_ssrc_state x s)\<lparr>srtcp_index := i\<rparr>)"

section \<open>SRTP\<close>

definition decrypt_rtp_with_header ::
    "crypto \<Rightarrow> bytes \<Rightarrow> rtp_header \<Rightarrow> srtp_context \<Rightarrow> bytes result \<times> srtp_context" where
  "decrypt_rtp_with_header c encrypted h x =
     (let st = get_srtp_ssrc_state x (ssrc h);
          (fresh, st) = (case ss_replay_detector st of
              Some d \<Rightarrow> (let (ok, d) = rdet_check d (ucast (sequence_number h))
                in (ok, st\<lparr>ss_replay_detector := Some d\<rparr>))
            | None \<Rightarrow> (True, st));
          x = put_srtp_ssrc_state x (ssrc h) st
      in if \<not> fresh then (Inl (Err ''SrtpSsrcDuplicated''), x)
      else
        let roc = next_rollover_count st (sequence_number h) in
        (case cipher_decrypt_rtp c (ctx_cipher x) encrypted h roc of
           Inl e \<Rightarrow> (Inl e, x)
         | Inr dst \<Rightarrow>
             (case (case ss_replay_detector st of
                  Some d \<Rightarrow> rbind (rdet_accept d) (\<lambda>d. Inr (st\<lparr>ss_replay_detector := Some d\<rparr>))
                | None \<Rightarrow> Inr st) of
                Inl e \<Rightarrow> (Inl e, x)
              | Inr st \<Rightarrow> (Inr dst, put_srtp_ssrc_state x (ssrc h) (update_rollover_count st (sequence_number h))))))"

definition decrypt_rtp :: "crypto \<Rightarrow> bytes \<Rightarrow> srtp_context \<Rightarrow> bytes result \<times> srtp_context" where
  "decrypt_rtp c encrypted x = (case rtp_header_unmarshal encrypted of
      Inl e \<Rightarrow> (Inl e, x) | Inr (h, _) \<Rightarrow> decrypt_rtp_with_header c encrypted h x)"

definition encrypt_rtp_with_header ::
    "crypto \<Rightarrow> bytes \<Rightarrow> rtp_header \<Rightarrow> srtp_context \<Rightarrow> bytes result \<times> srtp_context" where
  "encrypt_rtp_with_header c plaintext h x =
     (let st = get_srtp_ssrc_state x (ssrc h);
          x = put_srtp_ssrc_state x (ssrc h) st;
          roc = next_rollover_count st (sequence_number h)
      in if length plaintext < rtp_header_marshal_size h then (Inl Panic, x)
      else (case cipher_encrypt_rtp c (ctx_cipher x) (drop (rtp_header_marshal_size h) plaintext) h roc of
          Inl e \<Rightarrow> (Inl e, x)
        | Inr dst \<Rightarrow> (Inr dst, put_srtp_ssrc_state x (ssrc h) (update_rollover_count st (sequence_number h)))))"

definition encrypt_rtp :: "crypto \<Rightarrow> bytes \<Rightarrow> srtp_context \<Rightarrow> bytes result \<times> srtp_context" where
  "encrypt_rtp c plaintext x = (case rtp_header_unmarshal plaintext of
      Inl e \<Rightarrow> (Inl e, x) | Inr (h, _) \<Rightarrow> encrypt_rtp_with_header c plaintext h x)"

section \<open>SRTCP\<close>

text \<open>The source is read from bytes four to seven of the packet; a shorter one panics.\<close>

definition packet_ssrc :: "bytes \<Rightarrow> u32 result" where
  "packet_ssrc p = (if length p < 8 then Inl Panic else Inr (be32 (p ! 4) (p ! 5) (p ! 6) (p ! 7)))"

definition decrypt_rtcp :: "crypto \<Rightarrow> bytes \<Rightarrow> srtp_context \<Rightarrow> bytes result \<times> srtp_context" where
  "decrypt_rtcp c encrypted x =
     (case rbind (rtcp_header_unmarshal encrypted) (\<lambda>_.
        rbind (cipher_get_rtcp_index (ctx_cipher x) encrypted) (\<lambda>i.
        rbind (packet_ssrc encrypted) (\<lambda>s. Inr (i, s)))) of
        Inl e \<Rightarrow> (Inl e, x)
      | Inr (i, s) \<Rightarrow>
          let st = get_srtcp_ssrc_state x s;
              (fresh, st) = (case sc_replay_detector st of
                  Some d \<Rightarrow> (let (ok, d) = rdet_check d (of_nat i) in (ok, st\<lparr>sc_replay_detector := Some d\<rparr>))
                | None \<Rightarrow> (True, st));
              x = put_srtcp_ssrc_state x s st
          in if \<not> fresh then (Inl (Err ''SrtcpSsrcDuplicated''), x)
          else (case cipher_decrypt_rtcp c (ctx_cipher x) encrypted i s of
              Inl e \<Rightarrow> (Inl e, x)
            | Inr dst \<Rightarrow>
                (case (case sc_replay_detector st of
                     Some d \<Rightarrow> rbind (rdet_accept d) (\<lambda>d. Inr (st\<lparr>sc_replay_detector := Some d\<rparr>))
                   | None \<Rightarrow> Inr st) of
                   Inl e \<Rightarrow> (Inl e, x)
                 | Inr st \<Rightarrow> (Inr dst, put_srtcp_ssrc_state x s st))))"

definition encrypt_rtcp :: "crypto \<Rightarrow> bytes \<Rightarrow> srtp_context \<Rightarrow> bytes result \<times> srtp_context" where
  "encrypt_rtcp c decrypted x =
     (case rbind (rtcp_header_unmarshal decrypted) (\<lambda>_. packet_ssrc decrypted) of
        Inl e \<Rightarrow> (Inl e, x)
      | Inr s \<Rightarrow>
          let st = get_srtcp_ssrc_state x s;
              i = (if srtcp_index st + 1 > MAX_SRTCP_INDEX then 0 else srtcp_index st + 1);
              x = put_srtcp_ssrc_state x s (st\<lparr>srtcp_index := i\<rparr>)
          in (cipher_encrypt_rtcp c (ctx_cipher x) decrypted i s, x))"

section \<open>The rollover counter\<close>

text \<open>
  The packet index of RFC 3711 is the rollover counter and the sequence number together. A state can
  follow a packet whose index is at most a hundred away from the last one; before the first packet
  it takes any sequence number under the counter it was given.
\<close>

definition srtp_index :: "srtp_ssrc_state \<Rightarrow> nat" where
  "srtp_index st = unat (rollover_counter st) * 65536 + unat (last_sequence_number st)"

definition follows :: "srtp_ssrc_state \<Rightarrow> nat \<Rightarrow> bool" where
  "follows st i \<longleftrightarrow>
     (if rollover_has_processed st then \<bar>int i - int (srtp_index st)\<bar> \<le> 100
      else i div 65536 = unat (rollover_counter st))"

lemma update_is_next:
  "rollover_counter (update_rollover_count st sn) = next_rollover_count st sn"
  "last_sequence_number (update_rollover_count st sn) = sn"
  "rollover_has_processed (update_rollover_count st sn)"
  "ss_replay_detector (update_rollover_count st sn) = ss_replay_detector st"
  by (simp_all add: update_rollover_count_def next_rollover_count_def Let_def)

lemma index_cases:
  fixes r l q s :: nat
  assumes "\<bar>int (q * 65536 + s) - int (r * 65536 + l)\<bar> \<le> 100" "s < 65536" "l < 65536"
  obtains (same) "q = r" "s \<le> l + 100" "l \<le> s + 100"
    | (up) "q = r + 1" "65435 < l" "s < 100" | (down) "q + 1 = r" "l < 100" "65435 < s"
proof -
  have "q \<le> r + 1" "r \<le> q + 1" using assms by linarith+
  then consider "q = r" | "q = r + 1" | "q + 1 = r" by linarith
  then show thesis
  proof cases
    case 1
    with assms show thesis by (intro same) auto
  next
    case 2
    with assms show thesis by (intro up) auto
  next
    case 3
    then have "int r = int q + 1" by simp
    with assms 3 show thesis by (intro down) auto
  qed
qed

lemma next_rollover_correct:
  assumes f: "follows st i" and i: "i < 2 ^ 48"
  shows "unat (next_rollover_count st (of_nat i)) = i div 65536"
proof (cases "rollover_has_processed st")
  case False
  then show ?thesis using f by (simp add: follows_def next_rollover_count_def Let_def)
next
  case True
  let ?r = "rollover_counter st" and ?l = "last_sequence_number st" and ?s = "of_nat i :: u16"
  have s: "unat ?s = i mod 65536" by (simp add: unat_of_nat)
  have l: "unat ?l < 65536" using unsigned_less [of ?l] by simp
  have q: "i div 65536 < 4294967296" using i by (simp add: less_mult_imp_div_less)
  have near: "\<bar>int (i div 65536 * 65536 + i mod 65536) - int (unat ?r * 65536 + unat ?l)\<bar> \<le> 100"
    using f True by (simp add: follows_def srtp_index_def)
  have z: "?s = 0 \<longleftrightarrow> i mod 65536 = 0" using s by (metis unat_eq_zero)
  have lt: "?l > MAX_ROC_DISORDER \<longleftrightarrow> 100 < unat ?l" "?l < MAX_ROC_DISORDER \<longleftrightarrow> unat ?l < 100"
    "?s < MAX_ROC_DISORDER \<longleftrightarrow> i mod 65536 < 100"
    "?s > MAX_SEQUENCE_NUMBER - MAX_ROC_DISORDER \<longleftrightarrow> 65435 < i mod 65536"
    "?l > MAX_SEQUENCE_NUMBER - MAX_ROC_DISORDER \<longleftrightarrow> 65435 < unat ?l"
    by (simp_all add: word_less_nat_alt s MAX_ROC_DISORDER_def MAX_SEQUENCE_NUMBER_def)
  have n: "next_rollover_count st ?s =
      (if i mod 65536 = 0 then if 100 < unat ?l then ?r + 1 else ?r
       else if unat ?l < 100 \<and> 65435 < i mod 65536 then ?r - 1
       else if i mod 65536 < 100 \<and> 65435 < unat ?l then ?r + 1 else ?r)"
    using True by (simp add: next_rollover_count_def Let_def z lt)
  have m: "i mod 65536 < 65536" by simp
  from near m l show ?thesis
  proof (cases rule: index_cases)
    case same
    then have "next_rollover_count st ?s = ?r" unfolding n by auto
    with same show ?thesis by simp
  next
    case up
    then have "next_rollover_count st ?s = ?r + 1" unfolding n by auto
    with up q show ?thesis by (simp add: unat_plus_if')
  next
    case down
    then have "next_rollover_count st ?s = ?r - 1" unfolding n by auto
    with down show ?thesis by (simp add: unat_diff_wrap)
  qed
qed

lemma update_index:
  assumes "follows st i" "i < 2 ^ 48"
  shows "srtp_index (update_rollover_count st (of_nat i)) = i"
  using next_rollover_correct [OF assms] by (simp add: srtp_index_def update_is_next unat_of_nat)

lemma follows_update:
  assumes "follows st i" "i < 2 ^ 48" "\<bar>int j - int i\<bar> \<le> 100"
  shows "follows (update_rollover_count st (of_nat i)) j"
  using assms(3) update_index [OF assms(1,2)] by (simp add: follows_def update_is_next)

section \<open>A session\<close>

text \<open>One side encrypts packets in order, the other decrypts what arrives.\<close>

fun srtp_send :: "crypto \<Rightarrow> bytes list \<Rightarrow> srtp_context \<Rightarrow> bytes list result \<times> srtp_context" where
  "srtp_send c [] x = (Inr [], x)"
| "srtp_send c (p # ps) x = (case encrypt_rtp c p x of
      (Inl e, x) \<Rightarrow> (Inl e, x)
    | (Inr b, x) \<Rightarrow> (case srtp_send c ps x of (r, x) \<Rightarrow> (rbind r (\<lambda>bs. Inr (b # bs)), x)))"

fun srtp_receive :: "crypto \<Rightarrow> bytes list \<Rightarrow> srtp_context \<Rightarrow> bytes list result \<times> srtp_context" where
  "srtp_receive c [] x = (Inr [], x)"
| "srtp_receive c (p # ps) x = (case decrypt_rtp c p x of
      (Inl e, x) \<Rightarrow> (Inl e, x)
    | (Inr b, x) \<Rightarrow> (case srtp_receive c ps x of (r, x) \<Rightarrow> (rbind r (\<lambda>bs. Inr (b # bs)), x)))"

definition plain :: "rtp_header \<times> bytes \<Rightarrow> bytes" where
  "plain hp = (case rtp_header_marshal (fst hp) of Inr hb \<Rightarrow> hb @ snd hp | Inl _ \<Rightarrow> [])"

text \<open>A packet on the wire that was sealed at index \<open>i\<close>.\<close>

definition sealed :: "crypto \<Rightarrow> cipher \<Rightarrow> nat \<Rightarrow> rtp_header \<times> bytes \<Rightarrow> bytes \<Rightarrow> bool" where
  "sealed c z i hp b \<longleftrightarrow> (\<exists>rest. rtp_header_unmarshal b = Inr (fst hp, rest)) \<and>
     cipher_decrypt_rtp c z b (fst hp) (of_nat (i div 65536)) = Inr (plain hp)"

lemma get_put_srtp [simp]:
  "get_srtp_ssrc_state (put_srtp_ssrc_state x s st) s = st"
  "ctx_cipher (put_srtp_ssrc_state x s st) = ctx_cipher x"
  "put_srtp_ssrc_state (put_srtp_ssrc_state x s st) s st' = put_srtp_ssrc_state x s st'"
  by (simp_all add: get_srtp_ssrc_state_def put_srtp_ssrc_state_def)

lemma next_rollover_of_nat:
  "follows st i \<Longrightarrow> i < 2 ^ 48 \<Longrightarrow> next_rollover_count st (of_nat i) = of_nat (i div 65536)"
  by (simp add: word_unat_eq_iff next_rollover_correct unat_of_nat less_mult_imp_div_less)

lemma encrypt_step:
  assumes c: "crypto_ok c" "cipher_wf (ctx_cipher x)" and h: "rtp_header_ok h"
    and i: "sequence_number h = of_nat i" "follows (get_srtp_ssrc_state x (ssrc h)) i" "i < 2 ^ 48"
  shows "\<exists>b. encrypt_rtp c (plain (h, p)) x =
      (Inr b, put_srtp_ssrc_state x (ssrc h) (update_rollover_count (get_srtp_ssrc_state x (ssrc h)) (of_nat i))) \<and>
    sealed c (ctx_cipher x) i (h, p) b"
proof -
  obtain hb where hb: "rtp_header_marshal h = Inr hb" "length hb = rtp_header_marshal_size h"
    "\<And>rest. rtp_header_unmarshal (hb @ rest) = Inr (h, rest)"
    using rtp_header_marshal_parts [OF h] by blast
  obtain t where t: "cipher_encrypt_rtp c (ctx_cipher x) p h (of_nat (i div 65536)) = Inr (hb @ t)"
    "cipher_decrypt_rtp c (ctx_cipher x) (hb @ t) h (of_nat (i div 65536)) = Inr (hb @ p)"
    using cipher_rtp_round_trip [OF c h hb(1)] by blast
  have "encrypt_rtp c (hb @ p) x =
      (Inr (hb @ t), put_srtp_ssrc_state x (ssrc h) (update_rollover_count (get_srtp_ssrc_state x (ssrc h)) (of_nat i)))"
    using t(1) next_rollover_of_nat [OF i(2,3)]
    by (simp add: encrypt_rtp_def hb(3) encrypt_rtp_with_header_def i(1) Let_def hb(2) [symmetric])
  then show ?thesis using t(2) hb(1,3) by (auto simp: plain_def sealed_def)
qed

lemma decrypt_step:
  assumes b: "sealed c (ctx_cipher x) i (h, p) b"
    and i: "sequence_number h = of_nat i" "follows (get_srtp_ssrc_state x (ssrc h)) i" "i < 2 ^ 48"
    and d: "ss_replay_detector (get_srtp_ssrc_state x (ssrc h)) = Some NoOpReplay"
  shows "decrypt_rtp c b x = (Inr (plain (h, p)),
    put_srtp_ssrc_state x (ssrc h) (update_rollover_count (get_srtp_ssrc_state x (ssrc h)) (of_nat i)))"
proof -
  obtain a r q l where st: "get_srtp_ssrc_state x (ssrc h) =
      \<lparr>ss_ssrc = a, rollover_counter = r, rollover_has_processed = q, last_sequence_number = l,
       ss_replay_detector = Some NoOpReplay\<rparr>"
    using d by (cases "get_srtp_ssrc_state x (ssrc h)") simp
  show ?thesis
    using b next_rollover_of_nat [OF i(2,3)] unfolding st
    by (auto simp: decrypt_rtp_def decrypt_rtp_with_header_def sealed_def i(1) rdet_check_def rdet_accept_def
        noop_check_def noop_accept_def Let_def st)
qed

lemma send_all:
  assumes c: "crypto_ok c" "cipher_wf z"
  shows "ctx_cipher x = z \<Longrightarrow> ps \<noteq> [] \<longrightarrow> follows (get_srtp_ssrc_state x s) i \<Longrightarrow> i + length ps \<le> 2 ^ 48 \<Longrightarrow>
    \<forall>k < length ps. rtp_header_ok (fst (ps ! k)) \<and> ssrc (fst (ps ! k)) = s \<and> sequence_number (fst (ps ! k)) = of_nat (i + k) \<Longrightarrow>
    \<exists>cs x'. srtp_send c (map plain ps) x = (Inr cs, x') \<and> length cs = length ps \<and>
      (\<forall>k < length ps. sealed c z (i + k) (ps ! k) (cs ! k))"
proof (induction ps arbitrary: x i)
  case (Cons hp ps)
  obtain h p where hp: "hp = (h, p)" by fastforce
  have h: "rtp_header_ok h" "ssrc h = s" "sequence_number h = of_nat i"
    using Cons.prems(4) [rule_format, of 0] hp by simp_all
  have i: "i < 2 ^ 48" using Cons.prems(3) by simp
  have f: "follows (get_srtp_ssrc_state x (ssrc h)) i" using Cons.prems(2) h by simp
  let ?x = "put_srtp_ssrc_state x s (update_rollover_count (get_srtp_ssrc_state x s) (of_nat i))"
  obtain b where b: "encrypt_rtp c (plain hp) x = (Inr b, ?x)" "sealed c z i hp b"
    using encrypt_step [OF c(1) _ h(1,3) f i, of p] c(2) Cons.prems(1) h(2) hp by auto
  have "follows (get_srtp_ssrc_state ?x s) (Suc i)"
    using follows_update [OF f i, of "Suc i"] h(2) by simp
  moreover have "rtp_header_ok (fst (ps ! k)) \<and> ssrc (fst (ps ! k)) = s \<and> sequence_number (fst (ps ! k)) = of_nat (Suc i + k)"
    if "k < length ps" for k
    using Cons.prems(4) [rule_format, of "Suc k"] that by (simp add: ac_simps)
  ultimately obtain cs x' where r: "srtp_send c (map plain ps) ?x = (Inr cs, x')" "length cs = length ps"
      "\<And>k. k < length ps \<Longrightarrow> sealed c z (Suc i + k) (ps ! k) (cs ! k)"
    using Cons.IH [of ?x "Suc i"] Cons.prems(1,3) by auto
  have "sealed c z (i + k) ((hp # ps) ! k) ((b # cs) ! k)" if "k < length (hp # ps)" for k
    using that b(2) r(3) [of "k - 1"] by (cases k) simp_all
  then show ?case using b(1) r(1,2) by (intro exI [of _ "b # cs"] exI [of _ x']) simp
qed simp

lemma receive_all:
  assumes f: "\<And>j. j \<in> set js \<Longrightarrow> sealed c z (i + j) (ps ! j) (cs ! j) \<and> ssrc (fst (ps ! j)) = s \<and>
      sequence_number (fst (ps ! j)) = of_nat (i + j) \<and> i + j < 2 ^ 48"
  shows "ctx_cipher x = z \<Longrightarrow> ss_replay_detector (get_srtp_ssrc_state x s) = Some NoOpReplay \<Longrightarrow>
    js \<noteq> [] \<longrightarrow> follows (get_srtp_ssrc_state x s) (i + hd js) \<Longrightarrow>
    successively (\<lambda>j k. \<bar>int k - int j\<bar> \<le> 100) js \<Longrightarrow>
    \<exists>x'. srtp_receive c (map (\<lambda>j. cs ! j) js) x = (Inr (map (\<lambda>j. plain (ps ! j)) js), x')"
  using f
proof (induction js arbitrary: x)
  case (Cons j js)
  obtain h p where hp: "ps ! j = (h, p)" by fastforce
  note fj = Cons.prems(5) [of j, simplified hp, simplified]
  let ?x = "put_srtp_ssrc_state x s (update_rollover_count (get_srtp_ssrc_state x s) (of_nat (i + j)))"
  have fo: "follows (get_srtp_ssrc_state x (ssrc h)) (i + j)" using Cons.prems(3) fj by simp
  have d: "decrypt_rtp c (cs ! j) x = (Inr (plain (ps ! j)), ?x)"
    using decrypt_step [of c x "i + j" h p "cs ! j"] fj fo Cons.prems(1,2) hp by simp
  have "follows (get_srtp_ssrc_state ?x s) (i + k)" if "\<bar>int k - int j\<bar> \<le> 100" for k
    using follows_update [OF fo, of "i + k"] fj that by simp
  then have "\<exists>x'. srtp_receive c (map (\<lambda>j. cs ! j) js) ?x = (Inr (map (\<lambda>j. plain (ps ! j)) js), x')"
    using Cons.prems by (intro Cons.IH) (auto simp: update_is_next successively_Cons)
  then show ?case using d by auto
qed simp

lemma context_new_fresh:
  assumes "crypto_ok c" "srtp_context_new c mk ms profile None None = Inr x"
  shows "cipher_wf (ctx_cipher x)" "\<And>s. get_srtp_ssrc_state x s =
    \<lparr>ss_ssrc = s, rollover_counter = 0, rollover_has_processed = False, last_sequence_number = 0,
     ss_replay_detector = Some NoOpReplay\<rparr>"
proof -
  have l: "length mk = key_len profile" "length ms = salt_len profile"
    using assms(2) by (auto simp: srtp_context_new_def split: if_splits)
  show "cipher_wf (ctx_cipher x)"
    using assms(2) l cm_new_wf [OF assms(1), of mk ms profile] gcm_new_wf [OF assms(1), of mk ms profile]
      gcm_256_panics [of mk c ms]
    by (cases profile) (auto simp: srtp_context_new_def key_len_def salt_len_def rbind_eq_Inr)
  show "get_srtp_ssrc_state x s =
    \<lparr>ss_ssrc = s, rollover_counter = 0, rollover_has_processed = False, last_sequence_number = 0,
     ss_replay_detector = Some NoOpReplay\<rparr>" for s
    using assms(2) l
    by (auto simp: srtp_context_new_def get_srtp_ssrc_state_def srtp_no_replay_protection_def rbind_eq_Inr)
qed


text \<open>Concrete primitives for the witnesses: a key stream that does not depend on the key, constant
  tags, and a seal that only appends.\<close>

definition toy_crypto :: crypto where
  "toy_crypto = \<lparr>aes128_block = \<lambda>k b. take 16 (k @ replicate 16 0), aes128_ctr = \<lambda>k iv n. replicate n 0x55,
     hmac_sha1 = \<lambda>k m. replicate 20 7, gcm_seal = \<lambda>k n a m. m @ replicate 16 9,
     gcm_open = \<lambda>k n a m. Some (take (length m - 16) m)\<rparr>"

lemma toy_crypto_ok: "crypto_ok toy_crypto"
  by (auto simp: crypto_ok_def toy_crypto_def min_def)

definition toy_packets :: "(rtp_header \<times> bytes) list" where
  "toy_packets = [(rtp_header_default\<lparr>version := 2, sequence_number := 65535, ssrc := 5\<rparr>, [1, 2, 3]),
     (rtp_header_default\<lparr>version := 2, sequence_number := 0, ssrc := 5\<rparr>, [4, 5])]"


section \<open>Control packets\<close>

fun srtcp_send :: "crypto \<Rightarrow> bytes list \<Rightarrow> srtp_context \<Rightarrow> bytes list result \<times> srtp_context" where
  "srtcp_send c [] x = (Inr [], x)"
| "srtcp_send c (p # ps) x = (case encrypt_rtcp c p x of
      (Inl e, x) \<Rightarrow> (Inl e, x)
    | (Inr b, x) \<Rightarrow> (case srtcp_send c ps x of (r, x) \<Rightarrow> (rbind r (\<lambda>bs. Inr (b # bs)), x)))"

fun srtcp_receive :: "crypto \<Rightarrow> bytes list \<Rightarrow> srtp_context \<Rightarrow> bytes list result \<times> srtp_context" where
  "srtcp_receive c [] x = (Inr [], x)"
| "srtcp_receive c (p # ps) x = (case decrypt_rtcp c p x of
      (Inl e, x) \<Rightarrow> (Inl e, x)
    | (Inr b, x) \<Rightarrow> (case srtcp_receive c ps x of (r, x) \<Rightarrow> (rbind r (\<lambda>bs. Inr (b # bs)), x)))"

text \<open>A control packet as the compound packets of RFC 3550 start: a header and a source.\<close>

definition rtcp_plain :: "bytes \<Rightarrow> bool" where
  "rtcp_plain p \<longleftrightarrow> 8 \<le> length p \<and> (case rtcp_header_unmarshal p of Inr _ \<Rightarrow> True | Inl _ \<Rightarrow> False)"

definition rtcp_sealed :: "crypto \<Rightarrow> cipher \<Rightarrow> bytes \<Rightarrow> bytes \<Rightarrow> bool" where
  "rtcp_sealed c z p q \<longleftrightarrow> (\<exists>h i s. rtcp_header_unmarshal q = Inr h \<and> packet_ssrc q = Inr s \<and>
     cipher_get_rtcp_index z q = Inr i \<and> cipher_decrypt_rtcp c z q i s = Inr p)"

lemma rtcp_prefix:
  assumes "rtcp_plain p"
  shows "\<exists>h s. packet_ssrc p = Inr s \<and> rtcp_header_unmarshal p = Inr h \<and>
    (\<forall>t. packet_ssrc (take 8 p @ t) = Inr s \<and> (\<exists>h'. rtcp_header_unmarshal (take 8 p @ t) = Inr h'))"
proof -
  have "8 \<le> length p" using assms by (simp add: rtcp_plain_def)
  then obtain b0 b1 b2 b3 b4 b5 b6 b7 r where "p = b0 # b1 # b2 # b3 # b4 # b5 # b6 # b7 # r"
    by (auto simp: numeral_eq_Suc Suc_le_length_iff)
  then show ?thesis
    using assms by (auto simp: rtcp_plain_def packet_ssrc_def rtcp_header_unmarshal_def
        HEADER_LENGTH_def slice_def split: if_splits)
qed

lemma get_put_srtcp [simp]:
  "get_srtcp_ssrc_state (put_srtcp_ssrc_state x s st) t = (if t = s then st else get_srtcp_ssrc_state x t)"
  "ctx_cipher (put_srtcp_ssrc_state x s st) = ctx_cipher x"
  by (simp_all add: get_srtcp_ssrc_state_def put_srtcp_ssrc_state_def split: option.split)

lemma encrypt_rtcp_step:
  assumes c: "crypto_ok c" "cipher_wf (ctx_cipher x)" and p: "rtcp_plain p"
    and i: "\<And>s. srtcp_index (get_srtcp_ssrc_state x s) \<le> MAX_SRTCP_INDEX"
  shows "\<exists>q x'. encrypt_rtcp c p x = (Inr q, x') \<and> ctx_cipher x' = ctx_cipher x \<and>
    (\<forall>s. srtcp_index (get_srtcp_ssrc_state x' s) \<le> MAX_SRTCP_INDEX) \<and> rtcp_sealed c (ctx_cipher x) p q"
proof -
  obtain h s where s: "packet_ssrc p = Inr s" "rtcp_header_unmarshal p = Inr h"
    "\<And>t. packet_ssrc (take 8 p @ t) = Inr s" "\<And>t. \<exists>h'. rtcp_header_unmarshal (take 8 p @ t) = Inr h'"
    using rtcp_prefix [OF p] by blast
  define k where "k = (if srtcp_index (get_srtcp_ssrc_state x s) + 1 > MAX_SRTCP_INDEX then 0
    else srtcp_index (get_srtcp_ssrc_state x s) + 1)"
  have k: "k \<le> MAX_SRTCP_INDEX" "k < 2147483648"
    unfolding k_def MAX_SRTCP_INDEX_def by (simp_all split: if_split)
  have "8 \<le> length p" using p by (simp add: rtcp_plain_def)
  then obtain t where t: "cipher_encrypt_rtcp c (ctx_cipher x) p k s = Inr (take 8 p @ t)"
    "cipher_get_rtcp_index (ctx_cipher x) (take 8 p @ t) = Inr k"
    "cipher_decrypt_rtcp c (ctx_cipher x) (take 8 p @ t) k s = Inr p"
    using cipher_rtcp_round_trip [OF c _ k(2)] by blast
  let ?x = "put_srtcp_ssrc_state x s ((get_srtcp_ssrc_state x s)\<lparr>srtcp_index := k\<rparr>)"
  have "encrypt_rtcp c p x = (Inr (take 8 p @ t), ?x)"
    using t(1) by (simp add: encrypt_rtcp_def s(1,2) Let_def k_def)
  moreover have "rtcp_sealed c (ctx_cipher x) p (take 8 p @ t)"
    unfolding rtcp_sealed_def using t(2,3) s(3,4) by blast
  ultimately show ?thesis using i k(1) by (intro exI [of _ "take 8 p @ t"] exI [of _ ?x]) simp
qed

lemma decrypt_rtcp_step:
  assumes q: "rtcp_sealed c (ctx_cipher x) p q"
    and d: "\<And>s. sc_replay_detector (get_srtcp_ssrc_state x s) = Some NoOpReplay"
  shows "\<exists>x'. decrypt_rtcp c q x = (Inr p, x') \<and> ctx_cipher x' = ctx_cipher x \<and>
    (\<forall>s. sc_replay_detector (get_srtcp_ssrc_state x' s) = Some NoOpReplay)"
proof -
  obtain h i s where q: "rtcp_header_unmarshal q = Inr h" "packet_ssrc q = Inr s"
     "cipher_get_rtcp_index (ctx_cipher x) q = Inr i" "cipher_decrypt_rtcp c (ctx_cipher x) q i s = Inr p"
    using q by (auto simp: rtcp_sealed_def)
  show ?thesis
    using d by (simp add: decrypt_rtcp_def q rdet_check_def rdet_accept_def noop_check_def noop_accept_def Let_def)
qed

lemma srtcp_send_all:
  assumes c: "crypto_ok c" "cipher_wf z"
  shows "ctx_cipher x = z \<Longrightarrow> \<forall>s. srtcp_index (get_srtcp_ssrc_state x s) \<le> MAX_SRTCP_INDEX \<Longrightarrow> list_all rtcp_plain ps \<Longrightarrow>
    \<exists>cs x'. srtcp_send c ps x = (Inr cs, x') \<and> list_all2 (rtcp_sealed c z) ps cs"
proof (induction ps arbitrary: x)
  case (Cons p ps)
  obtain q x' where q: "encrypt_rtcp c p x = (Inr q, x')" "ctx_cipher x' = z"
    "\<forall>s. srtcp_index (get_srtcp_ssrc_state x' s) \<le> MAX_SRTCP_INDEX" "rtcp_sealed c z p q"
    using encrypt_rtcp_step [OF c(1), of x p] c(2) Cons.prems by auto
  then obtain cs y where "srtcp_send c ps x' = (Inr cs, y)" "list_all2 (rtcp_sealed c z) ps cs"
    using Cons.IH [of x'] Cons.prems(3) by auto
  then show ?case using q by (intro exI [of _ "q # cs"] exI [of _ y]) simp
qed simp

lemma srtcp_receive_all:
  shows "ctx_cipher x = z \<Longrightarrow> \<forall>s. sc_replay_detector (get_srtcp_ssrc_state x s) = Some NoOpReplay \<Longrightarrow>
    list_all2 (rtcp_sealed c z) ps cs \<Longrightarrow> \<exists>x'. srtcp_receive c cs x = (Inr ps, x')"
proof (induction cs arbitrary: x ps)
  case (Cons q cs)
  then obtain p qs where ps: "ps = p # qs" "rtcp_sealed c z p q" "list_all2 (rtcp_sealed c z) qs cs"
    by (auto simp: list_all2_Cons2)
  obtain x' where x': "decrypt_rtcp c q x = (Inr p, x')" "ctx_cipher x' = z"
    "\<forall>s. sc_replay_detector (get_srtcp_ssrc_state x' s) = Some NoOpReplay"
    using decrypt_rtcp_step [of c x p q] ps(2) Cons.prems by auto
  show ?case using Cons.IH [OF x'(2,3) ps(3)] x'(1) ps(1) by auto
qed simp

lemma context_new_fresh_srtcp:
  assumes "srtp_context_new c mk ms profile None None = Inr x"
  shows "get_srtcp_ssrc_state x s = \<lparr>srtcp_index = 0, sc_ssrc = s, sc_replay_detector = Some NoOpReplay\<rparr>"
  using assms
  by (auto simp: srtp_context_new_def get_srtcp_ssrc_state_def srtcp_no_replay_protection_def rbind_eq_Inr split: if_splits)


definition toy_report :: bytes where
  "toy_report = [0x80, 201, 0, 1, 0, 0, 0, 5]"


text \<open>
  The counter mode cipher returns a control packet whose E flag is clear without looking at its
  tag: whoever clears the flag has the receiver take any bytes as an authentic control packet.
\<close>

lemma srtcp_clear_unauthenticated:
  assumes "ctx_cipher x = Cm m" "\<And>s. sc_replay_detector (get_srtcp_ssrc_state x s) = Some NoOpReplay"
    "rtcp_plain p" "length tag = rtcp_auth_tag_len (cm_profile m)"
  shows "fst (decrypt_rtcp c (p @ [0, 0, 0, 0] @ tag) x) = Inr p"
proof -
  let ?q = "p @ [0, 0, 0, 0] @ tag"
  have e: "?q = take 8 p @ (drop 8 p @ [0, 0, 0, 0] @ tag)" by simp
  obtain h s where s: "packet_ssrc ?q = Inr s" "rtcp_header_unmarshal ?q = Inr h"
    unfolding e using rtcp_prefix [OF assms(3)] by blast
  have g: "get_u32 ([0, 0, 0, 0] @ tag) = Inr (0, tag)" by (simp add: be32_def)
  have "cm_get_rtcp_index m ?q = Inr 0"
    using assms(4) g by (simp add: cm_get_rtcp_index_def SRTCP_INDEX_SIZE_def Let_def)
  moreover have "cm_decrypt_rtcp c m ?q i s = Inr p" for i s
    using assms(4) by (simp add: cm_decrypt_rtcp_def SRTCP_INDEX_SIZE_def Let_def nth_append)
  ultimately have "rtcp_sealed c (ctx_cipher x) p ?q"
    using s assms(1) by (auto simp: rtcp_sealed_def cipher_get_rtcp_index_def cipher_decrypt_rtcp_def)
  from decrypt_rtcp_step [OF this assms(2)] show ?thesis by auto
qed

section \<open>What a refused packet changes\<close>

text \<open>
  C17. A packet that is refused, as a replay or because it fails authentication or does not parse, changes
  neither the rollover counter nor the last sequence number of any source: only an accepted
  packet moves them.
\<close>

theorem srtp_refused_no_effect:
  assumes "decrypt_rtp c b x = (Inl e, x')"
  shows "rollover_counter (get_srtp_ssrc_state x' s) = rollover_counter (get_srtp_ssrc_state x s) \<and>
    last_sequence_number (get_srtp_ssrc_state x' s) = last_sequence_number (get_srtp_ssrc_state x s) \<and>
    rollover_has_processed (get_srtp_ssrc_state x' s) = rollover_has_processed (get_srtp_ssrc_state x s)"
proof -
  have keep: "x' = x \<or> (\<exists>t st. x' = put_srtp_ssrc_state x t st \<and>
      st = (get_srtp_ssrc_state x t)\<lparr>ss_replay_detector := ss_replay_detector st\<rparr>)"
  proof (cases "rtp_header_unmarshal b")
    case (Inr hr)
    obtain h rest where h: "hr = (h, rest)" by fastforce
    let ?st = "get_srtp_ssrc_state x (ssrc h)"
    define fs where "fs = (case ss_replay_detector ?st of
        Some d \<Rightarrow> (let (ok, d) = rdet_check d (ucast (sequence_number h)) in (ok, ?st\<lparr>ss_replay_detector := Some d\<rparr>))
      | None \<Rightarrow> (True, ?st))"
    obtain ok st where fs: "fs = (ok, st)" by fastforce
    have st: "st = ?st\<lparr>ss_replay_detector := ss_replay_detector st\<rparr>"
      using fs unfolding fs_def by (auto split: option.splits prod.splits)
    have "decrypt_rtp_with_header c b h x = (Inl e, x')"
      using assms Inr h by (simp add: decrypt_rtp_def)
    then have "x' = put_srtp_ssrc_state x (ssrc h) st"
      unfolding decrypt_rtp_with_header_def Let_def fs_def [unfolded Let_def, symmetric] fs prod.case
      by (auto split: sum.splits if_splits)
    with st show ?thesis by blast
  qed (use assms in \<open>simp add: decrypt_rtp_def\<close>)
  have g: "get_srtp_ssrc_state (put_srtp_ssrc_state x t st) s = (if s = t then st else get_srtp_ssrc_state x s)" for t st
    by (simp add: get_srtp_ssrc_state_def put_srtp_ssrc_state_def split: option.split)
  from keep show ?thesis
  proof (elim disjE exE conjE)
    fix t st
    assume "x' = put_srtp_ssrc_state x t st" "st = (get_srtp_ssrc_state x t)\<lparr>ss_replay_detector := ss_replay_detector st\<rparr>"
    then show ?thesis by (cases "s = t") (metis g srtp_ssrc_state.ext_inject srtp_ssrc_state.surjective srtp_ssrc_state.update_convs(5), simp add: g)
  qed simp
qed

theorem srtp_refused_no_effect_witness:
  "\<exists>x x' e. srtp_context_new toy_crypto (replicate 16 1) (replicate 14 2) Aes128CmHmacSha1_80 None None = Inr x \<and>
     decrypt_rtp toy_crypto [1, 2] x = (Inl e, x') \<and> rollover_counter (get_srtp_ssrc_state x' 5) = rollover_counter (get_srtp_ssrc_state x 5)"
proof -
  obtain x where x: "srtp_context_new toy_crypto (replicate 16 1) (replicate 14 2) Aes128CmHmacSha1_80 None None = Inr x"
    using cm_new_wf [OF toy_crypto_ok, of "replicate 16 1" "replicate 14 2" Aes128CmHmacSha1_80]
    by (auto simp: srtp_context_new_def key_len_def salt_len_def)
  have d: "decrypt_rtp toy_crypto [1, 2] x = (Inl (Err ''ErrHeaderSizeInsufficient''), x)"
    by (simp add: decrypt_rtp_def rtp_header_unmarshal_def HEADER_LENGTH_def)
  from srtp_refused_no_effect [OF d, of 5] x d show ?thesis by blast
qed

text \<open>The window of a replay detector is another matter: its first check, before authentication, sets
  where the window stands, so a forged first packet makes it refuse genuine ones.\<close>

lemma forged_first_packet_blocks:
  "fst (wsw_check (snd (wsw_check (wsw_new 64 65535) 30000)) 100) = False"
  by (simp add: wsw_new_def wsw_check_def wrap_diff_def i64_half_def fbi_new_def Let_def)

section \<open>Key stream reuse\<close>

lemma xor_bytes_inj:
  assumes "length a = length b" "length a \<le> length k" "xor_bytes k a = xor_bytes k b"
  shows "a = b"
  using arg_cong [OF assms(3), of "xor_bytes k"] assms(1,2) by (simp add: xor_bytes_twice)

lemma xor_prefix_inj:
  assumes "length a = length b" "xor_prefix k a = xor_prefix k b"
  shows "a = b"
proof -
  have l: "length (xor_bytes k a) = length (xor_bytes k b)" using assms(1) by simp
  then have x: "xor_bytes k a = xor_bytes k b" "drop (length k) a = drop (length k) b"
    using assms(2) by (simp_all add: xor_prefix_def)
  have t: "xor_bytes k (take (length k) c) = xor_bytes k c" for c
  proof (induction k arbitrary: c)
    case (Cons y k)
    then show ?case by (cases c) (simp_all add: xor_bytes_def)
  qed (simp add: xor_bytes_def)
  have "xor_bytes k (take (length k) a) = xor_bytes k (take (length k) b)"
    unfolding t by (rule x(1))
  moreover have "length (take (length k) a) = length (take (length k) b)" "length (take (length k) a) \<le> length k"
    using assms(1) by simp_all
  ultimately have tk: "take (length k) a = take (length k) b"
    by (intro xor_bytes_inj [of "take (length k) a" "take (length k) b" k])
  have "a = take (length k) a @ drop (length k) a" by simp
  also have "\<dots> = take (length k) b @ drop (length k) b" by (simp only: tk x(2))
  finally show ?thesis by simp
qed

lemma put_u32_inj:
  assumes "put_u32 a @ x = put_u32 b @ y"
  shows "a = b \<and> x = y"
  using arg_cong [OF assms, of get_u32] by simp



end
