(* ===== verification/Spec2Isabelle.thy ===== *)
theory Spec2Isabelle
  imports Replay_Detector Sctp_Endpoint Rtp_H264 Rtcp_Header Srtp_Context
begin

text \<open>
  A verification library for the sans-I/O WebRTC stack of this repository. It models three of its
  protocols in full operation: SCTP, the transport of data channels (crate \<^verbatim>\<open>rtc-sctp\<close>), RTP with its
  packetizers (\<^verbatim>\<open>rtc-rtp\<close>) and SRTP, which protects RTP and RTCP (\<^verbatim>\<open>rtc-srtp\<close>, with the header of
  \<^verbatim>\<open>rtc-rtcp\<close>), over the replay detectors and the marshalling traits of \<^verbatim>\<open>rtc-shared\<close>.

  \<^bold>\<open>How the parts interact.\<close> An SCTP endpoint gets datagrams, decodes their common header and routes them by
  verification tag to an association, or creates one for an INIT. The association decodes the chunks
  and hands each to a handler: DATA to the payload queue and the reassembly queue of its stream, SACK
  to the queue of chunks in flight and the congestion control, and so on; timers call back for
  retransmission. What a user writes to a stream is cut into chunks, waits in the pending queue for the
  congestion window, and leaves through \<^verbatim>\<open>poll_transmit\<close>. On the media side a packetizer asks the
  payloader of a codec to cut a frame, numbers the pieces and puts them into RTP packets; an SRTP
  context encrypts and authenticates the encoded packets under an index made of the sequence number
  and a rollover counter, and on the other side estimates that counter, refuses replays, and decrypts;
  a depacketizer puts the frame together.

  \<^bold>\<open>Conventions.\<close> Integers of the code are words of their width, whose arithmetic wraps; \<^verbatim>\<open>usize\<close> values are
  natural numbers, with the wrap written out where the code can underflow. A fallible operation has the type
  \<open>'a result\<close>: \<open>Inl (Err s)\<close> is the error value of the code, with the name of its variant,
  \<open>Inl Panic\<close> a panic (an index or a read out of range), \<open>Inl Hang\<close> a loop that would not end.
  A method with \<^verbatim>\<open>&mut self\<close> takes the state as its last argument and returns it updated. Time is an argument, in
  nanoseconds.

  \<^bold>\<open>The theories, in the order of the imports.\<close>
  \<^item> \<^verbatim>\<open>Rtc_Prelude\<close>: words, results, readers and writers of the \<^verbatim>\<open>bytes\<close> crate; shared lemmas.
  \<^item> \<^verbatim>\<open>Replay_Detector\<close> (\<^verbatim>\<open>rtc-shared/src/replay_detector\<close>): the bit mask on 64-bit words, the sliding
    window, the wrapping one and the trivial one. The locale \<open>replay_detector\<close> states the contract; both
    detectors interpret it. Shown: the shift of the mask is the shift of the number; no sequence number is
    delivered twice; exactly which ones are accepted; two inputs on which the code does accept a replay.
  \<^item> \<^verbatim>\<open>Sctp_Util\<close> (\<^verbatim>\<open>rtc-sctp/src/util.rs\<close>): serial number arithmetic, with the locale
    \<open>serial_number\<close> interpreted at 32 and 16 bits; padding; sources of bytes.
  \<^item> \<^verbatim>\<open>Sctp_Params\<close>, \<^verbatim>\<open>Sctp_Chunks\<close>, \<^verbatim>\<open>Sctp_Packet\<close> (\<^verbatim>\<open>param/\<close>, \<^verbatim>\<open>chunk/\<close>, \<^verbatim>\<open>packet.rs\<close>): the codec. The
    locale \<open>tlv_codec\<close> is the contract of a type-length-value encoding; parameters and chunks interpret it.
    Shown: round trips, the equality of one-stage and two-stage decoding, crafted inputs that panic.
  \<^item> \<^verbatim>\<open>Payload_Queue\<close>, \<^verbatim>\<open>Pending_Queue\<close>, \<^verbatim>\<open>Reassembly_Queue\<close> (\<^verbatim>\<open>queue/\<close>): invariants under every operation,
    exact gap blocks, messages that leave without interleaving, messages read in order for every arrival
    order of their fragments, exact byte counts.
  \<^item> \<^verbatim>\<open>Sctp_Timer\<close>, \<^verbatim>\<open>Sctp_Stream\<close> (\<^verbatim>\<open>association/timer.rs\<close>, \<^verbatim>\<open>association/stream.rs\<close>): bounds of the timeout;
    fragmentation of what is written, and that it comes back through a reassembly queue.
  \<^item> \<^verbatim>\<open>Sctp_Assoc\<close>, \<^verbatim>\<open>Sctp_Assoc_Recv\<close>, \<^verbatim>\<open>Sctp_Assoc_Sack\<close>, \<^verbatim>\<open>Sctp_Assoc_Send\<close>, \<^verbatim>\<open>Sctp_Assoc_Main\<close>
    (\<^verbatim>\<open>association/mod.rs\<close>): the state of an association as one record and every handler, half by half.
    Shown: what is acknowledged is delivered, the next expected chunk is accepted, which SACK is processed
    and what it changes, flow control of new data, bundling, timers that do nothing before their time.
  \<^item> \<^verbatim>\<open>Sctp_Assoc_Inv\<close>: the step relation \<open>assoc_step\<close> of all public operations and the invariant
    \<open>assoc_wf\<close> of every reachable association.
  \<^item> \<^verbatim>\<open>Sctp_Endpoint\<close> (\<^verbatim>\<open>endpoint/mod.rs\<close>): routing; the handshake of two endpoints through the codec.
  \<^item> \<^verbatim>\<open>Rtp_Header\<close>, \<^verbatim>\<open>Rtp_Packet\<close> (\<^verbatim>\<open>rtc-rtp/src/header.rs\<close>, \<^verbatim>\<open>packet\<close>, \<^verbatim>\<open>sequence.rs\<close>, \<^verbatim>\<open>extension\<close>): encoding
    and decoding with the three extension profiles and padding, editing of extensions, the sequencer and
    the payloads of header extensions. Shown: round trips, the recovered send time.
  \<^item> \<^verbatim>\<open>Rtp_Packetizer\<close>, \<^verbatim>\<open>Rtp_H264\<close> (\<^verbatim>\<open>packetizer\<close>, \<^verbatim>\<open>codecs/g7xx\<close>, \<^verbatim>\<open>opus\<close>, \<^verbatim>\<open>vp8\<close>, \<^verbatim>\<open>h264\<close>): the locale
    \<open>bounded_payloader\<close> is what the packetizer relies on; three payloaders interpret it. Shown: packets fit
    their limit, frames and NAL unit streams come back.
  \<^item> \<^verbatim>\<open>Rtcp_Header\<close>, \<^verbatim>\<open>Srtp_Cipher\<close>, \<^verbatim>\<open>Srtp_Context\<close> (\<^verbatim>\<open>rtc-rtcp/src/header.rs\<close>, \<^verbatim>\<open>rtc-srtp\<close>): key derivation, both
    ciphers, the context. Shown: sessions of RTP and RTCP packets are delivered, refused packets move no
    counter, counter blocks do not repeat.
  \<^item> This theory: a frame over the whole media path.

  \<^bold>\<open>Parameters.\<close> Third-party code is an argument: the CRC-32C of SCTP packets, random numbers, the keys a
  \<^verbatim>\<open>slab\<close> hands out, and the record \<open>crypto\<close> with AES, HMAC-SHA1 and AES-GCM. The hypothesis \<open>crypto_ok\<close>
  states only the sizes these functions return and that opening inverts sealing; the witnesses
  instantiate it with \<open>toy_crypto\<close>.

  \<^bold>\<open>Loops and bounds.\<close> Loops are total functions with a measure: bytes left to read, chunks stored, or the
  distance of two TSNs. Three scans take a number of rounds: \<open>skip_abandoned_done\<close>, \<open>retransmit_loop_enough\<close> and
  \<open>fast_retrans_loop_enough\<close> show that the number given, which comes from the size of the queue, is enough and that more rounds
  change nothing. A reader of messages is given a number of reads; the property of
  \<^verbatim>\<open>Reassembly_Queue\<close> on delivery bounds what it needs.

  \<^bold>\<open>Not modelled.\<close> DTLS, ICE, STUN, TURN, SDP, the data channel protocol, the bodies of RTCP packets, the VP9,
  H.265 and AV1 payload formats and the peer connection, which assembles the protocols; of the modelled
  crates, logging, statistics, the text of error values and the wake-up of tasks, none of which changes what an
  operation returns. Locks are not modelled: every operation of the code
  holds an exclusive borrow or, for the sequencer, the lock for its whole duration.
\<close>

section \<open>Media from frame to frame\<close>

text \<open>The receiving end of a media path: every decrypted datagram is decoded as an RTP packet and its
  payload depacketized.\<close>

fun media_receive :: "bytes list \<Rightarrow> vp8_packet \<Rightarrow> bytes result \<times> vp8_packet" where
  "media_receive [] v = (Inr [], v)"
| "media_receive (d # ds) v =
     (case rtp_packet_unmarshal d of
        Inl e \<Rightarrow> (Inl e, v)
      | Inr m \<Rightarrow> (case vp8_depacketize (pkt_payload m) v of
          (Inl e, v) \<Rightarrow> (Inl e, v)
        | (Inr f, v) \<Rightarrow> (case media_receive ds v of (r, v) \<Rightarrow> (rbind r (\<lambda>fs. Inr (f @ fs)), v))))"

text \<open>A packetizer with a limit of 100 bytes, about to number a packet 65535.\<close>

definition toy_packetizer :: "vp8_payloader packetizer" where
  "toy_packetizer = new_packetizer 7 100 96 5 \<lparr>enable_picture_id = True, vp8_picture_id = 300\<rparr> (new_fixed_sequencer 65535) 90000"

lemma media_receive_all:
  assumes "list_all2 (\<lambda>d f. \<exists>m. rtp_packet_unmarshal d = Inr m \<and>
    (\<forall>v. \<exists>v'. vp8_depacketize (pkt_payload m) v = (Inr f, v'))) ds fs"
  shows "\<exists>v'. media_receive ds v = (Inr (concat fs), v')"
  using assms
proof (induction ds fs arbitrary: v rule: list_all2_induct)
  case (Cons d ds f fs)
  then obtain m v1 where p: "rtp_packet_unmarshal d = Inr m" "vp8_depacketize (pkt_payload m) v = (Inr f, v1)"
    by blast
  obtain v2 where "media_receive ds v1 = (Inr (concat fs), v2)" using Cons.IH by blast
  with p show ?case by simp
qed simp

lemma rtp_packet_marshal_plain:
  assumes "rtp_header_ok (pkt_header p)" "\<not> padding (pkt_header p)"
  shows "rtp_packet_marshal p = Inr (plain (pkt_header p, pkt_payload p))"
proof -
  obtain hb where hb: "rtp_header_marshal (pkt_header p) = Inr hb" "length hb = rtp_header_marshal_size (pkt_header p)"
    using rtp_header_marshal_parts [OF assms(1)] by blast
  then show ?thesis
    using assms(2) rtp_header_marshal_to_more [OF assms(1), of "rtp_packet_marshal_size p"]
    by (simp add: rtp_packet_marshal_def marshal_with_def rtp_packet_marshal_to_def plain_def
        rtp_packet_marshal_size_def rtp_packet_padding_len_def Let_def)
qed

text \<open>What the packets of a frame are, for any frame a payloader cuts.\<close>

lemma vp8_packets:
  assumes z: "12 \<le> pz_mtu z" "pz_abs_send_time z = 0" "pz_payload_type z < 128"
    and s: "enable_picture_id (pz_payloader z)" "vp8_picture_id (pz_payloader z) < 0x8000"
      "vp8_using_header_size (pz_payloader z) < pz_mtu z - 12" and b: "b \<noteq> []"
  obtains pkts z' fs where "packetize vp8_payload now b samples z = (Inr pkts, z')"
    "fs = pieces (pz_mtu z - 12 - vp8_using_header_size (pz_payloader z)) b"
    "length fs = length pkts"
    "\<And>k. k < length pkts \<Longrightarrow> rtp_header_ok (pkt_header (pkts ! k)) \<and> \<not> padding (pkt_header (pkts ! k)) \<and>
      ssrc (pkt_header (pkts ! k)) = pz_ssrc z \<and>
      sequence_number (pkt_header (pkts ! k)) = of_nat (unat (seq_number (pz_sequencer z) + 1) + k) \<and>
      (\<forall>v. \<exists>v'. vp8_depacketize (pkt_payload (pkts ! k)) v = (Inr (fs ! k), v'))"
proof -
  let ?s = "pz_payloader z"
  define fs where "fs = pieces (pz_mtu z - 12 - vp8_using_header_size ?s) b"
  let ?ps = "mark_fragments (\<lambda>first last p. vp8_descriptor ?s first @ p) True fs"
  have u: "usize_sub (pz_mtu z) 12 = pz_mtu z - 12" using z(1) by (simp add: usize_sub_def)
  have pl: "vp8_payload (usize_sub (pz_mtu z) 12) b ?s =
      (Inr ?ps, ?s\<lparr>vp8_picture_id := (vp8_picture_id ?s + 1) AND 0x7FFF\<rparr>)"
    using s(3) b by (simp add: vp8_payload_eq u fs_def)
  then obtain pkts z' where r: "packetize vp8_payload now b samples z = (Inr pkts, z')" "length pkts = length fs"
    using packetize_total [where payload = vp8_payload, OF z(2) pl, of now samples] by auto
  obtain ps' s' where f: "vp8_payload (usize_sub (pz_mtu z) 12) b ?s = (Inr ps', s')" "map pkt_payload pkts = ps'"
    "\<And>k. k < length ps' \<Longrightarrow> pkt_header (pkts ! k) =
       rtp_header_default\<lparr>version := 2, marker := (k = length ps' - 1), payload_type := pz_payload_type z,
         sequence_number := seq_number (pz_sequencer z) + 1 + of_nat k, timestamp := pz_timestamp z,
         ssrc := pz_ssrc z\<rparr>"
    using packetize_plain [OF z(2) r(1)] by metis
  have ps': "ps' = ?ps" using f(1) pl by simp
  have "rtp_header_ok (pkt_header (pkts ! k)) \<and> \<not> padding (pkt_header (pkts ! k)) \<and>
      ssrc (pkt_header (pkts ! k)) = pz_ssrc z \<and>
      sequence_number (pkt_header (pkts ! k)) = of_nat (unat (seq_number (pz_sequencer z) + 1) + k) \<and>
      (\<forall>v. \<exists>v'. vp8_depacketize (pkt_payload (pkts ! k)) v = (Inr (fs ! k), v'))"
    if "k < length pkts" for k
  proof -
    have k: "k < length fs" using that r(2) by simp
    have "pkt_payload (pkts ! k) = ?ps ! k"
      using f(2) that ps' by (metis nth_map)
    also have "\<dots> = vp8_descriptor ?s (k = 0) @ fs ! k" using k by (simp add: mark_fragments_nth)
    finally have pk: "pkt_payload (pkts ! k) = vp8_descriptor ?s (k = 0) @ fs ! k" .
    have "fs ! k \<noteq> []" using k pieces_length [OF nth_mem [OF k, unfolded fs_def]] by (simp add: fs_def)
    with vp8_depacketize_fragment [OF s(1,2)]
    have "\<forall>v. \<exists>v'. vp8_depacketize (pkt_payload (pkts ! k)) v = (Inr (fs ! k), v')" unfolding pk by blast
    moreover have "rtp_header_ok (pkt_header (pkts ! k)) \<and> \<not> padding (pkt_header (pkts ! k)) \<and>
      ssrc (pkt_header (pkts ! k)) = pz_ssrc z \<and>
      sequence_number (pkt_header (pkts ! k)) = of_nat (unat (seq_number (pz_sequencer z) + 1) + k)"
      using f(3) [of k] z(3) k by (simp add: ps' rtp_header_ok_def rtp_header_default_def)
    ultimately show ?thesis by blast
  qed
  with r show thesis using that [of pkts z' fs] fs_def by metis
qed

lemma successively_upt: "successively (\<lambda>j k. \<bar>int k - int j\<bar> \<le> 100) [m..<n]"
proof (induction n)
  case (Suc n)
  then show ?case by (cases "m < n") (auto simp: successively_append_iff)
qed simp



end
